(* ===== verification/Mpx_Prelude.thy ===== *)
theory Mpx_Prelude
  imports Main "HOL-Library.Word"
begin

text \<open>
  Shared vocabulary of the MPX development: the machine integers of the i386 target, the
  faults a C function of the kernel can run into, the two sequencing combinators the
  operations are written with, bounds-checked access to C arrays, C's truncating division,
  and the generic lemmas every component uses.

  \<^item> Unsigned machine integers (\<open>size_t\<close>, \<open>uint32_t\<close>, \<open>uint8_t\<close>, pointers) are words.
  \<^item> The C type \<open>int\<close> is \<^typ>\<open>int\<close>, with the two's complement wrap-around written out by
    \<open>wrap32\<close> where an operation of the code can leave the 32-bit range.
  \<^item> A \<open>char\<close> array (a buffer, a string literal, the \<open>name\<close> field of a PCB) is the list of
    its bytes. A \<open>char *\<close> into it is a suffix or an index; an access outside the array is the
    fault \<open>Out_Of_Bounds\<close>, never an unspecified value.
  \<^item> \<open>'a checked\<close> is the result of code that may fault, \<open>'a checked option\<close> the result of
    code that may also run forever (\<^const>\<open>None\<close>).
\<close>

unbundle bit_operations_syntax

named_theorems checked_simps \<open>sequencing of operations that may fault or not return\<close>
named_theorems c_array \<open>bounds-checked access to C arrays\<close>

section \<open>Machine integers\<close>

type_synonym u8 = "8 word"
type_synonym u16 = "16 word"
type_synonym u32 = "32 word"
type_synonym bytes = "u8 list"

abbreviation NULL :: u32 where "NULL \<equiv> 0"

abbreviation asc :: "char \<Rightarrow> u8" where "asc c \<equiv> of_char c"

text \<open>The array behind a string literal: its characters and the terminating NUL.\<close>

definition c_str :: "string \<Rightarrow> bytes" where
  "c_str s = map of_char s @ [0]"

text \<open>Two's complement wrap-around of a 32-bit \<open>int\<close>.\<close>

definition wrap32 :: "int \<Rightarrow> int" where
  "wrap32 x = signed_take_bit 31 x"

abbreviation INT_MIN :: int where "INT_MIN \<equiv> - 2147483648"
abbreviation INT_MAX :: int where "INT_MAX \<equiv> 2147483647"

text \<open>C's division and remainder truncate towards zero.\<close>

definition cdiv :: "int \<Rightarrow> int \<Rightarrow> int" where
  "cdiv a b = sgn a * sgn b * (\<bar>a\<bar> div \<bar>b\<bar>)"

definition cmod :: "int \<Rightarrow> int \<Rightarrow> int" where
  "cmod a b = a - cdiv a b * b"

section \<open>Faults and sequencing\<close>

datatype fault =
    Null_Deref          \<comment> \<open>access through a NULL pointer: page 0 is unmapped, the CPU raises a page fault\<close>
  | Out_Of_Bounds       \<comment> \<open>access outside the array a pointer was derived from\<close>
  | Div_By_Zero         \<comment> \<open>integer division by zero: CPU exception 0\<close>
  | Panic string        \<comment> \<open>\<open>kpanic\<close> with the given message\<close>

type_synonym 'a checked = "fault + 'a"

fun and_then :: "'a checked \<Rightarrow> ('a \<Rightarrow> 'b checked) \<Rightarrow> 'b checked" where
  "and_then (Inl e) f = Inl e"
| "and_then (Inr x) f = f x"

fun run_then :: "'a checked option \<Rightarrow> ('a \<Rightarrow> 'b checked option) \<Rightarrow> 'b checked option" where
  "run_then None f = None"
| "run_then (Some (Inl e)) f = Some (Inl e)"
| "run_then (Some (Inr x)) f = f x"

lemma and_then_cong [fundef_cong]:
  "m = m' \<Longrightarrow> (\<And>x. m' = Inr x \<Longrightarrow> f x = g x) \<Longrightarrow> and_then m f = and_then m' g"
  by (cases m') auto

declare and_then.simps [checked_simps] run_then.simps [checked_simps]

lemma and_then_Inr_iff [checked_simps]:
  "and_then m f = Inr y \<longleftrightarrow> (\<exists>x. m = Inr x \<and> f x = Inr y)"
  by (cases m) auto

lemma and_then_Inl_iff [checked_simps]:
  "and_then m f = Inl e \<longleftrightarrow> m = Inl e \<or> (\<exists>x. m = Inr x \<and> f x = Inl e)"
  by (cases m) auto

lemma run_then_Some_Inr_iff [checked_simps]:
  "run_then m f = Some (Inr y) \<longleftrightarrow> (\<exists>x. m = Some (Inr x) \<and> f x = Some (Inr y))"
  by (cases m rule: option.exhaust) (auto split: sum.splits elim!: run_then.elims)

text \<open>What follows a step need only agree on what the step returns.\<close>

lemma run_then_cong: "(\<And>x. m = Some (Inr x) \<Longrightarrow> f x = g x) \<Longrightarrow> run_then m f = run_then m g"
proof (cases m)
  case (Some r)
  then show "(\<And>x. m = Some (Inr x) \<Longrightarrow> f x = g x) \<Longrightarrow> run_then m f = run_then m g" by (cases r) simp_all
qed simp

lemma run_then_assoc: "run_then (run_then m f) g = run_then m (\<lambda>x. run_then (f x) g)"
proof (cases m)
  case (Some r)
  then show ?thesis by (cases r) simp_all
qed simp

text \<open>Sequencing is monotone, so loops whose body is a sequence can be partial functions.\<close>

lemma run_then_bind: "run_then m f = Option.bind m (\<lambda>r. case r of Inl e \<Rightarrow> Some (Inl e) | Inr x \<Rightarrow> f x)"
proof (cases m)
  case (Some r)
  then show ?thesis by (cases r) simp_all
qed simp

lemma run_then_mono [partial_function_mono]:
  assumes "mono_option B" "\<And>y. mono_option (\<lambda>f. C y f)"
  shows "mono_option (\<lambda>f. run_then (B f) (\<lambda>y. C y f))"
proof -
  have "mono_option (\<lambda>f. case r of Inl e \<Rightarrow> Some (Inl e) | Inr x \<Rightarrow> C x f)" for r
    using assms(2) by (cases r) (simp_all add: option.const_mono)
  then show ?thesis unfolding run_then_bind by (rule bind_mono [OF assms(1)])
qed

section \<open>C arrays\<close>

definition arr_get :: "bytes \<Rightarrow> nat \<Rightarrow> u8 checked" where
  "arr_get b i = (if i < length b then Inr (b ! i) else Inl Out_Of_Bounds)"

definition arr_set :: "bytes \<Rightarrow> nat \<Rightarrow> u8 \<Rightarrow> bytes checked" where
  "arr_set b i v = (if i < length b then Inr (b[i := v]) else Inl Out_Of_Bounds)"

lemma arr_get_in [simp, c_array]: "i < length b \<Longrightarrow> arr_get b i = Inr (b ! i)"
  by (simp add: arr_get_def)

lemma arr_get_out [simp, c_array]: "length b \<le> i \<Longrightarrow> arr_get b i = Inl Out_Of_Bounds"
  by (simp add: arr_get_def)

lemma arr_set_in [simp, c_array]: "i < length b \<Longrightarrow> arr_set b i v = Inr (b[i := v])"
  by (simp add: arr_set_def)

lemma arr_set_out [simp, c_array]: "length b \<le> i \<Longrightarrow> arr_set b i v = Inl Out_Of_Bounds"
  by (simp add: arr_set_def)

lemma arr_set_Inr_length: "arr_set b i v = Inr b' \<Longrightarrow> length b' = length b"
  by (auto simp: arr_set_def split: if_splits)

section \<open>Generic lemmas\<close>

lemma wrap32_id [simp]: "INT_MIN \<le> x \<Longrightarrow> x \<le> INT_MAX \<Longrightarrow> wrap32 x = x"
  unfolding wrap32_def by (rule signed_take_bit_int_eq_self) auto

lemma wrap32_range: "INT_MIN \<le> wrap32 x \<and> wrap32 x \<le> INT_MAX"
  using signed_take_bit_int_greater_eq_minus_exp [of 31 x] signed_take_bit_int_less_exp [of 31 x]
  by (simp add: wrap32_def)

lemma cdiv_nonneg [simp]: "0 \<le> a \<Longrightarrow> 0 < b \<Longrightarrow> cdiv a b = a div b"
  by (cases "a = 0") (auto simp: cdiv_def)

lemma cmod_nonneg [simp]: "0 \<le> a \<Longrightarrow> 0 < b \<Longrightarrow> cmod a b = a mod b"
  by (simp add: cmod_def minus_div_mult_eq_mod)

lemma cdiv_cmod: "cdiv a b * b + cmod a b = a"
  by (simp add: cmod_def)

lemma uint_eq_iff: "uint a = uint b \<longleftrightarrow> a = b"
  by (simp add: word_uint_eq_iff)

lemma uint_less_iff: "uint a < uint b \<longleftrightarrow> a < b"
  by (simp add: word_less_def)

lemma uint_zero_iff: "uint a = 0 \<longleftrightarrow> a = 0"
  by (simp add: word_uint_eq_iff)

lemma uint_pos_iff: "0 < uint a \<longleftrightarrow> a \<noteq> 0"
  using uint_less_iff [of 0 a] by (auto simp: word_gt_0)

lemmas uint_simps = uint_eq_iff uint_less_iff uint_zero_iff uint_pos_iff

lemma unat_of_nat32: "x < 2 ^ 32 \<Longrightarrow> unat (of_nat x :: u32) = x"
  by (simp add: unat_of_nat take_bit_eq_mod)

lemma and_not_mask: "(w :: u32) AND NOT (mask k) = push_bit k (drop_bit k w)"
  by (rule bit_word_eqI) (auto simp: bit_simps)

lemma takeWhile_append_stop: "(\<And>x. x \<in> set xs \<Longrightarrow> P x) \<Longrightarrow> \<not> P y \<Longrightarrow> takeWhile P (xs @ y # ys) = xs"
  by (induction xs) auto

lemma in_set_takeWhile_split:
  assumes "z \<in> set xs"
  obtains ys zs where "xs = ys @ z # zs" and "z \<notin> set ys" and "takeWhile (\<lambda>x. x \<noteq> z) xs = ys"
proof -
  obtain ys zs where "xs = ys @ z # zs" "z \<notin> set ys"
    using assms by (metis split_list_first)
  moreover have "takeWhile (\<lambda>x. x \<noteq> z) (ys @ z # zs) = ys"
    using \<open>z \<notin> set ys\<close> by (intro takeWhile_append_stop) auto
  ultimately show ?thesis using that by blast
qed

end
