(* ===== verification/C_Strings.thy ===== *)
theory C_Strings
  imports Mpx_Prelude
begin

text \<open>
  \<open>src/lib/ctype.c\<close>, \<open>src/lib/string.c\<close> and the memory routines of \<open>src/lib/core.c\<close>.

  A pointer parameter is the array from that pointer on (a byte list); the routines that
  move two pointers through one array (\<open>strtok\<close>) take the array and indices. The loops
  of the C code are recursive functions with the same tests in the same order; reading or
  writing past the array is the fault \<^const>\<open>Out_Of_Bounds\<close>.

  The lemmas show that the routines compute what \<open>include/string.h\<close> documents: \<open>strlen\<close>
  the distance to the NUL, \<open>strcmp\<close> the lexicographic order, \<open>strcpy\<close>, \<open>memcpy\<close> and
  \<open>memset\<close> the copied or filled prefix with the rest of the array untouched, \<open>strtok\<close> the
  first maximal run of non-delimiters.
\<close>

section \<open>Model\<close>

subsection \<open>ctype.c\<close>

definition isspace :: "int \<Rightarrow> bool" where
  "isspace c \<longleftrightarrow> c = 32 \<or> c = 10 \<or> c = 13 \<or> c = 12 \<or> c = 9 \<or> c = 11"

subsection \<open>core.c: memcpy and memset\<close>

function memcpy_loop :: "bytes \<Rightarrow> bytes \<Rightarrow> nat \<Rightarrow> nat \<Rightarrow> bytes checked" where
  "memcpy_loop dst src n i =
     (if i < n then
        and_then (arr_get src i) (\<lambda>v.
        and_then (arr_set dst i v) (\<lambda>dst'.
        memcpy_loop dst' src n (i + 1)))
      else Inr dst)"
  by pat_completeness auto
termination
  by (relation "measure (\<lambda>(dst, src, n, i). n - i)") auto

definition memcpy :: "bytes \<Rightarrow> bytes \<Rightarrow> nat \<Rightarrow> bytes checked" where
  "memcpy s1 s2 n = memcpy_loop s1 s2 n 0"

function memset_loop :: "bytes \<Rightarrow> int \<Rightarrow> nat \<Rightarrow> nat \<Rightarrow> bytes checked" where
  "memset_loop p c n i =
     (if i < n then
        and_then (arr_set p i (word_of_int c)) (\<lambda>p'.
        memset_loop p' c n (i + 1))
      else Inr p)"
  by pat_completeness auto
termination
  by (relation "measure (\<lambda>(p, c, n, i). n - i)") auto

definition memset :: "bytes \<Rightarrow> int \<Rightarrow> nat \<Rightarrow> bytes checked" where
  "memset s c n = memset_loop s c n 0"

subsection \<open>string.c: strcpy, strcmp, strlen\<close>

fun strcpy :: "bytes \<Rightarrow> bytes \<Rightarrow> bytes checked" where
  "strcpy dest [] = Inl Out_Of_Bounds"
| "strcpy [] (c # src) = Inl Out_Of_Bounds"
| "strcpy (d # dest) (c # src) =
     (if c \<noteq> 0 then and_then (strcpy dest src) (\<lambda>rest. Inr (c # rest))
      else Inr (0 # dest))"

fun strcmp :: "bytes \<Rightarrow> bytes \<Rightarrow> int checked" where
  "strcmp [] s2 = Inl Out_Of_Bounds"
| "strcmp (a # s1) [] = Inl Out_Of_Bounds"
| "strcmp (a # s1) (b # s2) =
     (if a \<noteq> 0 \<and> a = b then strcmp s1 s2 else Inr (uint a - uint b))"

fun strlen_loop :: "bytes \<Rightarrow> nat \<Rightarrow> nat checked" where
  "strlen_loop [] len = Inl Out_Of_Bounds"
| "strlen_loop (c # s) len = (if c \<noteq> 0 then strlen_loop s (len + 1) else Inr len)"

definition strlen :: "bytes \<Rightarrow> nat checked" where
  "strlen s = strlen_loop s 0"

subsection \<open>string.c: strtok\<close>

text \<open>
  The first loop skips leading delimiters: \<open>i\<close> is the index of \<open>s1\<close> in the array, the last
  argument the delimiter pointer \<open>p\<close>, which goes back to \<open>s2\<close> after a match.
\<close>

function strtok_skip :: "bytes \<Rightarrow> bytes \<Rightarrow> nat \<Rightarrow> bytes \<Rightarrow> nat checked" where
  "strtok_skip b s2 i p =
     (case p of
        [] \<Rightarrow> Inl Out_Of_Bounds
      | d # p' \<Rightarrow>
          if d = 0 then Inr i
          else if i \<ge> length b then Inl Out_Of_Bounds
          else if b ! i = 0 then Inr i
          else if b ! i = d then strtok_skip b s2 (i + 1) s2
          else strtok_skip b s2 i p')"
  by pat_completeness auto
termination
  by (relation "measures [\<lambda>(b, s2, i, p). length b - i, \<lambda>(b, s2, i, p). length p]") auto

text \<open>The inner loop of the second scan: does \<open>*tok_tmp\<close> occur among the delimiters?\<close>

fun strtok_match :: "u8 \<Rightarrow> bytes \<Rightarrow> bool checked" where
  "strtok_match c [] = Inl Out_Of_Bounds"
| "strtok_match c (d # p) =
     (if d = 0 then Inr False else if c = d then Inr True else strtok_match c p)"

text \<open>
  The second scan: the index of the delimiter that ends the token, or \<^const>\<open>None\<close> when the
  string ends first.
\<close>

function strtok_scan :: "bytes \<Rightarrow> bytes \<Rightarrow> nat \<Rightarrow> nat option checked" where
  "strtok_scan b s2 t =
     (if t \<ge> length b then Inl Out_Of_Bounds
      else if b ! t = 0 then Inr None
      else and_then (strtok_match (b ! t) s2) (\<lambda>hit.
             if hit then Inr (Some t) else strtok_scan b s2 (t + 1)))"
  by pat_completeness auto
termination
  by (relation "measure (\<lambda>(b, s2, t). length b - t)") auto

text \<open>
  \<open>strtok b s1 s2 tok_tmp\<close>: \<open>s1\<close> is the index of a new string in \<open>b\<close> or \<^const>\<open>None\<close> for
  \<open>NULL\<close>, \<open>tok_tmp\<close> the static pointer. The result is the returned pointer, the array
  (a NUL is written over the delimiter that ends the token) and the new static pointer.
\<close>

definition strtok ::
  "bytes \<Rightarrow> nat option \<Rightarrow> bytes \<Rightarrow> nat option \<Rightarrow> (nat option \<times> bytes \<times> nat option) checked" where
  "strtok b s1 s2 tok_tmp =
     (case (case s1 of Some i \<Rightarrow> Some i | None \<Rightarrow> tok_tmp) of
        None \<Rightarrow> Inr (None, b, None)
      | Some i0 \<Rightarrow>
          and_then (strtok_skip b s2 i0 s2) (\<lambda>i.
          and_then (arr_get b i) (\<lambda>c.
            if c = 0 then Inr (None, b, None)
            else and_then (strtok_scan b s2 i) (\<lambda>r.
              case r of
                Some t \<Rightarrow> Inr (Some i, b[t := 0], Some (t + 1))
              | None \<Rightarrow> Inr (Some i, b, None)))))"

section \<open>Lemmas\<close>

text \<open>The string a pointer denotes: the bytes before the first NUL.\<close>

definition cstring :: "bytes \<Rightarrow> bytes" where
  "cstring s = takeWhile (\<lambda>c. c \<noteq> 0) s"

lemma cstring_Nil [simp]: "cstring [] = []"
  by (simp add: cstring_def)

lemma cstring_Cons [simp]: "cstring (c # s) = (if c = 0 then [] else c # cstring s)"
  by (simp add: cstring_def)

lemma cstring_zeros [simp]: "cstring (replicate n 0) = []"
  by (cases n) auto

lemma cstring_no_nul [simp]: "0 \<notin> set (cstring s)"
  by (auto simp: cstring_def dest: set_takeWhileD)

lemma cstring_append_nul [simp]: "0 \<notin> set xs \<Longrightarrow> cstring (xs @ 0 # ys) = xs"
  by (induction xs) auto

lemma cstring_length_less: "0 \<in> set s \<Longrightarrow> length (cstring s) < length s"
  by (induction s) auto

lemma cstring_c_str [simp]: "0 \<notin> set (map of_char s :: bytes) \<Longrightarrow> cstring (c_str s) = map of_char s"
  unfolding c_str_def by (rule cstring_append_nul)

lemma nul_in_c_str [simp]: "0 \<in> set (c_str s)"
  by (simp add: c_str_def)

subsection \<open>memcpy and memset\<close>

declare memcpy_loop.simps [simp del] memset_loop.simps [simp del]

lemma memcpy_loop_eq:
  "i \<le> n \<Longrightarrow> n \<le> length src \<Longrightarrow> n \<le> length dst \<Longrightarrow> take i dst = take i src \<Longrightarrow>
   memcpy_loop dst src n i = Inr (take n src @ drop n dst)"
proof (induction dst src n i rule: memcpy_loop.induct)
  case (1 dst src n i)
  show ?case
  proof (cases "i < n")
    case True
    have "take (i + 1) (dst[i := src ! i]) = take (i + 1) src"
      using True "1.prems" by (simp add: take_Suc_conv_app_nth)
    then show ?thesis
      using True "1.prems" "1.IH" [of "src ! i" "dst[i := src ! i]"]
      by (simp add: memcpy_loop.simps [of dst src n i] drop_update_cancel)
  next
    case False
    then show ?thesis
      using "1.prems" by (subst memcpy_loop.simps) (simp, metis append_take_drop_id)
  qed
qed

lemma memcpy_loop_fault:
  "i \<le> length src \<Longrightarrow> i \<le> length dst \<Longrightarrow> length src < n \<or> length dst < n \<Longrightarrow>
   memcpy_loop dst src n i = Inl Out_Of_Bounds"
proof (induction dst src n i rule: memcpy_loop.induct)
  case (1 dst src n i)
  show ?case
  proof (cases "i < n \<and> i < length src \<and> i < length dst")
    case True
    then show ?thesis
      using "1.prems" "1.IH" [of "src ! i" "dst[i := src ! i]"]
      by (simp add: memcpy_loop.simps [of dst src n i])
  next
    case False
    then show ?thesis
      using "1.prems" by (auto simp: memcpy_loop.simps [of dst src n i] arr_get_def)
  qed
qed

lemma memset_loop_eq:
  "i \<le> n \<Longrightarrow> n \<le> length p \<Longrightarrow> take i p = replicate i (word_of_int c) \<Longrightarrow>
   memset_loop p c n i = Inr (replicate n (word_of_int c) @ drop n p)"
proof (induction p c n i rule: memset_loop.induct)
  case (1 p c n i)
  let ?v = "word_of_int c :: u8"
  show ?case
  proof (cases "i < n")
    case True
    have "take (i + 1) (p[i := ?v]) = replicate (i + 1) ?v"
      using True "1.prems" by (simp add: take_Suc_conv_app_nth replicate_append_same [symmetric])
    then show ?thesis
      using True "1.prems" "1.IH" [of "p[i := ?v]"]
      by (simp add: memset_loop.simps [of p c n i] drop_update_cancel)
  next
    case False
    then show ?thesis
      using "1.prems" by (subst memset_loop.simps) (simp, metis append_take_drop_id)
  qed
qed

lemma memset_eq: "n \<le> length p \<Longrightarrow> memset p c n = Inr (replicate n (word_of_int c) @ drop n p)"
  by (simp add: memset_def memset_loop_eq)

lemma memset_whole: "memset p 0 (length p) = Inr (replicate (length p) 0)"
  by (simp add: memset_eq)

subsection \<open>strlen, strcmp and strcpy\<close>

lemma strlen_loop_eq: "0 \<in> set s \<Longrightarrow> strlen_loop s k = Inr (k + length (cstring s))"
  by (induction s arbitrary: k) auto

lemma strlen_loop_fault: "0 \<notin> set s \<Longrightarrow> strlen_loop s k = Inl Out_Of_Bounds"
  by (induction s arbitrary: k) auto

lemma strlen_eq [simp]: "0 \<in> set s \<Longrightarrow> strlen s = Inr (length (cstring s))"
  by (simp add: strlen_def strlen_loop_eq)

lemma strlen_fault [simp]: "0 \<notin> set s \<Longrightarrow> strlen s = Inl Out_Of_Bounds"
  by (simp add: strlen_def strlen_loop_fault)

lemma strcmp_total: "0 \<in> set s1 \<Longrightarrow> 0 \<in> set s2 \<Longrightarrow> \<exists>d. strcmp s1 s2 = Inr d"
  by (induction s1 s2 rule: strcmp.induct) auto

lemma strcmp_zero_iff:
  "0 \<in> set s1 \<Longrightarrow> 0 \<in> set s2 \<Longrightarrow> strcmp s1 s2 = Inr 0 \<longleftrightarrow> cstring s1 = cstring s2"
  by (induction s1 s2 rule: strcmp.induct) (auto simp: uint_simps)

lemma strcmp_less_iff:
  "0 \<in> set s1 \<Longrightarrow> 0 \<in> set s2 \<Longrightarrow> strcmp s1 s2 = Inr d \<Longrightarrow>
   d < 0 \<longleftrightarrow> (cstring s1, cstring s2) \<in> lexord {(a, b). a < b}"
  by (induction s1 s2 arbitrary: d rule: strcmp.induct)
    (auto simp: uint_simps split: if_splits)

lemma strcpy_eq:
  "0 \<in> set src \<Longrightarrow> length (cstring src) < length dest \<Longrightarrow>
   strcpy dest src = Inr (cstring src @ 0 # drop (Suc (length (cstring src))) dest)"
  by (induction dest src rule: strcpy.induct) auto

lemma strcpy_fault: "length dest \<le> length (cstring src) \<Longrightarrow> strcpy dest src = Inl Out_Of_Bounds"
  by (induction dest src rule: strcpy.induct) (auto split: if_splits)

subsection \<open>strtok\<close>

abbreviation delims :: "bytes \<Rightarrow> u8 set" where "delims s2 \<equiv> set (cstring s2)"

declare strtok_skip.simps [simp del] strtok_scan.simps [simp del]

lemma strtok_match_eq: "0 \<in> set s2 \<Longrightarrow> strtok_match c s2 = Inr (c \<in> delims s2)"
  by (induction c s2 rule: strtok_match.induct) auto

lemma cstring_drop_step:
  "i < length b \<Longrightarrow> cstring (drop i b) = (if b ! i = 0 then [] else b ! i # cstring (drop (i + 1) b))"
  by (simp add: Cons_nth_drop_Suc [symmetric])

lemma nul_in_drop_step: "i < length b \<Longrightarrow> 0 \<in> set (drop i b) \<longleftrightarrow> b ! i = 0 \<or> 0 \<in> set (drop (i + 1) b)"
  by (auto simp: Cons_nth_drop_Suc [symmetric])

lemma nul_in_drop_less: "(0::u8) \<in> set (drop i b) \<Longrightarrow> i < length b"
  by (rule ccontr) simp

lemma strtok_skip_eq:
  "0 \<in> set (drop i b) \<Longrightarrow> s2 = q @ p \<Longrightarrow> 0 \<notin> set q \<Longrightarrow> 0 \<in> set p \<Longrightarrow> b ! i \<notin> set q \<Longrightarrow>
   strtok_skip b s2 i p = Inr (i + length (takeWhile (\<lambda>c. c \<in> delims s2) (cstring (drop i b))))"
proof (induction b s2 i p arbitrary: q rule: strtok_skip.induct)
  case (1 b s2 i p)
  have i: "i < length b" using "1.prems"(1) by (rule nul_in_drop_less)
  obtain d p' where p: "p = d # p'" using "1.prems"(4) by (cases p) auto
  have unfold: "strtok_skip b s2 i p =
      (if d = 0 then Inr i else if b ! i = 0 then Inr i
       else if b ! i = d then strtok_skip b s2 (i + 1) s2 else strtok_skip b s2 i p')"
    using i unfolding p by (subst strtok_skip.simps) simp
  consider (stop) "d = 0" | (nul) "d \<noteq> 0" "b ! i = 0"
    | (hit) "d \<noteq> 0" "b ! i \<noteq> 0" "b ! i = d" | (miss) "d \<noteq> 0" "b ! i \<noteq> 0" "b ! i \<noteq> d" by blast
  then show ?case
  proof cases
    case stop
    then have "delims s2 = set q" using "1.prems"(2,3) p by simp
    then show ?thesis
      using stop i "1.prems"(5) unfolding unfold by (simp add: cstring_drop_step)
  next
    case nul
    then show ?thesis using i unfolding unfold by (simp add: cstring_drop_step)
  next
    case hit
    have D: "b ! i \<in> delims s2"
      using hit "1.prems"(2,3) p by (induction q arbitrary: s2) auto
    have "strtok_skip b s2 (i + 1) s2 =
        Inr (i + 1 + length (takeWhile (\<lambda>c. c \<in> delims s2) (cstring (drop (i + 1) b))))"
      using hit p i "1.prems" "1.IH"(1) [OF p, of "[]"] by (auto simp: nul_in_drop_step)
    then show ?thesis using hit i D unfolding unfold by (simp add: cstring_drop_step)
  next
    case miss
    then show ?thesis
      using p i "1.prems" "1.IH"(2) [OF p, of "q @ [d]"] unfolding unfold by simp
  qed
qed

lemma strtok_scan_eq:
  "0 \<in> set (drop t b) \<Longrightarrow> 0 \<in> set s2 \<Longrightarrow>
   strtok_scan b s2 t =
     Inr (let k = t + length (takeWhile (\<lambda>c. c \<notin> delims s2) (cstring (drop t b)))
          in if b ! k = 0 then None else Some k)"
proof (induction b s2 t rule: strtok_scan.induct)
  case (1 b s2 t)
  have t: "t < length b" using "1.prems"(1) by (rule nul_in_drop_less)
  show ?case
  proof (cases "b ! t = 0 \<or> b ! t \<in> delims s2")
    case True
    then show ?thesis using t "1.prems"
      by (auto simp: strtok_scan.simps [of b s2 t] cstring_drop_step strtok_match_eq Let_def)
  next
    case False
    then show ?thesis
      using t "1.prems" "1.IH" [of False]
      by (simp add: strtok_scan.simps [of b s2 t] cstring_drop_step strtok_match_eq nul_in_drop_step)
  qed
qed

lemma cstring_drop: "n \<le> length (cstring s) \<Longrightarrow> cstring (drop n s) = drop n (cstring s)"
  by (induction s arbitrary: n) (auto simp: drop_Cons' split: if_splits)

lemma nul_in_drop: "0 \<in> set s \<Longrightarrow> n \<le> length (cstring s) \<Longrightarrow> 0 \<in> set (drop n s)"
  by (induction s arbitrary: n) (auto simp: drop_Cons' split: if_splits)

lemma cstring_update_nul: "n < length s \<Longrightarrow> cstring (s[n := 0]) = take n (cstring s)"
  by (induction s arbitrary: n) (auto split: nat.splits)

lemma nth_after_cstring: "0 \<in> set s \<Longrightarrow> s ! length (cstring s) = 0"
  by (induction s) auto

lemma takeWhile_length_le: "length (takeWhile P xs) \<le> length xs"
  by (induction xs) auto

lemma nth_in_cstring: "j < length (cstring s) \<Longrightarrow> s ! j \<noteq> 0"
  by (induction s arbitrary: j) (auto simp: nth_Cons' split: if_splits)

text \<open>The rest of a string after its leading characters in \<open>D\<close>.\<close>

lemma cstring_skip:
  fixes i :: nat and b :: bytes and D :: "u8 set"
  assumes nul: "0 \<in> set (drop i b)"
  defines "n \<equiv> length (takeWhile (\<lambda>c. c \<in> D) (cstring (drop i b)))"
  shows "cstring (drop (i + n) b) = dropWhile (\<lambda>c. c \<in> D) (cstring (drop i b))"
    and "0 \<in> set (drop (i + n) b)"
proof -
  have le: "n \<le> length (cstring (drop i b))" unfolding n_def by (rule takeWhile_length_le)
  have "cstring (drop (n + i) b) = drop n (cstring (drop i b))"
    using cstring_drop [OF le] by simp
  then show "cstring (drop (i + n) b) = dropWhile (\<lambda>c. c \<in> D) (cstring (drop i b))"
    by (simp add: n_def dropWhile_eq_drop add.commute)
  show "0 \<in> set (drop (i + n) b)"
    using nul_in_drop [OF nul le] by (simp add: add.commute)
qed

text \<open>
  What a call of \<open>strtok\<close> on a string returns, all at once: \<open>k\<close> is where the token starts,
  \<open>tok\<close> the token.
\<close>

lemma strtok_eq:
  fixes i :: nat and b s2 :: bytes
  defines "str \<equiv> cstring (drop i b)"
  defines "k \<equiv> i + length (takeWhile (\<lambda>c. c \<in> delims s2) str)"
  defines "tok \<equiv> takeWhile (\<lambda>c. c \<notin> delims s2) (dropWhile (\<lambda>c. c \<in> delims s2) str)"
  assumes nul: "0 \<in> set (drop i b)" "0 \<in> set s2"
    and s1: "s1 = Some i \<or> s1 = None \<and> tt = Some i"
  shows "strtok b s1 s2 tt =
    Inr (if tok = [] then (None, b, None)
         else if b ! (k + length tok) = 0 then (Some k, b, None)
         else (Some k, b[k + length tok := 0], Some (k + length tok + 1)))"
proof -
  let ?D = "delims s2"
  have skip: "strtok_skip b s2 i s2 = Inr k"
    using strtok_skip_eq [OF nul(1), of s2 "[]" s2] nul(2) by (simp add: k_def str_def)
  have rest: "cstring (drop k b) = dropWhile (\<lambda>c. c \<in> ?D) str" and nulk: "0 \<in> set (drop k b)"
    unfolding k_def str_def using cstring_skip [OF nul(1)] by auto
  have k: "k < length b" using nulk by (rule nul_in_drop_less)
  have tok_Nil: "tok = [] \<longleftrightarrow> b ! k = 0"
  proof (cases "dropWhile (\<lambda>c. c \<in> ?D) str")
    case Nil
    with rest have "cstring (drop k b) = []" by (rule trans)
    then have "b ! k = 0" using k by (simp add: cstring_drop_step split: if_splits)
    then show ?thesis unfolding tok_def Nil by simp
  next
    case (Cons x xs)
    then have "x \<notin> ?D" by (metis dropWhile_eq_Cons_conv)
    then show ?thesis using Cons rest k by (auto simp: tok_def cstring_drop_step split: if_splits)
  qed
  have scan: "strtok_scan b s2 k = Inr (if b ! (k + length tok) = 0 then None else Some (k + length tok))"
    using strtok_scan_eq [OF nulk nul(2)] by (simp add: rest tok_def Let_def)
  have start: "(case s1 of Some i \<Rightarrow> Some i | None \<Rightarrow> tt) = Some i"
    using s1 by auto
  show ?thesis
    using k tok_Nil by (simp add: strtok_def start skip scan)
qed

text \<open>The token read back through the returned pointer.\<close>

lemma strtok_token_text:
  fixes i :: nat and b s2 :: bytes
  defines "str \<equiv> cstring (drop i b)"
  defines "k \<equiv> i + length (takeWhile (\<lambda>c. c \<in> delims s2) str)"
  defines "tok \<equiv> takeWhile (\<lambda>c. c \<notin> delims s2) (dropWhile (\<lambda>c. c \<in> delims s2) str)"
  assumes nul: "0 \<in> set (drop i b)"
  shows "cstring (drop k (b[k + length tok := 0])) = tok" and "k + length tok < length b"
    and "b ! (k + length tok) = 0 \<Longrightarrow> cstring (drop k b) = tok"
proof -
  have rest: "cstring (drop k b) = dropWhile (\<lambda>c. c \<in> delims s2) str" and nulk: "0 \<in> set (drop k b)"
    unfolding k_def str_def using cstring_skip [OF nul] by auto
  have tl: "length tok \<le> length (cstring (drop k b))"
    unfolding rest tok_def by (rule takeWhile_length_le)
  then have "length tok < length (drop k b)"
    using cstring_length_less [OF nulk] by simp
  then show lt: "k + length tok < length b" by simp
  have tk: "take (length tok) (cstring (drop k b)) = tok"
    unfolding rest tok_def by (metis takeWhile_eq_take takeWhile_idem)
  show "cstring (drop k (b[k + length tok := 0])) = tok"
    using lt tk by (simp add: drop_update_swap cstring_update_nul)
  assume "b ! (k + length tok) = 0"
  then have "drop k b ! length tok = 0" using lt by (simp add: add.commute)
  then have "length tok = length (cstring (drop k b))"
    using tl nth_in_cstring [of "length tok" "drop k b"] by linarith
  then show "cstring (drop k b) = tok" using tk by simp
qed

section \<open>Properties\<close>

text \<open>
  C27. \<open>strtok(s1, s2)\<close> on a terminated string returns a pointer to the first maximal run of
  characters outside \<open>s2\<close>, terminated in place, keeps the size of the array, and leaves the
  static pointer at the text after that run (or \<open>NULL\<close> when nothing follows); when there is no
  such run it returns \<open>NULL\<close> and changes nothing. Continuing with \<open>NULL\<close> works from the
  static pointer in the same way.
\<close>

theorem strtok_first_token:
  assumes "0 \<in> set (drop i b)" "0 \<in> set s2" "s1 = Some i \<or> s1 = None \<and> tt = Some i"
  shows "let str = dropWhile (\<lambda>c. c \<in> delims s2) (cstring (drop i b));
             tok = takeWhile (\<lambda>c. c \<notin> delims s2) str
         in if tok = [] then strtok b s1 s2 tt = Inr (None, b, None)
            else \<exists>k b' tt'. strtok b s1 s2 tt = Inr (Some k, b', tt') \<and> cstring (drop k b') = tok \<and>
              length b' = length b \<and>
              (case tt' of None \<Rightarrow> str = tok | Some j \<Rightarrow> cstring (drop j b') = drop (length tok + 1) str)"
proof -
  let ?D = "delims s2"
  let ?s = "cstring (drop i b)"
  let ?str = "dropWhile (\<lambda>c. c \<in> ?D) ?s" and ?k = "i + length (takeWhile (\<lambda>c. c \<in> ?D) ?s)"
  let ?tok = "takeWhile (\<lambda>c. c \<notin> ?D) ?str"
  let ?e = "?k + length ?tok"
  have text_k: "cstring (drop ?k b) = ?str" "0 \<in> set (drop ?k b)"
    using cstring_skip [OF assms(1), of ?D] by auto
  have len: "length ?tok \<le> length ?str" by (rule takeWhile_length_le)
  have e: "cstring (drop ?e b) = drop (length ?tok) ?str" "0 \<in> set (drop ?e b)"
    using cstring_drop [of "length ?tok" "drop ?k b"] nul_in_drop [of "drop ?k b" "length ?tok"] text_k len
    by (simp_all add: add.commute)
  have step: "cstring (drop ?e b) = (if b ! ?e = 0 then [] else b ! ?e # cstring (drop (?e + 1) b))"
    by (rule cstring_drop_step [OF nul_in_drop_less [OF e(2)]])
  show ?thesis
  proof (cases "b ! ?e = 0")
    case True
    then have "?str = ?tok"
      using step e(1) len by (metis append_Nil2 append_take_drop_id takeWhile_eq_take)
    then show ?thesis
      using True strtok_eq [OF assms] strtok_token_text(3) [of i b s2, OF assms(1)] by (auto simp: Let_def)
  next
    case False
    then have "drop (length ?tok) ?str = b ! ?e # cstring (drop (?e + 1) b)"
      using step e(1) by simp
    then have "cstring (drop (?e + 1) b) = drop (length ?tok + 1) ?str"
      by (metis Suc_eq_plus1 drop_Suc list.sel(3) tl_drop)
    then show ?thesis
      using False strtok_eq [OF assms] strtok_token_text(1) [of i b s2, OF assms(1)] by (auto simp: Let_def)
  qed
qed

theorem strtok_first_token_witness:
  "let b = c_str ''  ab c''; s2 = c_str '' ''
   in strtok b (Some 0) s2 None = Inr (Some 2, b[4 := 0], Some 5) \<and>
      cstring (drop 2 (b[4 := 0])) = map of_char ''ab'' \<and> cstring (drop 5 (b[4 := 0])) = map of_char ''c''"
proof -
  let ?b = "c_str ''  ab c''" and ?s2 = "c_str '' ''"
  let ?str = "dropWhile (\<lambda>c. c \<in> delims ?s2) (cstring (drop 0 ?b))"
  have t: "takeWhile (\<lambda>c. c \<notin> delims ?s2) ?str = map of_char ''ab''" and str: "?str = map of_char ''ab c''"
    by code_simp+
  have r: "strtok ?b (Some 0) ?s2 None = Inr (Some 2, ?b[4 := 0], Some 5)" by code_simp
  have "0 \<in> set (drop 0 ?b)" "0 \<in> set ?s2" by (simp_all add: c_str_def)
  from strtok_first_token [OF this, of "Some 0" None] show ?thesis
    unfolding Let_def t r str by (auto simp: r)
qed

text \<open>
  \<open>strcmp\<close> on two terminated strings returns; the result is zero exactly when the strings
  are equal and negative exactly when the first is smaller in the lexicographic order of
  unsigned bytes.
\<close>

theorem strcmp_lexicographic:
  assumes "0 \<in> set s1" "0 \<in> set s2"
  shows "\<exists>d. strcmp s1 s2 = Inr d \<and> (d = 0 \<longleftrightarrow> cstring s1 = cstring s2) \<and>
    (d < 0 \<longleftrightarrow> (cstring s1, cstring s2) \<in> lexord {(a, b). a < b})"
proof -
  obtain d where "strcmp s1 s2 = Inr d" using strcmp_total [OF assms] by blast
  then show ?thesis using strcmp_zero_iff [OF assms] strcmp_less_iff [OF assms] by auto
qed

theorem strcmp_lexicographic_witness:
  "\<exists>d. strcmp (c_str ''ab'') (c_str ''b'') = Inr d \<and> d < 0"
proof -
  have "strcmp (c_str ''ab'') (c_str ''b'') = Inr (-1)" by code_simp
  moreover have "\<exists>d. strcmp (c_str ''ab'') (c_str ''b'') = Inr d \<and>
      (d = 0 \<longleftrightarrow> cstring (c_str ''ab'') = cstring (c_str ''b'')) \<and>
      (d < 0 \<longleftrightarrow> (cstring (c_str ''ab''), cstring (c_str ''b'')) \<in> lexord {(a, b). a < b})"
    by (rule strcmp_lexicographic) (simp_all add: c_str_def)
  ultimately show ?thesis by auto
qed

text \<open>
  \<open>strcpy\<close> writes the string with its NUL to the front of the destination and leaves the
  rest alone when the destination has room, and runs past the destination otherwise.
\<close>

theorem strcpy_copies:
  assumes "0 \<in> set src"
  shows "strcpy dest src =
    (if length (cstring src) < length dest
     then Inr (cstring src @ 0 # drop (Suc (length (cstring src))) dest) else Inl Out_Of_Bounds)"
  using strcpy_eq [OF assms] strcpy_fault [of dest src] by auto

theorem strcpy_copies_witness:
  "strcpy (c_str ''hello'') (c_str ''hi'') = Inr (map of_char ''hi'' @ [0] @ drop 3 (c_str ''hello''))"
  using strcpy_copies [of "c_str ''hi''" "c_str ''hello''"] by (simp add: c_str_def)

end
