(* ===== verification/Port_IO.thy ===== *)
theory Port_IO
  imports C_Strings
begin

text \<open>
  The hardware interface of the kernel: \<open>include/mpx/io.h\<close> (\<open>outb\<close>, \<open>inb\<close>),
  \<open>include/mpx/interrupts.h\<close> (\<open>cli\<close>, \<open>sti\<close>), the operation codes of \<open>include/sys_req.h\<close>
  and the device numbers of \<open>include/mpx/device.h\<close>.

  The devices are the environment: \<open>env p k\<close> is the byte the device on port \<open>p\<close> answers when
  the \<open>k\<close>-th \<open>inb\<close> of the run reads it, an arbitrary function. Everything the kernel does to
  the outside (port reads and writes, interrupt flag changes, the requests a function makes
  through \<open>sys_req\<close>) is appended to \<open>trace\<close>, in order.
\<close>

section \<open>Operation codes and devices\<close>

datatype op_code = EXIT | IDLE | READ | WRITE

text \<open>The value of an enumerator in a register.\<close>

fun op_num :: "op_code \<Rightarrow> int" where
  "op_num EXIT = 0"
| "op_num IDLE = 1"
| "op_num READ = 2"
| "op_num WRITE = 3"

type_synonym device = u32

definition COM1 :: device where "COM1 = 0x3f8"
definition COM2 :: device where "COM2 = 0x2f8"
definition COM3 :: device where "COM3 = 0x3e8"
definition COM4 :: device where "COM4 = 0x2e8"

section \<open>Ports\<close>

datatype event =
    Out u16 u8                       \<comment> \<open>\<open>outb(port, data)\<close>\<close>
  | In u16 u8                        \<comment> \<open>\<open>inb(port)\<close> and the byte it returned\<close>
  | Io_Wait                          \<comment> \<open>\<open>io_wait()\<close>: a write to the unused port 0x80\<close>
  | Cli
  | Sti
  | Request op_code device bytes     \<comment> \<open>\<open>sys_req\<close> and the bytes of its buffer\<close>

record machine =
  env :: "u16 \<Rightarrow> nat \<Rightarrow> u8"
  reads :: nat
  trace :: "event list"

definition emit :: "event \<Rightarrow> 'a machine_scheme \<Rightarrow> 'a machine_scheme" where
  "emit e s = s\<lparr>trace := trace s @ [e]\<rparr>"

definition outb :: "u32 \<Rightarrow> u8 \<Rightarrow> 'a machine_scheme \<Rightarrow> 'a machine_scheme" where
  "outb port data s = emit (Out (ucast port) data) s"

definition inb :: "u32 \<Rightarrow> 'a machine_scheme \<Rightarrow> u8 \<times> 'a machine_scheme" where
  "inb port s =
     (let r = env s (ucast port) (reads s)
      in (r, emit (In (ucast port) r) (s\<lparr>reads := reads s + 1\<rparr>)))"

definition cli :: "'a machine_scheme \<Rightarrow> 'a machine_scheme" where
  "cli s = emit Cli s"

definition sti :: "'a machine_scheme \<Rightarrow> 'a machine_scheme" where
  "sti s = emit Sti s"

text \<open>
  \<open>sys_req(WRITE, dev, buf, len)\<close> as a function of the kernel or of a process issues it: the
  request reads \<open>len\<close> bytes of the buffer.
\<close>

definition write_req :: "device \<Rightarrow> bytes \<Rightarrow> nat \<Rightarrow> 'a machine_scheme \<Rightarrow> 'a machine_scheme" where
  "write_req dev buf len s = emit (Request WRITE dev (take len buf)) s"

definition print_lit :: "string \<Rightarrow> 'a machine_scheme \<Rightarrow> 'a machine_scheme" where
  "print_lit msg s = write_req COM1 (c_str msg) (length msg) s"
    \<comment> \<open>\<open>sys_req(WRITE, COM1, msg, strlen(msg))\<close>\<close>

definition print_lit_nul :: "string \<Rightarrow> 'a machine_scheme \<Rightarrow> 'a machine_scheme" where
  "print_lit_nul msg s = write_req COM1 (c_str msg) (length msg + 1) s"
    \<comment> \<open>\<open>sys_req(WRITE, COM1, msg, sizeof(msg))\<close>: the NUL is sent too\<close>

section \<open>Lemmas\<close>

lemma emit_simps [simp]:
  "env (emit e s) = env s" "reads (emit e s) = reads s" "trace (emit e s) = trace s @ [e]"
  "machine.more (emit e s) = machine.more s"
  by (simp_all add: emit_def)

lemma outb_simps [simp]:
  "env (outb p d s) = env s" "reads (outb p d s) = reads s"
  "trace (outb p d s) = trace s @ [Out (ucast p) d]" "machine.more (outb p d s) = machine.more s"
  by (simp_all add: outb_def)

lemma inb_simps [simp]:
  "fst (inb p s) = env s (ucast p) (reads s)"
  "env (snd (inb p s)) = env s" "reads (snd (inb p s)) = reads s + 1"
  "trace (snd (inb p s)) = trace s @ [In (ucast p) (env s (ucast p) (reads s))]"
  "machine.more (snd (inb p s)) = machine.more s"
  by (simp_all add: inb_def Let_def)

lemma cli_sti_simps [simp]:
  "env (cli s) = env s" "reads (cli s) = reads s" "trace (cli s) = trace s @ [Cli]"
  "machine.more (cli s) = machine.more s"
  "env (sti s) = env s" "reads (sti s) = reads s" "trace (sti s) = trace s @ [Sti]"
  "machine.more (sti s) = machine.more s"
  by (simp_all add: cli_def sti_def)

lemma write_req_simps [simp]:
  "env (write_req d b n s) = env s" "reads (write_req d b n s) = reads s"
  "trace (write_req d b n s) = trace s @ [Request WRITE d (take n b)]"
  "machine.more (write_req d b n s) = machine.more s"
  by (simp_all add: write_req_def)

lemma print_simps [simp]:
  "env (print_lit m s) = env s" "reads (print_lit m s) = reads s"
  "trace (print_lit m s) = trace s @ [Request WRITE COM1 (map of_char m)]"
  "machine.more (print_lit m s) = machine.more s"
  "env (print_lit_nul m s) = env s" "reads (print_lit_nul m s) = reads s"
  "trace (print_lit_nul m s) = trace s @ [Request WRITE COM1 (c_str m)]"
  "machine.more (print_lit_nul m s) = machine.more s"
  by (simp_all add: print_lit_def print_lit_nul_def c_str_def)

end
