(* ===== verification/Serial_Port.thy ===== *)
theory Serial_Port
  imports Port_IO
begin

text \<open>
  The port level of \<open>src/kernel/serial.c\<close> (\<open>serial_devno\<close>, \<open>serial_init\<close>, \<open>serial_close\<close>,
  \<open>serial_out\<close>, \<open>serial_poll\<close>) and \<open>kpanic\<close> of \<open>src/kernel/core-c.c\<close>, which writes through
  \<open>serial_out\<close>. The state is the static array \<open>initialized\<close>.

  \<open>serial_poll\<close> busy-waits on the line status register, so its loop is a partial function:
  \<^const>\<open>None\<close> is a wait that never ends. The index \<open>bytes_read\<close> is a \<open>size_t\<close> that the
  backspace branch can take below zero, so it is a 32-bit word.
\<close>

section \<open>Model\<close>

abbreviation (input) RBR :: u32 where "RBR \<equiv> 0"
abbreviation (input) THR :: u32 where "THR \<equiv> 0"
abbreviation (input) DLL :: u32 where "DLL \<equiv> 0"
abbreviation (input) IER :: u32 where "IER \<equiv> 1"
abbreviation (input) DLM :: u32 where "DLM \<equiv> 1"
abbreviation (input) IIR :: u32 where "IIR \<equiv> 2"
abbreviation (input) FCR :: u32 where "FCR \<equiv> 2"
abbreviation (input) LCR :: u32 where "LCR \<equiv> 3"
abbreviation (input) MCR :: u32 where "MCR \<equiv> 4"
abbreviation (input) LSR :: u32 where "LSR \<equiv> 5"
abbreviation (input) MSR :: u32 where "MSR \<equiv> 6"

abbreviation (input) STATUS_REG :: u32 where "STATUS_REG \<equiv> 0x21"
abbreviation BUFFER_OVERFLOW :: int where "BUFFER_OVERFLOW \<equiv> -1"

record serial_line = machine +
  initialized :: "nat \<Rightarrow> int"

definition serial_devno :: "device \<Rightarrow> int" where
  "serial_devno dev =
     (if dev = COM1 then 0 else if dev = COM2 then 1 else if dev = COM3 then 2
      else if dev = COM4 then 3 else -1)"

definition serial_init :: "device \<Rightarrow> 'a serial_line_scheme \<Rightarrow> int \<times> 'a serial_line_scheme" where
  "serial_init dev s =
     (let dno = serial_devno dev
      in if dno = -1 then (-1, s)
         else
           let s = outb (dev + IER) 0x00 s;
               s = outb (dev + LCR) 0x80 s;
               s = outb (dev + DLL) (word_of_int (cdiv 115200 9600)) s;
               s = outb (dev + DLM) 0x00 s;
               s = outb (dev + LCR) 0x03 s;
               s = outb (dev + FCR) 0xC7 s;
               s = outb (dev + MCR) 0x0B s;
               s = snd (inb dev s);
               s = s\<lparr>initialized := (initialized s)(nat dno := 1)\<rparr>
           in (0, s))"

text \<open>\<open>serial_close\<close>: the tests of the port's status are commented out in the code.\<close>

definition serial_close :: "device \<Rightarrow> 'a serial_line_scheme \<Rightarrow> int \<times> 'a serial_line_scheme" where
  "serial_close dev s =
     (let s = cli s;
          (mask, s) = inb STATUS_REG s;
          mask = mask OR push_bit 3 1;
          s = outb STATUS_REG mask s;
          s = sti s;
          s = outb (COM1 + 1) 0x01 s;
          s = outb (COM1 + 4) 0x03 s
      in (0, s))"

fun serial_out_loop :: "device \<Rightarrow> bytes \<Rightarrow> nat \<Rightarrow> 'a serial_line_scheme \<Rightarrow> 'a serial_line_scheme checked" where
  "serial_out_loop dev buffer 0 s = Inr s"
| "serial_out_loop dev [] (Suc len) s = Inl Out_Of_Bounds"
| "serial_out_loop dev (c # buffer) (Suc len) s = serial_out_loop dev buffer len (outb dev c s)"

definition serial_out ::
  "device \<Rightarrow> bytes \<Rightarrow> nat \<Rightarrow> 'a serial_line_scheme \<Rightarrow> (int \<times> 'a serial_line_scheme) checked" where
  "serial_out dev buffer len s =
     (let dno = serial_devno dev
      in if dno = -1 \<or> initialized s (nat dno) = 0 then Inr (-1, s)
         else and_then (serial_out_loop dev buffer len s) (\<lambda>s. Inr (wrap32 (int len), s)))"

text \<open>
  \<open>kpanic\<close> never returns to its caller (the CPU halts): the value is the machine as the user
  sees it while the CPU is halted.
\<close>

definition panic_prefix :: string where
  "panic_prefix = ''Panic: ''"

definition panic_suffix :: string where
  "panic_suffix =
     [CHR 0x0D, CHR 0x0A] @ ''Press Ctrl-A, then X to quit QEMU.'' @ [CHR 0x0D, CHR 0x0A]"

definition kpanic :: "string \<Rightarrow> 'a serial_line_scheme \<Rightarrow> 'a serial_line_scheme checked" where
  "kpanic msg s =
     (let s = cli s
      in and_then (serial_out COM1 (c_str panic_prefix) (length panic_prefix) s) (\<lambda>(_, s).
         and_then (serial_out COM1 (c_str msg) (length msg) s) (\<lambda>(_, s).
         and_then (serial_out COM1 (c_str panic_suffix) (length panic_suffix) s) (\<lambda>(_, s).
         Inr s))))"

subsection \<open>serial_poll\<close>

text \<open>
  The body of the loop once the data-ready bit is set: \<open>c\<close> has been read, \<open>n\<close> is
  \<open>bytes_read\<close>. The boolean of the result says that the line is complete.
\<close>

definition poll_char ::
  "u8 \<Rightarrow> bytes \<Rightarrow> u32 \<Rightarrow> 'a serial_line_scheme \<Rightarrow> (bool \<times> bytes \<times> u32 \<times> 'a serial_line_scheme) checked" where
  "poll_char c buffer n s =
     and_then (arr_set buffer (unat n) c) (\<lambda>buffer.
       let n = n + 1;
           s = outb COM1 c s
       in and_then
            (if (c = 8 \<or> c = 127) \<and> n > 0 then
               let n = n - 1 - 1
               in and_then (arr_set buffer (unat n) 0) (\<lambda>buffer.
                    Inr (buffer, n, outb COM1 8 (outb COM1 32 (outb COM1 8 s))))
             else Inr (buffer, n, s))
            (\<lambda>(buffer, n, s).
              if c = 10 \<or> c = 13 then
                and_then (arr_set buffer (unat n) 0) (\<lambda>buffer.
                  Inr (True, buffer, n, outb COM1 10 s))
              else Inr (False, buffer, n, s)))"

partial_function (option) poll_loop ::
  "bytes \<Rightarrow> u32 \<Rightarrow> u32 \<Rightarrow> 'a serial_line_scheme \<Rightarrow> (int \<times> bytes \<times> 'a serial_line_scheme) checked option" where
  "poll_loop buffer len n s =
     (if n < len then
        let (lsr, s) = inb (COM1 + LSR) s
        in if lsr AND 1 \<noteq> 0 then
             let (c, s) = inb COM1 s
             in case poll_char c buffer n s of
                  Inl e \<Rightarrow> Some (Inl e)
                | Inr (done, buffer, n, s) \<Rightarrow>
                    if done then Some (Inr (sint n, buffer, s))
                    else if n > len then Some (Inr (BUFFER_OVERFLOW, buffer, s))
                    else poll_loop buffer len n s
           else if n > len then Some (Inr (BUFFER_OVERFLOW, buffer, s))
           else poll_loop buffer len n s
      else Some (Inr (sint n, buffer, s)))"

definition serial_poll ::
  "device \<Rightarrow> bytes \<Rightarrow> u32 \<Rightarrow> 'a serial_line_scheme \<Rightarrow> (int \<times> bytes \<times> 'a serial_line_scheme) checked option" where
  "serial_poll dev buffer len s = poll_loop buffer len 0 s"

section \<open>Lemmas\<close>

lemma serial_line_frame [simp]:
  "initialized (emit e s) = initialized s" "initialized (outb p d s) = initialized s"
  "initialized (snd (inb p s)) = initialized s" "initialized (cli s) = initialized s"
  "initialized (sti s) = initialized s" "initialized (write_req dv b n s) = initialized s"
  by (simp_all add: emit_def outb_def inb_def cli_def sti_def write_req_def Let_def)

lemma serial_devno_cases:
  "serial_devno dev = -1 \<longleftrightarrow> dev \<notin> {COM1, COM2, COM3, COM4}"
  by (simp add: serial_devno_def)

subsection \<open>serial_out and kpanic\<close>

text \<open>The bytes a list of events sends to a port.\<close>

fun sent_to :: "u16 \<Rightarrow> event list \<Rightarrow> bytes" where
  "sent_to p [] = []"
| "sent_to p (Out q d # es) = (if q = p then d # sent_to p es else sent_to p es)"
| "sent_to p (_ # es) = sent_to p es"

lemma sent_to_append [simp]: "sent_to p (xs @ ys) = sent_to p xs @ sent_to p ys"
  by (induction p xs rule: sent_to.induct) auto

lemma sent_to_outs [simp]: "sent_to p (map (Out p) bs) = bs"
  by (induction bs) auto

lemma serial_out_loop_eq:
  "n \<le> length b \<Longrightarrow>
   serial_out_loop dev b n s = Inr (s\<lparr>trace := trace s @ map (Out (ucast dev)) (take n b)\<rparr>)"
  by (induction dev b n s rule: serial_out_loop.induct) (simp_all add: outb_def emit_def)

lemma serial_out_loop_fault: "length b < n \<Longrightarrow> serial_out_loop dev b n s = Inl Out_Of_Bounds"
  by (induction dev b n s rule: serial_out_loop.induct) auto

lemma serial_out_eq:
  assumes "serial_devno dev \<noteq> -1" "initialized s (nat (serial_devno dev)) \<noteq> 0"
    "n \<le> length b" "int n \<le> INT_MAX"
  shows "serial_out dev b n s =
    Inr (int n, s\<lparr>trace := trace s @ map (Out (ucast dev)) (take n b)\<rparr>)"
  using assms by (simp add: serial_out_def serial_out_loop_eq Let_def)

lemma kpanic_eq:
  assumes "initialized s 0 \<noteq> 0" "int (length msg) \<le> INT_MAX"
  shows "kpanic msg s =
    Inr (s\<lparr>trace := trace s @ Cli # map (Out 0x3f8) (map of_char (panic_prefix @ msg @ panic_suffix))\<rparr>)"
  using assms
  by (simp add: kpanic_def serial_out_eq serial_devno_def Let_def c_str_def
      panic_prefix_def panic_suffix_def cli_def emit_def COM1_def)

subsection \<open>serial_poll\<close>

definition is_bs :: "u8 \<Rightarrow> bool" where "is_bs c \<longleftrightarrow> c = 8 \<or> c = 127"
definition is_eol :: "u8 \<Rightarrow> bool" where "is_eol c \<longleftrightarrow> c = 10 \<or> c = 13"

text \<open>What the user sees on the line after typing: backspace takes the last character back.\<close>

fun edit :: "bytes \<Rightarrow> bytes \<Rightarrow> bytes" where
  "edit line [] = line"
| "edit line (c # cs) = edit (if is_bs c then butlast line else line @ [c]) cs"

text \<open>
  The typing stays inside the buffer: no backspace on an empty line, no end of line, and at
  every moment room for one more character and the NUL.
\<close>

fun edit_ok :: "nat \<Rightarrow> bytes \<Rightarrow> bytes \<Rightarrow> bool" where
  "edit_ok len line [] \<longleftrightarrow> length line + 1 < len"
| "edit_ok len line (c # cs) \<longleftrightarrow>
     \<not> is_eol c \<and> (is_bs c \<longrightarrow> line \<noteq> []) \<and> length line + 1 < len \<and>
     edit_ok len (if is_bs c then butlast line else line @ [c]) cs"

text \<open>The keyboard: data is ready at every poll and the bytes come one after the other.\<close>

definition feeds :: "'a machine_scheme \<Rightarrow> bytes \<Rightarrow> bool" where
  "feeds s xs \<longleftrightarrow>
     (\<forall>k. env s 0x3fd k AND 1 \<noteq> 0) \<and> (\<forall>j < length xs. env s 0x3f8 (reads s + 2 * j + 1) = xs ! j)"

lemma feeds_Cons:
  assumes "feeds s (c # cs)"
  shows "env s 0x3fd k AND 1 \<noteq> 0" and "env s 0x3f8 (Suc (reads s)) = c"
    and "env s' = env s \<Longrightarrow> reads s' = reads s + 2 \<Longrightarrow> feeds s' cs"
proof -
  have d: "env s 0x3f8 (reads s + 2 * j + 1) = (c # cs) ! j" if "j < length (c # cs)" for j
    using assms that by (auto simp: feeds_def)
  show "env s 0x3fd k AND 1 \<noteq> 0" using assms by (simp add: feeds_def)
  show "env s 0x3f8 (Suc (reads s)) = c" using d [of 0] by simp
  assume e: "env s' = env s" "reads s' = reads s + 2"
  have "env s 0x3f8 (reads s + 2 * Suc j + 1) = cs ! j" if "j < length cs" for j
    using d [of "Suc j"] that by simp
  then show "feeds s' cs" using assms e by (simp add: feeds_def)
qed

lemma poll_loop_step:
  assumes "feeds s (c # cs)" "n < len"
  shows "poll_loop buffer len n s =
    (case poll_char c buffer n (snd (inb COM1 (snd (inb (COM1 + LSR) s)))) of
       Inl e \<Rightarrow> Some (Inl e)
     | Inr (done, buffer, n, s) \<Rightarrow>
         if done then Some (Inr (sint n, buffer, s))
         else if n > len then Some (Inr (BUFFER_OVERFLOW, buffer, s))
         else poll_loop buffer len n s)"
  using feeds_Cons(1,2) [OF assms(1)] assms(2)
  by (subst poll_loop.simps) (simp add: split_beta COM1_def)

lemma unat_Suc_word: "unat (n::u32) + 1 < 2 ^ 32 \<Longrightarrow> unat (n + 1) = unat n + 1"
  by (simp add: unat_word_ariths)

lemma unat_pred_word: "0 < unat (n::u32) \<Longrightarrow> unat (n - 1) = unat n - 1"
  by (simp add: unat_minus_one word_neq_0_conv [symmetric] unat_eq_0 [symmetric])

text \<open>One character that is neither backspace nor end of line is appended and echoed.\<close>

lemma poll_char_plain:
  assumes "\<not> is_bs c" "\<not> is_eol c" "unat n < length b"
  shows "poll_char c b n s = Inr (False, b[unat n := c], n + 1, outb COM1 c s)"
  using assms by (simp add: poll_char_def is_bs_def is_eol_def)

text \<open>A backspace takes the last character back and wipes it from the screen.\<close>

lemma poll_char_bs:
  assumes "is_bs c" "0 < unat n" "unat n < length b" "unat n + 1 < 2 ^ 32"
  shows "poll_char c b n s =
    Inr (False, b[unat n := c, unat n - 1 := 0], n - 1,
         outb COM1 8 (outb COM1 32 (outb COM1 8 (outb COM1 c s))))"
proof -
  have n: "n + 1 > 0" using unat_Suc_word [OF assms(4)] by (simp add: word_less_nat_alt)
  show ?thesis using assms n unat_pred_word [OF assms(2)] by (auto simp: poll_char_def is_bs_def Let_def)
qed

lemma poll_char_eol:
  assumes "is_eol c" "unat n + 1 < length b" "unat n + 1 < 2 ^ 32"
  shows "poll_char c b n s = Inr (True, b[unat n := c, unat n + 1 := 0], n + 1, outb COM1 10 (outb COM1 c s))"
  using assms unat_Suc_word [OF assms(3)] by (auto simp: poll_char_def is_eol_def Let_def)

lemma sint_small: "unat (n::u32) < 2 ^ 31 \<Longrightarrow> sint n = int (unat n)"
proof -
  assume "unat n < 2 ^ 31"
  then have "int (unat n) < 2 ^ 31" by (metis of_nat_less_iff of_nat_numeral of_nat_power)
  then have "uint n < 2 ^ 31" by simp
  moreover have "- (2 ^ 31) \<le> uint n" by (rule order_trans [OF _ uint_ge_0]) simp
  ultimately show ?thesis by (simp add: sint_uint signed_take_bit_int_eq_self)
qed

lemma poll_loop_line:
  assumes "edit_ok (unat len) line xs" "is_eol e" "unat len \<le> length b" "unat len < 2 ^ 31"
    and "feeds s (xs @ [e])" "unat n = length line" "take (length line) b = line"
  shows "\<exists>b' s'. poll_loop b len n s = Some (Inr (int (length (edit line xs)) + 1, b', s')) \<and>
    length b' = length b \<and> take (length (edit line xs) + 2) b' = edit line xs @ [e, 0]"
  using assms
proof (induction xs arbitrary: line b n s)
  case Nil
  let ?s = "snd (inb COM1 (snd (inb (COM1 + LSR) s)))"
  have n: "unat n + 1 < length b" "n < len" "unat n + 1 < 2 ^ 31"
    using Nil by (auto simp: word_less_nat_alt)
  have f: "feeds s (e # [])" using Nil.prems(5) by simp
  have "poll_loop b len n s =
      Some (Inr (sint (n + 1), b[unat n := e, unat n + 1 := 0], outb COM1 10 (outb COM1 e ?s)))"
    using poll_loop_step [OF f n(2)] poll_char_eol [OF Nil.prems(2) n(1), of ?s] n(3) by simp
  moreover have "sint (n + 1) = int (length line) + 1"
    using n(3) Nil.prems(6) unat_Suc_word [of n] sint_small [of "n + 1"] by simp
  moreover have "take (length line + 2) (b[unat n := e, unat n + 1 := 0]) = line @ [e, 0]"
    using n(1) Nil.prems(6,7) by (simp add: take_Suc_conv_app_nth take_update_swap numeral_2_eq_2 list_update_append)
  ultimately show ?case by simp
next
  case (Cons c xs)
  let ?s = "snd (inb COM1 (snd (inb (COM1 + LSR) s)))"
  have ok: "\<not> is_eol c" "is_bs c \<longrightarrow> line \<noteq> []" "length line + 1 < unat len"
    "edit_ok (unat len) (if is_bs c then butlast line else line @ [c]) xs"
    using Cons.prems(1) by auto
  have f: "feeds s (c # (xs @ [e]))" using Cons.prems(5) by simp
  have n: "n < len" "unat n < length b" "unat n + 1 < 2 ^ 32"
    using ok(3) Cons.prems by (auto simp: word_less_nat_alt)
  show ?case
  proof (cases "is_bs c")
    case False
    let ?b = "b[unat n := c]" and ?t = "outb COM1 c ?s"
    have u: "unat (n + 1) = length (line @ [c])" using unat_Suc_word [OF n(3)] Cons.prems(6) by simp
    then have "\<not> n + 1 > len" using ok(3) by (simp add: word_less_nat_alt)
    then have step: "poll_loop b len n s = poll_loop ?b len (n + 1) ?t"
      using poll_loop_step [OF f n(1)] poll_char_plain [OF False ok(1) n(2), of ?s] by simp
    have "take (length (line @ [c])) ?b = line @ [c]"
      using n(2) Cons.prems(6,7) by (simp add: take_Suc_conv_app_nth)
    moreover have "feeds ?t (xs @ [e])" using feeds_Cons(3) [OF f, of ?t] by simp
    ultimately show ?thesis
      using False Cons.IH [of "line @ [c]" ?b ?t "n + 1"] ok(4) u Cons.prems(2-4) unfolding step by simp
  next
    case True
    let ?b = "b[unat n := c, unat n - 1 := 0]"
      and ?t = "outb COM1 8 (outb COM1 32 (outb COM1 8 (outb COM1 c ?s)))"
    have pos: "0 < unat n" using True ok(2) Cons.prems(6) by auto
    then have u: "unat (n - 1) = length (butlast line)"
      using Cons.prems(6) unat_pred_word [OF pos] by simp
    then have "\<not> n - 1 > len" using ok(3) by (simp add: word_less_nat_alt)
    then have step: "poll_loop b len n s = poll_loop ?b len (n - 1) ?t"
      using poll_loop_step [OF f n(1)] poll_char_bs [OF True pos n(2,3), of ?s] by simp
    have "take (length (butlast line)) ?b = butlast line"
    proof -
      have "take (length line - 1) (take (length line) b) = take (length line - 1) line"
        using Cons.prems(7) by (rule arg_cong)
      then show ?thesis using Cons.prems(6) pos by (cases line) (simp_all add: butlast_conv_take min_def)
    qed
    moreover have "feeds ?t (xs @ [e])" using feeds_Cons(3) [OF f, of ?t] by simp
    ultimately show ?thesis
      using True Cons.IH [of "butlast line" ?b ?t "n - 1"] ok(4) u Cons.prems(2-4) unfolding step by simp
  qed
qed

text \<open>Polling for one byte into a cleared buffer: one byte is stored, or the loop faults or never ends.\<close>

lemma poll_char_one:
  "\<exists>t. poll_char c (d # replicate 19 0) 0 s =
     (if c = 8 \<or> c = 127 then Inl Out_Of_Bounds else Inr (c = 10 \<or> c = 13, c # replicate 19 0, 1, t))"
proof -
  have r: "replicate 19 (0 :: u8) = 0 # replicate 18 0" by (simp add: numeral_eq_Suc)
  have m: "unat (- 1 :: u32) = 4294967295" by (simp add: unsigned_minus_1_eq_mask mask_eq_exp_minus_1)
  show ?thesis unfolding r by (auto simp: poll_char_def arr_set_def Let_def m)
qed

lemma poll_one:
  assumes "poll_loop b len n s = Some r"
  shows "len = 1 \<and> (n = 0 \<or> n = 1) \<and> (\<exists>c. b = c # replicate 19 0) \<longrightarrow>
    (\<forall>v b' t. r = Inr (v, b', t) \<longrightarrow> (\<exists>c. b' = c # replicate 19 0))"
  using assms
proof (rule poll_loop.raw_induct [rotated])
  fix f :: "bytes \<Rightarrow> u32 \<Rightarrow> u32 \<Rightarrow> 'a serial_line_scheme \<Rightarrow> (int \<times> bytes \<times> 'a serial_line_scheme) checked option"
    and b len n s r
  let ?P = "\<lambda>b (len :: u32) n (r :: (int \<times> bytes \<times> 'a serial_line_scheme) checked).
    len = 1 \<and> (n = 0 \<or> n = 1) \<and> (\<exists>c. b = c # replicate 19 0) \<longrightarrow>
    (\<forall>v b' t. r = Inr (v, b', t) \<longrightarrow> (\<exists>c. b' = c # replicate 19 0))"
  assume IH: "\<And>b len n s r. f b len n s = Some r \<Longrightarrow> ?P b len n r"
    and eq: "(if n < len then
        let (lsr, s) = inb (COM1 + LSR) s
        in if lsr AND 1 \<noteq> 0 then
             let (c, s) = inb COM1 s
             in case poll_char c b n s of
                  Inl e \<Rightarrow> Some (Inl e)
                | Inr (done, b, n, s) \<Rightarrow>
                    if done then Some (Inr (sint n, b, s))
                    else if n > len then Some (Inr (BUFFER_OVERFLOW, b, s))
                    else f b len n s
           else if n > len then Some (Inr (BUFFER_OVERFLOW, b, s))
           else f b len n s
      else Some (Inr (sint n, b, s))) = Some r"
  show "?P b len n r"
  proof (intro impI allI)
    fix v b' t
    assume p: "len = 1 \<and> (n = 0 \<or> n = 1) \<and> (\<exists>c. b = c # replicate 19 0)" and r: "r = Inr (v, b', t)"
    show "\<exists>c. b' = c # replicate 19 0"
    proof (cases "n = 0")
      case True
      then obtain d where b: "b = d # replicate 19 0" "len = 1" using p by blast
      let ?s1 = "snd (inb (COM1 + LSR) s)" let ?c = "fst (inb COM1 ?s1)" let ?s2 = "snd (inb COM1 ?s1)"
      obtain u where u: "poll_char ?c (d # replicate 19 0) 0 ?s2 =
        (if ?c = 8 \<or> ?c = 127 then Inl Out_Of_Bounds else Inr (?c = 10 \<or> ?c = 13, ?c # replicate 19 0, 1, u))"
        using poll_char_one [of ?c d ?s2] by blast
      have IH': "f (?c # replicate 19 0) 1 1 u = Some r \<Longrightarrow> ?thesis" "f b 1 0 ?s1 = Some r \<Longrightarrow> ?thesis"
        using IH [of "?c # replicate 19 0" 1 1 u r] IH [of b 1 0 ?s1 r] r b by blast+
      have round: "(if fst (inb (COM1 + LSR) s) AND 1 \<noteq> 0
          then case poll_char ?c b 0 ?s2 of Inl e \<Rightarrow> Some (Inl e)
            | Inr (done, b, n, s) \<Rightarrow> if done then Some (Inr (sint n, b, s))
                else if n > 1 then Some (Inr (BUFFER_OVERFLOW, b, s)) else f b 1 n s
          else f b 1 0 ?s1) = Some r" using eq [unfolded True b(2)] by (simp add: Let_def split_beta del: inb_simps split del: if_split cong del: if_weak_cong)
      then show ?thesis
      proof (cases "fst (inb (COM1 + LSR) s) AND 1 = 0")
        case False
        then have eq: "(case poll_char ?c b 0 ?s2 of Inl e \<Rightarrow> Some (Inl e)
            | Inr (done, b, n, s) \<Rightarrow> if done then Some (Inr (sint n, b, s))
                else if n > 1 then Some (Inr (BUFFER_OVERFLOW, b, s)) else f b 1 n s) = Some r"
          using round by (simp only: if_True not_False_eq_True)
        consider "?c = 8 \<or> ?c = 127" | "\<not> (?c = 8 \<or> ?c = 127)" "?c = 10 \<or> ?c = 13"
          | "\<not> (?c = 8 \<or> ?c = 127)" "\<not> (?c = 10 \<or> ?c = 13)" by blast
        then show ?thesis
        proof cases
          case 1
          then have "Some (Inl Out_Of_Bounds) = Some r" using eq unfolding b(1) u by (simp only: if_True sum.case)
          then show ?thesis using r by simp
        next
          case 2
          then have "Some (Inr (sint (1 :: u32), ?c # replicate 19 0, u)) = Some r"
            using eq unfolding b(1) u by (simp only: if_False if_True sum.case prod.case)
          then have "b' = ?c # replicate 19 0" using r by simp
          then show ?thesis by blast
        next
          case 3
          then have "f (?c # replicate 19 0) 1 1 u = Some r"
            using eq unfolding b(1) u by (simp only: if_False if_True sum.case prod.case less_irrefl)
          then show ?thesis by (rule IH')
        qed
      qed (use round IH'(2) in simp)
    next
      case False
      then show ?thesis using p eq r by auto
    qed
  qed
qed

section \<open>Properties\<close>

text \<open>
  C25. \<open>serial_poll\<close> returns the line the user has edited: when the keys \<open>xs\<close> (ordinary
  characters and backspaces that stay inside the line and the buffer) are typed and then
  return, the call ends, its result is the number of characters left on the line plus one for
  the return, and the buffer starts with that line, the return and a NUL.
\<close>

theorem serial_poll_edits_line:
  assumes "edit_ok (unat len) [] xs" "is_eol e" "unat len \<le> length b" "unat len < 2 ^ 31"
    and "feeds s (xs @ [e])"
  shows "\<exists>b' s'. serial_poll dev b len s = Some (Inr (int (length (edit [] xs)) + 1, b', s')) \<and>
    length b' = length b \<and> take (length (edit [] xs) + 2) b' = edit [] xs @ [e, 0]"
  using poll_loop_line [OF assms, of 0] by (simp add: serial_poll_def)

definition typing :: "bytes \<Rightarrow> serial_line" where
  "typing xs = \<lparr>env = (\<lambda>p k. if p = 0x3f8 then (xs @ replicate 1 0) ! min (length xs) (k div 2) else 1),
     reads = 0, trace = [], initialized = (\<lambda>_. 1)\<rparr>"

lemma typing_feeds: "feeds (typing xs) xs"
  by (auto simp: feeds_def typing_def nth_append)

theorem serial_poll_edits_line_witness:
  "\<exists>b' s'. serial_poll COM1 (replicate 8 0) 8 (typing [104, 105, 106, 127, 13]) = Some (Inr (3, b', s')) \<and>
     length b' = 8 \<and> take 4 b' = [104, 105, 13, 0]"
proof -
  have four: "Suc (Suc (Suc (Suc 0))) = 4" by simp
  have "edit [] [104, 105, 106, 127] = [104, 105]" by (simp add: is_bs_def)
  then show ?thesis
    using serial_poll_edits_line [of 8 "[104, 105, 106, 127]" 13 "replicate 8 0" "typing [104, 105, 106, 127, 13]" COM1]
      typing_feeds [of "[104, 105, 106, 127, 13]"]
    by (simp add: is_bs_def is_eol_def four)
qed

text \<open>
  A backspace as the first key makes \<open>bytes_read\<close> wrap below zero and \<open>serial_poll\<close> writes
  outside its buffer, whatever the buffer.
\<close>

theorem serial_poll_backspace_underflow:
  fixes s :: "'a serial_line_scheme"
  assumes "is_bs c" "0 < len" "0 < length b" "length b < 2 ^ 32" "feeds s [c]"
  shows "serial_poll dev b len s = Some (Inl Out_Of_Bounds)"
proof -
  have m: "unat (- 1 :: u32) = 2 ^ 32 - 1" by (simp add: unsigned_minus_1_eq_mask mask_eq_exp_minus_1)
  have "poll_char c b 0 s' = Inl Out_Of_Bounds" for s' :: "'a serial_line_scheme"
    using assms(1,3,4) m by (auto simp: poll_char_def is_bs_def Let_def)
  then show ?thesis
    using poll_loop_step [OF assms(5), of 0 len b] assms(2) by (simp add: serial_poll_def)
qed

theorem serial_poll_backspace_underflow_witness:
  "serial_poll COM1 (replicate 8 0) 8 (typing [127]) = Some (Inl Out_Of_Bounds)"
  using serial_poll_backspace_underflow [of 127 8 "replicate 8 0" "typing [127]" COM1] typing_feeds [of "[127]"]
  by (simp add: is_bs_def)

text \<open>
  Once COM1 is initialised, \<open>kpanic\<close> disables interrupts first and then sends exactly the
  prefix, the message and the instructions, in this order, to COM1 and nothing else.
\<close>

theorem kpanic_reports:
  assumes "initialized s 0 \<noteq> 0" "int (length msg) \<le> INT_MAX"
  shows "\<exists>s'. kpanic msg s = Inr s' \<and>
    trace s' = trace s @ Cli # map (Out 0x3f8) (map of_char (''Panic: '' @ msg @ panic_suffix)) \<and>
    initialized s' = initialized s"
  using kpanic_eq [OF assms] by (simp add: panic_prefix_def)

theorem kpanic_reports_witness:
  "\<exists>s'. kpanic ''Debug'' (typing []) = Inr s' \<and>
    sent_to 0x3f8 (trace s') = map of_char (''Panic: Debug'' @ panic_suffix)"
proof -
  have "\<exists>s'. kpanic ''Debug'' (typing []) = Inr s' \<and>
    trace s' = trace (typing []) @ Cli # map (Out 0x3f8) (map of_char (''Panic: '' @ ''Debug'' @ panic_suffix)) \<and>
    initialized s' = initialized (typing [])"
    by (rule kpanic_reports) (simp_all add: typing_def)
  then show ?thesis by (auto simp: typing_def simp del: map_map)
qed

end
