(* ===== verification/Descriptor_Tables.thy ===== *)
theory Descriptor_Tables
  imports Serial_Port
begin

text \<open>
  The first half of \<open>src/kernel/core-c.c\<close>: the Global Descriptor Table (\<open>gdt_init\<close>), the
  Interrupt Descriptor Table (\<open>idt_set_gate\<close>, \<open>idt_init\<close>, \<open>idt_install\<close>, \<open>irq_init\<close>), the
  interrupt service routines, and the programmable interrupt controllers (\<open>pic_init\<close>).

  The address the linker gives an interrupt service routine is a parameter \<open>addr\<close> of the
  definitions that store it. The table of 256 gates is a list; a gate number outside it is
  \<^const>\<open>Out_Of_Bounds\<close>, since the code does not check it.
\<close>

section \<open>Model\<close>

record gdt_entry =
  limit_low :: u16
  gdt_base_low :: u16
  base_mid :: u8
  access :: u8
  gdt_flags :: u8
  gdt_base_high :: u8

record idt_entry =
  base_low :: u16
  sselect :: u16
  zero :: u8
  flags :: u8
  base_high :: u16

text \<open>
  \<open>gdtr\<close> and \<open>idtr\<close> are what \<open>lgdt\<close> and \<open>lidt\<close> loaded (size and table), \<open>data_segs\<close> the
  selector in \<open>ds\<close>, \<open>es\<close>, \<open>fs\<close>, \<open>gs\<close> and \<open>ss\<close>.
\<close>

record tables = serial_line +
  gdtr :: "(u16 \<times> gdt_entry list) option"
  data_segs :: "u16 list"
  idt_entries :: "idt_entry list"
  idtr_size :: "u16 option"

subsection \<open>Global Descriptor Table\<close>

definition gdt_table :: "gdt_entry list" where
  "gdt_table =
    [\<lparr>limit_low = 0x0000, gdt_base_low = 0, base_mid = 0, access = 0x00, gdt_flags = 0x00, gdt_base_high = 0\<rparr>,
     \<lparr>limit_low = 0xffff, gdt_base_low = 0, base_mid = 0, access = 0x9a, gdt_flags = 0xff, gdt_base_high = 0\<rparr>,
     \<lparr>limit_low = 0xffff, gdt_base_low = 0, base_mid = 0, access = 0x92, gdt_flags = 0xff, gdt_base_high = 0\<rparr>,
     \<lparr>limit_low = 0xffff, gdt_base_low = 0, base_mid = 0, access = 0xfa, gdt_flags = 0xff, gdt_base_high = 0\<rparr>,
     \<lparr>limit_low = 0xffff, gdt_base_low = 0, base_mid = 0, access = 0xf2, gdt_flags = 0xff, gdt_base_high = 0\<rparr>]"

definition gdt_init :: "'a tables_scheme \<Rightarrow> 'a tables_scheme" where
  "gdt_init s =
     s\<lparr>gdtr := Some (of_nat (8 * length gdt_table) - 1, gdt_table),
       data_segs := [0x10, 0x10, 0x10, 0x10, 0x10]\<rparr>"

subsection \<open>Interrupt Descriptor Table\<close>

datatype isr =
    divide_error | debug | nmi | breakpoint | overflow | bounds | invalid_op
  | device_not_available | double_fault | coprocessor_segment | invalid_tss
  | segment_not_present | stack_segment | general_protection | page_fault | reserved
  | coprocessor | rtc_isr | sys_call_isr | serial_isr

definition idt_set_gate ::
  "nat \<Rightarrow> u32 \<Rightarrow> u16 \<Rightarrow> u8 \<Rightarrow> 'a tables_scheme \<Rightarrow> 'a tables_scheme checked" where
  "idt_set_gate idx base sel flg s =
     (if idx < length (idt_entries s) then
        let new_entry =
              \<lparr>base_low = ucast (base AND 0xFFFF), sselect = sel, zero = 0, flags = flg,
               base_high = ucast (drop_bit 16 base AND 0xFFFF)\<rparr>
        in Inr (s\<lparr>idt_entries := (idt_entries s)[idx := new_entry]\<rparr>)
      else Inl Out_Of_Bounds)"

definition idt_init :: "'a tables_scheme \<Rightarrow> 'a tables_scheme" where
  "idt_init s = s\<lparr>idtr_size := Some (of_nat (8 * length (idt_entries s)) - 1)\<rparr>"

definition idt_install ::
  "int \<Rightarrow> u32 \<Rightarrow> 'a tables_scheme \<Rightarrow> 'a tables_scheme checked" where
  "idt_install vector handler s = idt_set_gate (unat (word_of_int vector :: u32)) handler 0x08 0x8e s"

definition isrs :: "isr list" where
  "isrs = [divide_error, debug, nmi, breakpoint, overflow, bounds, invalid_op,
     device_not_available, double_fault, coprocessor_segment, invalid_tss,
     segment_not_present, stack_segment, general_protection, page_fault, reserved, coprocessor]"

text \<open>The two installation loops: consecutive gates from \<open>i\<close> on.\<close>

fun set_gates :: "nat \<Rightarrow> u32 list \<Rightarrow> 'a tables_scheme \<Rightarrow> 'a tables_scheme checked" where
  "set_gates i [] s = Inr s"
| "set_gates i (fn # fns) s =
     and_then (idt_set_gate i fn 0x08 0x8e s) (set_gates (Suc i) fns)"

abbreviation (input) REQUIRED_INTERRUPTS :: nat where "REQUIRED_INTERRUPTS \<equiv> 32"

definition irq_init :: "(isr \<Rightarrow> u32) \<Rightarrow> 'a tables_scheme \<Rightarrow> 'a tables_scheme checked" where
  "irq_init addr s =
     (let nisrs = length isrs
      in and_then (set_gates 0 (map addr isrs) s) (\<lambda>s.
         and_then (set_gates nisrs (replicate (REQUIRED_INTERRUPTS - nisrs) (addr reserved)) s) (\<lambda>s.
         and_then (idt_set_gate 0x08 (addr rtc_isr) 0x08 0x8e s) (\<lambda>s.
         idt_set_gate 0x60 (addr sys_call_isr) 0x08 0x8e s))))"

subsection \<open>Interrupt service routines of core-c.c\<close>

text \<open>
  The message a \<open>simple_isr\<close> panics with. \<^const>\<open>rtc_isr\<close> is the routine below, \<^const>\<open>sys_call_isr\<close>
  and \<^const>\<open>serial_isr\<close> are assembly.
\<close>

fun isr_msg :: "isr \<Rightarrow> string option" where
  "isr_msg divide_error = Some ''Division by zero''"
| "isr_msg debug = Some ''Debug''"
| "isr_msg nmi = Some ''Non-maskable Interrupt''"
| "isr_msg breakpoint = Some ''Breakpoint''"
| "isr_msg overflow = Some ''Overflow''"
| "isr_msg bounds = Some ''Bounds error''"
| "isr_msg invalid_op = Some ''Invalid operation''"
| "isr_msg device_not_available = Some ''Device not available''"
| "isr_msg double_fault = Some ''Double fault''"
| "isr_msg coprocessor_segment = Some ''Coprocessor segment error''"
| "isr_msg invalid_tss = Some ''Invalid TSS''"
| "isr_msg segment_not_present = Some ''Segment not present''"
| "isr_msg stack_segment = Some ''Stack segment error''"
| "isr_msg general_protection = Some ''General protection fault''"
| "isr_msg page_fault = Some ''Page Fault''"
| "isr_msg reserved = Some ''Reserved''"
| "isr_msg coprocessor = Some ''Coprocessor error''"
| "isr_msg _ = None"

definition rtc_isr_body :: "'a tables_scheme \<Rightarrow> 'a tables_scheme" where
  "rtc_isr_body s = sti (outb 0xa0 0x20 (cli s))"

definition simple_isr :: "isr \<Rightarrow> 'a tables_scheme \<Rightarrow> 'a tables_scheme checked option" where
  "simple_isr fn s = map_option (\<lambda>msg. kpanic msg s) (isr_msg fn)"

subsection \<open>Programmable Interrupt Controllers\<close>

definition outbwait :: "u32 \<Rightarrow> u8 \<Rightarrow> 'a tables_scheme \<Rightarrow> 'a tables_scheme" where
  "outbwait x y s = emit Io_Wait (outb x y s)"

abbreviation (input) PIC1 :: u32 where "PIC1 \<equiv> 0x20"
abbreviation (input) PIC2 :: u32 where "PIC2 \<equiv> 0xA0"
abbreviation (input) ICW1 :: u8 where "ICW1 \<equiv> 0x11"
abbreviation (input) ICW4 :: u8 where "ICW4 \<equiv> 0x01"

definition pic_init :: "'a tables_scheme \<Rightarrow> 'a tables_scheme" where
  "pic_init s =
     (let s = outbwait PIC1 ICW1 s;
          s = outbwait PIC2 ICW1 s;
          s = outbwait (PIC1 + 1) 0x20 s;
          s = outbwait (PIC2 + 1) 0x28 s;
          s = outbwait (PIC1 + 1) 4 s;
          s = outbwait (PIC2 + 1) 2 s;
          s = outbwait (PIC1 + 1) ICW4 s;
          s = outbwait (PIC2 + 1) ICW4 s;
          s = outbwait (PIC1 + 1) 0xFF s;
          s = outbwait (PIC2 + 1) 0xFF s
      in s)"

section \<open>Lemmas\<close>

lemma tables_frame [simp]:
  "idt_entries (emit e s) = idt_entries s" "idt_entries (outb p d s) = idt_entries s"
  "idt_entries (snd (inb p s)) = idt_entries s"
  by (simp_all add: emit_def outb_def inb_def Let_def)

subsection \<open>What the CPU reads in a descriptor\<close>

text \<open>The segment base and limit, and the handler address of a gate, as the i386 assembles them.\<close>

definition gdt_base :: "gdt_entry \<Rightarrow> u32" where
  "gdt_base e = ucast (gdt_base_low e) OR push_bit 16 (ucast (base_mid e)) OR push_bit 24 (ucast (gdt_base_high e))"

definition gdt_limit :: "gdt_entry \<Rightarrow> nat" where
  "gdt_limit e =
     (let l = unat (limit_low e) + 65536 * unat (gdt_flags e AND 0x0f)
      in if bit (gdt_flags e) 7 then 4096 * l + 4095 else l)"

definition idt_handler :: "idt_entry \<Rightarrow> u32" where
  "idt_handler e = ucast (base_low e) OR push_bit 16 (ucast (base_high e))"

lemma split_base:
  "ucast (ucast (base AND 0xFFFF) :: u16) OR push_bit 16 (ucast (ucast (drop_bit 16 base AND 0xFFFF) :: u16))
   = (base :: u32)"
proof -
  have m: "(0xFFFF :: u32) = mask 16" by (simp add: mask_eq_decr_exp)
  show ?thesis unfolding m by (rule bit_word_eqI) (auto simp: bit_simps)
qed

lemma idt_set_gate_eq:
  assumes "idx < length (idt_entries s)"
  shows "\<exists>e. idt_set_gate idx fn sel flg s = Inr (s\<lparr>idt_entries := (idt_entries s)[idx := e]\<rparr>) \<and>
    idt_handler e = fn \<and> sselect e = sel \<and> flags e = flg \<and> zero e = 0"
proof -
  let ?e = "\<lparr>base_low = ucast (fn AND 0xFFFF), sselect = sel, zero = 0, flags = flg,
             base_high = ucast (drop_bit 16 fn AND 0xFFFF)\<rparr>"
  show ?thesis
    using assms split_base [of fn]
    by (intro exI [of _ ?e]) (simp add: idt_set_gate_def idt_handler_def Let_def)
qed

text \<open>A gate that calls \<open>fn\<close> in the kernel code segment as a present ring-0 interrupt gate.\<close>

definition calls :: "idt_entry \<Rightarrow> u32 \<Rightarrow> bool" where
  "calls e fn \<longleftrightarrow> idt_handler e = fn \<and> sselect e = 0x08 \<and> flags e = 0x8e \<and> zero e = 0"

lemma idt_set_gate_calls:
  assumes "idx < length (idt_entries s)"
  obtains e where "idt_set_gate idx fn 0x08 0x8e s = Inr (s\<lparr>idt_entries := (idt_entries s)[idx := e]\<rparr>)"
    and "calls e fn"
  using idt_set_gate_eq [OF assms, of fn "0x08" "0x8e"] by (auto simp: calls_def)

lemma set_gates_eq:
  "i + length fns \<le> length (idt_entries s) \<Longrightarrow>
   \<exists>es. length es = length fns \<and> list_all2 calls es fns \<and>
     set_gates i fns s = Inr (s\<lparr>idt_entries := take i (idt_entries s) @ es @ drop (i + length fns) (idt_entries s)\<rparr>)"
proof (induction i fns s rule: set_gates.induct)
  case (1 i s)
  then show ?case by simp
next
  case (2 i fn fns s)
  have i: "i < length (idt_entries s)" using "2.prems" by simp
  obtain e where e: "idt_set_gate i fn 0x08 0x8e s = Inr (s\<lparr>idt_entries := (idt_entries s)[i := e]\<rparr>)"
    "calls e fn" using idt_set_gate_calls [OF i] by blast
  let ?s = "s\<lparr>idt_entries := (idt_entries s)[i := e]\<rparr>"
  obtain es where es: "length es = length fns" "list_all2 calls es fns"
    "set_gates (Suc i) fns ?s = Inr (?s\<lparr>idt_entries := take (Suc i) (idt_entries ?s) @ es @
        drop (Suc i + length fns) (idt_entries ?s)\<rparr>)"
    using "2.IH" [of ?s] e(1) "2.prems" by auto
  then show ?case
    using e i by (intro exI [of _ "e # es"]) (simp add: take_Suc_conv_app_nth)
qed

text \<open>Which routine serves an interrupt after \<open>irq_init\<close>; \<^const>\<open>None\<close> for a gate it leaves alone.\<close>

definition irq_target :: "nat \<Rightarrow> isr option" where
  "irq_target i =
     (if i = 0x08 then Some rtc_isr else if i = 0x60 then Some sys_call_isr
      else if i < 17 then Some (isrs ! i) else if i < 32 then Some reserved else None)"

lemma irq_init_eq:
  assumes len: "length (idt_entries s) = 256"
  shows "\<exists>es. irq_init addr s = Inr (s\<lparr>idt_entries := es\<rparr>) \<and> length es = 256 \<and>
    (\<forall>i<256. case irq_target i of
        Some r \<Rightarrow> calls (es ! i) (addr r) | None \<Rightarrow> es ! i = idt_entries s ! i)"
proof -
  have n: "length isrs = 17" by (simp add: isrs_def)
  obtain es1 where es1: "length es1 = 17" "list_all2 calls es1 (map addr isrs)"
    "set_gates 0 (map addr isrs) s = Inr (s\<lparr>idt_entries := es1 @ drop 17 (idt_entries s)\<rparr>)"
    using set_gates_eq [of 0 "map addr isrs" s] len n by auto
  let ?s1 = "s\<lparr>idt_entries := es1 @ drop 17 (idt_entries s)\<rparr>"
  obtain es2 where es2: "length es2 = 15" "list_all2 calls es2 (replicate 15 (addr reserved))"
    "set_gates 17 (replicate 15 (addr reserved)) ?s1 =
       Inr (s\<lparr>idt_entries := es1 @ es2 @ drop 32 (idt_entries s)\<rparr>)"
    using set_gates_eq [of 17 "replicate 15 (addr reserved)" ?s1] len es1(1) by auto
  let ?s2 = "s\<lparr>idt_entries := es1 @ es2 @ drop 32 (idt_entries s)\<rparr>"
  have l2: "length (idt_entries ?s2) = 256" using len es1(1) es2(1) by simp
  have "0x08 < length (idt_entries ?s2)" using l2 by simp
  then obtain a where a: "idt_set_gate 0x08 (addr rtc_isr) 0x08 0x8e ?s2 =
      Inr (?s2\<lparr>idt_entries := (idt_entries ?s2)[0x08 := a]\<rparr>)" "calls a (addr rtc_isr)"
    by (rule idt_set_gate_calls)
  let ?s3 = "?s2\<lparr>idt_entries := (idt_entries ?s2)[0x08 := a]\<rparr>"
  have "0x60 < length (idt_entries ?s3)" using l2 by simp
  then obtain b where b: "idt_set_gate 0x60 (addr sys_call_isr) 0x08 0x8e ?s3 =
      Inr (?s3\<lparr>idt_entries := (idt_entries ?s3)[0x60 := b]\<rparr>)" "calls b (addr sys_call_isr)"
    by (rule idt_set_gate_calls)
  define es where "es = (es1 @ es2 @ drop 32 (idt_entries s))[0x08 := a, 0x60 := b]"
  have "irq_init addr s = Inr (s\<lparr>idt_entries := es\<rparr>)"
    using es1(3) es2(3) a(1) b(1) by (simp add: irq_init_def n es_def)
  moreover have "length es = 256" using l2 by (simp add: es_def)
  moreover have "case irq_target i of Some r \<Rightarrow> calls (es ! i) (addr r) | None \<Rightarrow> es ! i = idt_entries s ! i"
    if "i < 256" for i
  proof -
    have c1: "calls (es1 ! i) (addr (isrs ! i))" if "i < 17"
      using list_all2_nthD2 [OF es1(2), of i] that n by simp
    have c2: "calls (es2 ! (i - 17)) (addr reserved)" if "17 \<le> i" "i < 32"
      using list_all2_nthD2 [OF es2(2), of "i - 17"] that by simp
    have nth: "es ! i = (if i = 0x60 then b else if i = 0x08 then a else if i < 17 then es1 ! i
        else if i < 32 then es2 ! (i - 17) else idt_entries s ! i)"
      using \<open>i < 256\<close> len es1(1) es2(1) l2 by (simp add: es_def nth_list_update nth_append)
    show ?thesis unfolding nth irq_target_def using a(2) b(2) c1 c2 by auto
  qed
  ultimately show ?thesis by blast
qed

subsection \<open>What the interrupt controllers understand\<close>

text \<open>
  The Intel 8259: a write to the command port with bit 4 set starts an initialisation; the
  next data writes are the vector base, the cascade wiring and the mode; later data writes set
  the mask.
\<close>

record pic =
  pic_step :: nat
  pic_vector :: u8
  pic_mask :: u8

fun pic_command :: "u8 \<Rightarrow> pic \<Rightarrow> pic" where
  "pic_command d p = (if bit d 4 then p\<lparr>pic_step := 1\<rparr> else p)"

fun pic_data :: "u8 \<Rightarrow> pic \<Rightarrow> pic" where
  "pic_data d p =
     (if pic_step p = 0 then p\<lparr>pic_mask := d\<rparr>
      else if pic_step p = 1 then p\<lparr>pic_vector := d, pic_step := 2\<rparr>
      else if pic_step p = 2 then p\<lparr>pic_step := 3\<rparr>
      else p\<lparr>pic_step := 0\<rparr>)"

fun pic_replay :: "u16 \<Rightarrow> event list \<Rightarrow> pic \<Rightarrow> pic" where
  "pic_replay b [] p = p"
| "pic_replay b (Out q d # es) p =
     pic_replay b es (if q = b then pic_command d p else if q = b + 1 then pic_data d p else p)"
| "pic_replay b (_ # es) p = pic_replay b es p"

definition pic_events :: "event list" where
  "pic_events = concat (map (\<lambda>(p, d). [Out p d, Io_Wait])
     [(0x20, 0x11), (0xA0, 0x11), (0x21, 0x20), (0xA1, 0x28), (0x21, 4), (0xA1, 2),
      (0x21, 1), (0xA1, 1), (0x21, 0xFF), (0xA1, 0xFF)])"

lemma pic_init_eq: "pic_init s = s\<lparr>trace := trace s @ pic_events\<rparr>"
  by (simp add: pic_init_def outbwait_def outb_def emit_def pic_events_def Let_def)

section \<open>Properties\<close>

text \<open>
  After \<open>irq_init\<close> on the table of 256 gates, every gate calls the routine the kernel means
  to run in the kernel code segment as a present ring-0 interrupt gate: vectors 0 to 16 the CPU
  exception handlers, 17 to 31 \<open>reserved\<close>, 0x60 the system call; vector 8 goes to the clock
  handler and not to \<open>double_fault\<close>. The other gates keep their content.
\<close>

theorem irq_init_vectors:
  assumes "length (idt_entries s) = 256"
  shows "\<exists>es. irq_init addr s = Inr (s\<lparr>idt_entries := es\<rparr>) \<and> length es = 256 \<and>
    (\<forall>i<256. if i = 8 then calls (es ! i) (addr rtc_isr)
             else if i < 17 then calls (es ! i) (addr (isrs ! i))
             else if i < 32 then calls (es ! i) (addr reserved)
             else if i = 0x60 then calls (es ! i) (addr sys_call_isr)
             else es ! i = idt_entries s ! i)"
proof -
  obtain es where "irq_init addr s = Inr (s\<lparr>idt_entries := es\<rparr>)" "length es = 256"
    and es: "\<And>i. i < 256 \<Longrightarrow> case irq_target i of
        Some r \<Rightarrow> calls (es ! i) (addr r) | None \<Rightarrow> es ! i = idt_entries s ! i"
    using irq_init_eq [OF assms, of addr] by blast
  moreover have "if i = 8 then calls (es ! i) (addr rtc_isr)
             else if i < 17 then calls (es ! i) (addr (isrs ! i))
             else if i < 32 then calls (es ! i) (addr reserved)
             else if i = 0x60 then calls (es ! i) (addr sys_call_isr)
             else es ! i = idt_entries s ! i" if "i < 256" for i
    using es [OF that] by (auto simp: irq_target_def split: if_splits)
  ultimately show ?thesis by blast
qed

definition blank_tables :: tables where
  "blank_tables = \<lparr>env = (\<lambda>_ _. 0), reads = 0, trace = [], initialized = (\<lambda>_. 0), gdtr = None, data_segs = [],
     idt_entries = replicate 256 \<lparr>base_low = 0, sselect = 0, zero = 0, flags = 0, base_high = 0\<rparr>, idtr_size = None\<rparr>"

theorem irq_init_vectors_witness:
  "\<exists>es. irq_init (\<lambda>r. if r = page_fault then 0x104000 else 0x105000) blank_tables = Inr (blank_tables\<lparr>idt_entries := es\<rparr>) \<and>
     calls (es ! 14) 0x104000 \<and> calls (es ! 0x60) 0x105000"
proof -
  let ?addr = "\<lambda>r. if r = page_fault then 0x104000 else 0x105000 :: u32"
  have "length (idt_entries blank_tables) = 256" by (simp add: blank_tables_def)
  from irq_init_vectors [OF this, of ?addr]
  obtain es where es: "irq_init ?addr blank_tables = Inr (blank_tables\<lparr>idt_entries := es\<rparr>)"
    and g: "\<forall>i<256. if i = 8 then calls (es ! i) (?addr rtc_isr)
             else if i < 17 then calls (es ! i) (?addr (isrs ! i))
             else if i < 32 then calls (es ! i) (?addr reserved)
             else if i = 0x60 then calls (es ! i) (?addr sys_call_isr)
             else es ! i = idt_entries blank_tables ! i" by blast
  have "calls (es ! 14) 0x104000" "calls (es ! 0x60) 0x105000"
    using g [rule_format, of 14] g [rule_format, of "0x60"] by (simp_all add: isrs_def)
  then show ?thesis using es by blast
qed

text \<open>
  \<open>gdt_init\<close> loads the null descriptor and four flat segments: base 0, limit 4 GiB - 1, ring
  0 code and data, ring 3 code and data, present; and the data segment registers select the
  ring 0 data segment.
\<close>

theorem gdt_init_flat:
  "\<exists>es. gdtr (gdt_init s) = Some (39, es) \<and> length es = 5 \<and>
    (\<forall>i \<in> {1..4}. gdt_base (es ! i) = 0 \<and> gdt_limit (es ! i) = 2 ^ 32 - 1 \<and> bit (access (es ! i)) 7) \<and>
    map access es = [0, 0x9a, 0x92, 0xfa, 0xf2] \<and>
    (\<forall>sel \<in> set (data_segs (gdt_init s)). unat sel div 8 = 2)"
proof -
  have "{1..4} = {1, 2, 3, 4::nat}" by auto
  then show ?thesis
    by (intro exI [of _ gdt_table]) (simp add: gdt_init_def gdt_table_def gdt_base_def gdt_limit_def bit_numeral_rec)
qed

theorem gdt_init_flat_witness:
  "\<exists>es. gdtr (gdt_init blank_tables) = Some (39, es) \<and> gdt_base (es ! 1) = 0"
  using gdt_init_flat [of blank_tables] by auto

text \<open>
  An 8259 that sees the writes of \<open>pic_init\<close>, in any earlier state, is left operational with
  its vectors remapped (master to 0x20, slave to 0x28, clear of the CPU exceptions) and every
  line masked.
\<close>

theorem pic_init_remaps:
  "\<exists>es. trace (pic_init s) = trace s @ es \<and>
    pic_replay 0x20 es p = p\<lparr>pic_step := 0, pic_vector := 0x20, pic_mask := 0xFF\<rparr> \<and>
    pic_replay 0xA0 es q = q\<lparr>pic_step := 0, pic_vector := 0x28, pic_mask := 0xFF\<rparr>"
  by (intro exI [of _ pic_events]) (simp add: pic_init_eq pic_events_def bit_numeral_rec)

end
