(* ===== verification/Virtual_Memory.thy ===== *)
theory Virtual_Memory
  imports Descriptor_Tables
begin

text \<open>
  The second half of \<open>src/kernel/core-c.c\<close>: the frame bitmap, the page directory of the kernel
  and \<open>kmalloc\<close>, the primitive allocator everything else is built on.

  The structures live in typed stores: \<open>page_tables a\<close> is the page table at address \<open>a\<close>
  (arbitrary content until the kernel writes it, \<open>get_page\<close> does not clear a new table),
  \<open>kdir_mem\<close> the one page directory. A \<open>page_entry *\<close> is a table address and an index. The
  lemmas relate the bitmap to the set of used frames and state what \<open>kmalloc\<close> returns.
\<close>

section \<open>Model\<close>

abbreviation KHEAP_BASE :: u32 where "KHEAP_BASE \<equiv> 0xD000000"
abbreviation KHEAP_SIZE :: u32 where "KHEAP_SIZE \<equiv> 0x10000"
abbreviation (input) PAGE_SIZE :: u32 where "PAGE_SIZE \<equiv> 0x1000"
abbreviation (input) NFRAMES :: nat where "NFRAMES \<equiv> 16384"
abbreviation (input) FRAME_BIT :: nat where "FRAME_BIT \<equiv> 32"

record page_entry =
  present :: bool
  writeable :: bool
  usermode :: bool
  accessed :: bool
  dirty :: bool
  page_reserved :: "7 word"
  frameaddr :: "20 word"

record page_dir =
  dir_tables :: "nat \<Rightarrow> u32"
  tables_phys :: "nat \<Rightarrow> u32"

record vm = tables +
  frames :: "u32 list"
  kdir :: u32
  kdir_mem :: page_dir
  page_tables :: "u32 \<Rightarrow> nat \<Rightarrow> page_entry"
  phys_alloc_addr :: u32
  heap_is_initialized :: bool
  heap_addr :: u32
  cr3 :: "u32 option"

definition alloc :: "u32 \<Rightarrow> 'a vm_scheme \<Rightarrow> (u32 \<times> 'a vm_scheme) checked" where
  "alloc sz s =
     (let base = heap_addr s;
          s = s\<lparr>heap_addr := heap_addr s + sz\<rparr>
      in if heap_addr s > KHEAP_BASE + KHEAP_SIZE then Inl (Panic ''Heap is full!'')
         else Inr (base, s))"

definition page_index :: "u32 \<Rightarrow> nat" where
  "page_index addr = unat (addr div PAGE_SIZE div 1024)"

definition page_offset :: "u32 \<Rightarrow> nat" where
  "page_offset addr = unat (addr div PAGE_SIZE mod 1024)"

text \<open>\<open>get_page(addr, dir, 0)\<close>: the entry of an existing table.\<close>

definition find_page :: "u32 \<Rightarrow> 'a vm_scheme \<Rightarrow> (u32 \<times> nat) option" where
  "find_page addr s =
     (let t = dir_tables (kdir_mem s) (page_index addr)
      in if t \<noteq> NULL then Some (t, page_offset addr) else None)"

text \<open>
  \<open>kmalloc(size, page_align, phys_addr)\<close>; \<open>want_phys\<close> says that \<open>phys_addr\<close> is not \<open>NULL\<close>,
  the second component of the result is what is stored there.
\<close>

definition kmalloc :: "u32 \<Rightarrow> bool \<Rightarrow> bool \<Rightarrow> 'a vm_scheme \<Rightarrow> ((u32 \<times> u32 option) \<times> 'a vm_scheme) checked" where
  "kmalloc sz page_align want_phys s =
     (if heap_is_initialized s then
        and_then (alloc sz s) (\<lambda>(addr, s).
          if want_phys then
            case find_page addr s of
              None \<Rightarrow> Inl Null_Deref
            | Some (t, i) \<Rightarrow>
                Inr ((addr, Some (ucast (frameaddr (page_tables s t i)) * 0x1000 + (addr AND 0xFFF))), s)
          else Inr ((addr, None), s))
      else
        let s = (if page_align \<and> phys_alloc_addr s AND 0xFFFFF000 \<noteq> 0
                 then s\<lparr>phys_alloc_addr := (phys_alloc_addr s AND 0xFFFFF000) + 0x1000\<rparr> else s);
            addr = phys_alloc_addr s;
            s = s\<lparr>phys_alloc_addr := phys_alloc_addr s + sz\<rparr>
        in Inr ((addr, if want_phys then Some addr else None), s))"

definition get_page :: "u32 \<Rightarrow> bool \<Rightarrow> 'a vm_scheme \<Rightarrow> ((u32 \<times> nat) option \<times> 'a vm_scheme) checked" where
  "get_page addr make_table s =
     (case find_page addr s of
        Some p \<Rightarrow> Inr (Some p, s)
      | None \<Rightarrow>
          if make_table then
            and_then (kmalloc 4096 True True s) (\<lambda>((t, phys), s).
              let d = kdir_mem s;
                  d = d\<lparr>dir_tables := (dir_tables d)(page_index addr := t),
                        tables_phys := (tables_phys d)(page_index addr := the phys OR 0x7)\<rparr>
              in Inr (Some (t, page_offset addr), s\<lparr>kdir_mem := d\<rparr>))
          else Inr (None, s))"

subsection \<open>Frames\<close>

text \<open>The loops of \<open>find_free\<close>: over the bits of one word, over the words.\<close>

function find_bit :: "u32 \<Rightarrow> nat \<Rightarrow> nat option" where
  "find_bit w j =
     (if j < FRAME_BIT then if w AND push_bit j 1 = 0 then Some j else find_bit w (j + 1) else None)"
  by pat_completeness auto
termination
  by (relation "measure (\<lambda>(w, j). 32 - j)") auto

fun find_free_from :: "u32 list \<Rightarrow> nat \<Rightarrow> u32" where
  "find_free_from [] i = -1"
| "find_free_from (w # ws) i =
     (if w \<noteq> 0xFFFFFFFF then
        case find_bit w 0 of
          Some j \<Rightarrow> of_nat i * of_nat FRAME_BIT + of_nat j
        | None \<Rightarrow> find_free_from ws (i + 1)
      else find_free_from ws (i + 1))"

definition find_free :: "'a vm_scheme \<Rightarrow> u32" where
  "find_free s = find_free_from (frames s) 0"

definition set_bit_frame :: "u32 \<Rightarrow> 'a vm_scheme \<Rightarrow> 'a vm_scheme checked" where
  "set_bit_frame addr s =
     (let frame = unat (addr div PAGE_SIZE);
          index = frame div FRAME_BIT;
          offset = frame mod FRAME_BIT
      in if index < length (frames s)
         then Inr (s\<lparr>frames := (frames s)[index := frames s ! index OR push_bit offset 1]\<rparr>)
         else Inl Out_Of_Bounds)"

definition upd_page :: "(u32 \<times> nat) \<Rightarrow> (page_entry \<Rightarrow> page_entry) \<Rightarrow> 'a vm_scheme \<Rightarrow> 'a vm_scheme" where
  "upd_page p f s =
     s\<lparr>page_tables := (page_tables s)(fst p := (page_tables s (fst p))(snd p := f (page_tables s (fst p) (snd p))))\<rparr>"

definition new_frame :: "(u32 \<times> nat) option \<Rightarrow> 'a vm_scheme \<Rightarrow> 'a vm_scheme checked" where
  "new_frame page s =
     (case page of
        None \<Rightarrow> Inl Null_Deref
      | Some p \<Rightarrow>
          if frameaddr (page_tables s (fst p) (snd p)) \<noteq> 0 then Inr s
          else
            let index = find_free s
            in if index = -1 then Inl (Panic ''Out of memory'')
               else and_then (set_bit_frame (index * PAGE_SIZE) s) (\<lambda>s.
                 Inr (upd_page p (\<lambda>e. e\<lparr>present := True, frameaddr := ucast index, writeable := True,
                                       usermode := False\<rparr>) s)))"

subsection \<open>vm_init\<close>

text \<open>The first loop calls \<open>get_page\<close> for every address of the kernel heap (\<open>n\<close> of them).\<close>

fun touch_pages :: "nat \<Rightarrow> u32 \<Rightarrow> 'a vm_scheme \<Rightarrow> 'a vm_scheme checked" where
  "touch_pages 0 i s = Inr s"
| "touch_pages (Suc n) i s = and_then (get_page i True s) (\<lambda>(_, s). touch_pages n (i + 1) s)"

text \<open>The second loop maps frames up to the allocation pointer, which its body moves.\<close>

partial_function (option) identity_map :: "u32 \<Rightarrow> 'a vm_scheme \<Rightarrow> 'a vm_scheme checked option" where
  "identity_map i s =
     (if i < phys_alloc_addr s + 0x10000 then
        case and_then (get_page i True s) (\<lambda>(p, s). new_frame p s) of
          Inl e \<Rightarrow> Some (Inl e)
        | Inr s \<Rightarrow> identity_map (i + PAGE_SIZE) s
      else Some (Inr s))"

text \<open>The third loop gives every page of the kernel heap a frame.\<close>

fun map_heap :: "nat \<Rightarrow> u32 \<Rightarrow> 'a vm_scheme \<Rightarrow> 'a vm_scheme checked" where
  "map_heap 0 i s = Inr s"
| "map_heap (Suc n) i s =
     and_then (and_then (get_page i True s) (\<lambda>(p, s). new_frame p s)) (\<lambda>s. map_heap n (i + PAGE_SIZE) s)"

definition zero_entry :: page_entry where
  "zero_entry = \<lparr>present = False, writeable = False, usermode = False, accessed = False, dirty = False,
     page_reserved = 0, frameaddr = 0\<rparr>"

definition sizeof_page_dir :: u32 where "sizeof_page_dir = 8192"

definition vm_init :: "'a vm_scheme \<Rightarrow> 'a vm_scheme checked option" where
  "vm_init s =
     run_then (Some (kmalloc sizeof_page_dir True False s)) (\<lambda>((d, _), s).
       let s = s\<lparr>kdir := d, kdir_mem := \<lparr>dir_tables = (\<lambda>_. NULL), tables_phys = (\<lambda>_. 0)\<rparr>\<rparr>
       in run_then (Some (touch_pages (unat KHEAP_SIZE) KHEAP_BASE s)) (\<lambda>s.
          run_then (identity_map 0 s) (\<lambda>s.
          run_then (Some (map_heap (unat (KHEAP_SIZE div PAGE_SIZE)) KHEAP_BASE s)) (\<lambda>s.
            let t = dir_tables (kdir_mem s) 0
            in if t = NULL then Some (Inl Null_Deref)
               else
                 let s = upd_page (t, 0) (\<lambda>_. zero_entry) s;
                     s = s\<lparr>cr3 := Some (kdir s + 4096)\<rparr>
                 in Some (Inr (s\<lparr>heap_is_initialized := True\<rparr>))))))"

section \<open>Lemmas\<close>

subsection \<open>The frame bitmap as a set\<close>

definition frame_used :: "u32 list \<Rightarrow> nat \<Rightarrow> bool" where
  "frame_used ws f \<longleftrightarrow> bit (ws ! (f div 32)) (f mod 32)"

definition used_frames :: "'a vm_scheme \<Rightarrow> nat set" where
  "used_frames s = {f. f < 32 * length (frames s) \<and> frame_used (frames s) f}"

declare find_bit.simps [simp del]

lemma test_bit: "(w :: u32) AND push_bit j 1 = 0 \<longleftrightarrow> \<not> bit w j"
  by (simp add: bit_iff_and_push_bit_not_eq_0)

lemma find_bit_least:
  "find_bit w j = (if \<exists>k\<ge>j. k < 32 \<and> \<not> bit w k then Some (LEAST k. j \<le> k \<and> \<not> bit w k) else None)"
proof (induction w j rule: find_bit.induct)
  case (1 w j)
  show ?case
  proof (cases "j < 32 \<and> bit w j")
    case True
    then have eq: "(j \<le> k \<and> \<not> bit w k) = (j + 1 \<le> k \<and> \<not> bit w k)" for k
      by (cases "k = j") auto
    then have ex: "(\<exists>k\<ge>j. k < 32 \<and> \<not> bit w k) = (\<exists>k\<ge>j + 1. k < 32 \<and> \<not> bit w k)"
      by metis
    have "find_bit w j = find_bit w (j + 1)"
      using True test_bit [of w j] by (subst find_bit.simps) simp
    moreover have "w AND push_bit j 1 \<noteq> 0" using True test_bit [of w j] by blast
    ultimately show ?thesis using True "1.IH" unfolding ex eq by simp
  next
    case False
    show ?thesis
    proof (cases "j < 32")
      case True
      then have "(LEAST k. j \<le> k \<and> \<not> bit w k) = j"
        using False by (intro Least_equality) auto
      then show ?thesis using True False test_bit [of w j] by (subst find_bit.simps) auto
    qed (subst find_bit.simps, auto)
  qed
qed

lemma full_word_iff: "(w :: u32) = 0xFFFFFFFF \<longleftrightarrow> (\<forall>k<32. bit w k)"
proof -
  have m: "(0xFFFFFFFF :: u32) = mask 32" by (simp add: mask_eq_decr_exp)
  show ?thesis unfolding m by (auto intro!: bit_word_eqI simp: bit_simps)
qed

lemma frame_used_Cons:
  "frame_used (w # ws) f = (if f < 32 then bit w f else frame_used ws (f - 32))"
proof (cases "f < 32")
  case False
  then have "f = 32 + (f - 32)" by simp
  then have "f div 32 = Suc ((f - 32) div 32)" "f mod 32 = (f - 32) mod 32"
    by (metis div_add_self1 numeral_neq_zero plus_1_eq_Suc add.commute, metis mod_add_self1)
  with False show ?thesis by (simp add: frame_used_def)
qed (simp add: frame_used_def)

lemma find_free_from_Some:
  "\<exists>f<32 * length ws. \<not> frame_used ws f \<Longrightarrow>
   \<exists>f. find_free_from ws i = of_nat (32 * i + f) \<and> f < 32 * length ws \<and>
       \<not> frame_used ws f \<and> (\<forall>g<f. frame_used ws g)"
proof (induction ws i rule: find_free_from.induct)
  case (1 i)
  then show ?case by simp
next
  case (2 w ws i)
  show ?case
  proof (cases "w = 0xFFFFFFFF")
    case True
    then have full: "\<forall>k<32. bit w k" using full_word_iff by blast
    then have "\<exists>f<32 * length ws. \<not> frame_used ws f"
      using "2.prems" by (auto simp: frame_used_Cons split: if_splits) (metis less_diff_conv2 not_less add.commute)
    then obtain f where f: "find_free_from ws (i + 1) = of_nat (32 * (i + 1) + f)"
      "f < 32 * length ws" "\<not> frame_used ws f" "\<forall>g<f. frame_used ws g"
      using "2.IH"(2) True by blast
    then show ?thesis
      using True full by (intro exI [of _ "32 + f"]) (auto simp: frame_used_Cons)
  next
    case False
    then obtain k where k: "k < 32" "\<not> bit w k" using full_word_iff [of w] by blast
    define j where "j = (LEAST k. \<not> bit w k)"
    have j: "\<not> bit w j" "\<forall>g<j. bit w g" "j < 32"
      using k Least_le [of "\<lambda>k. \<not> bit w k" k] LeastI [of "\<lambda>k. \<not> bit w k" k]
      by (auto simp: j_def dest: not_less_Least)
    have "find_bit w 0 = Some j" using k by (auto simp: find_bit_least j_def)
    then show ?thesis
      using False j by (intro exI [of _ j]) (auto simp: frame_used_Cons)
  qed
qed

lemma find_free_from_None:
  "\<forall>f<32 * length ws. frame_used ws f \<Longrightarrow> find_free_from ws i = -1"
proof (induction ws i rule: find_free_from.induct)
  case (2 w ws i)
  then have "\<forall>k<32. bit w k" by (auto simp: frame_used_Cons dest: spec)
  then have "w = 0xFFFFFFFF" using full_word_iff by blast
  moreover have "\<forall>f<32 * length ws. frame_used ws f"
    using "2.prems" by (metis add.commute add_diff_cancel_left' frame_used_Cons length_Cons
        mult_Suc_right nat_add_left_cancel_less not_add_less1)
  ultimately show ?case using "2.IH"(2) by simp
qed simp

text \<open>The bitmap has 512 words: 16384 frames.\<close>

definition bitmap_ok :: "'a vm_scheme \<Rightarrow> bool" where
  "bitmap_ok s \<longleftrightarrow> length (frames s) = 512"

lemma find_free_least:
  assumes "bitmap_ok s" "used_frames s \<noteq> {..<NFRAMES}"
  shows "\<exists>f. find_free s = of_nat f \<and> f < NFRAMES \<and> f \<notin> used_frames s \<and> (\<forall>g<f. g \<in> used_frames s)"
proof -
  have "\<exists>f<32 * length (frames s). \<not> frame_used (frames s) f"
    using assms by (auto simp: used_frames_def bitmap_ok_def)
  from find_free_from_Some [OF this, of 0] obtain f where
    "find_free s = of_nat f" "f < 32 * length (frames s)" "\<not> frame_used (frames s) f"
    "\<forall>g<f. frame_used (frames s) g" by (auto simp: find_free_def)
  then show ?thesis using assms(1) by (intro exI [of _ f]) (auto simp: used_frames_def bitmap_ok_def)
qed

lemma find_free_full:
  assumes "bitmap_ok s" "used_frames s = {..<NFRAMES}"
  shows "find_free s = -1"
  unfolding find_free_def using assms
  by (intro find_free_from_None) (auto simp: used_frames_def bitmap_ok_def)

lemma frame_used_update:
  assumes "f < 32 * length ws" "g < 32 * length ws"
  shows "frame_used (ws[f div 32 := ws ! (f div 32) OR push_bit (f mod 32) 1]) g \<longleftrightarrow> g = f \<or> frame_used ws g"
proof -
  have "(push_bit (f mod 32) 1 :: u32) = 2 ^ (f mod 32)" by (simp add: push_bit_eq_mult)
  then have b: "bit (push_bit (f mod 32) (1 :: u32)) k \<longleftrightarrow> k = f mod 32" if "k < 32" for k
    using that by (auto simp: bit_simps)
  have "g = f \<longleftrightarrow> g div 32 = f div 32 \<and> g mod 32 = f mod 32" by (metis div_mult_mod_eq)
  then show ?thesis
    using assms b [of "g mod 32"] by (auto simp: frame_used_def nth_list_update bit_or_iff)
qed

lemma set_bit_frame_eq:
  assumes "bitmap_ok s" "f < NFRAMES"
  shows "\<exists>s'. set_bit_frame (of_nat f * PAGE_SIZE) s = Inr s' \<and> bitmap_ok s' \<and>
    used_frames s' = insert f (used_frames s) \<and> page_tables s' = page_tables s"
proof -
  have "unat (of_nat f * 0x1000 :: u32) = f * 4096"
    using assms(2) by (simp add: unat_word_ariths unat_of_nat take_bit_eq_mod)
  then have "unat (of_nat f * 0x1000 div 0x1000 :: u32) = f" by (simp add: unat_div)
  then show ?thesis
    using assms frame_used_update [of f "frames s"]
    by (auto simp: set_bit_frame_def used_frames_def bitmap_ok_def Let_def)
qed

lemma new_frame_eq:
  assumes ok: "bitmap_ok s" "used_frames s \<noteq> {..<NFRAMES}"
    and unmapped: "frameaddr (page_tables s t i) = 0"
  shows "\<exists>f s'. new_frame (Some (t, i)) s = Inr s' \<and> bitmap_ok s' \<and>
    f < NFRAMES \<and> f \<notin> used_frames s \<and> (\<forall>g<f. g \<in> used_frames s) \<and>
    used_frames s' = insert f (used_frames s) \<and>
    present (page_tables s' t i) \<and> writeable (page_tables s' t i) \<and> \<not> usermode (page_tables s' t i) \<and>
    unat (frameaddr (page_tables s' t i)) = f \<and>
    (\<forall>t' i'. (t', i') \<noteq> (t, i) \<longrightarrow> page_tables s' t' i' = page_tables s t' i')"
proof -
  obtain f where f: "find_free s = of_nat f" "f < NFRAMES" "f \<notin> used_frames s" "\<forall>g<f. g \<in> used_frames s"
    using find_free_least [OF ok] by blast
  obtain s1 where s1: "set_bit_frame (of_nat f * PAGE_SIZE) s = Inr s1" "bitmap_ok s1"
    "used_frames s1 = insert f (used_frames s)" "page_tables s1 = page_tables s"
    using set_bit_frame_eq [OF ok(1) f(2)] by blast
  have u: "unat (of_nat f :: u32) = f" using f(2) by (simp add: unat_of_nat take_bit_eq_mod)
  have "(- 1 :: u32) = 0xFFFFFFFF" by simp
  then have "unat (- 1 :: u32) = 4294967295" by (simp only:) simp
  then have ne: "(of_nat f :: u32) \<noteq> -1" using u f(2) by auto
  have fr: "unat (ucast (of_nat f :: u32) :: 20 word) = f"
    using f(2) u by (simp add: unsigned_ucast_eq take_bit_eq_mod)
  define s2 where "s2 = upd_page (t, i) (\<lambda>e. e\<lparr>present := True, frameaddr := ucast (of_nat f :: u32),
      writeable := True, usermode := False\<rparr>) s1"
  have eq: "new_frame (Some (t, i)) s = Inr s2"
    using unmapped ne s1(1) f(1) by (simp add: new_frame_def s2_def Let_def)
  have "bitmap_ok s2" "used_frames s2 = used_frames s1"
    using s1(2) by (simp_all add: s2_def upd_page_def bitmap_ok_def used_frames_def)
  then show ?thesis
    using eq f s1 fr by (intro exI [of _ f] exI [of _ s2]) (auto simp: s2_def upd_page_def)
qed

subsection \<open>alloc and kmalloc\<close>

text \<open>The part of the kernel heap \<open>alloc\<close> has not handed out yet.\<close>

definition kheap_ok :: "'a vm_scheme \<Rightarrow> bool" where
  "kheap_ok s \<longleftrightarrow> heap_is_initialized s \<and> KHEAP_BASE \<le> heap_addr s \<and> heap_addr s \<le> KHEAP_BASE + KHEAP_SIZE"

lemma alloc_eq:
  assumes "kheap_ok s" "unat (heap_addr s) + unat sz \<le> unat (KHEAP_BASE + KHEAP_SIZE)"
  shows "alloc sz s = Inr (heap_addr s, s\<lparr>heap_addr := heap_addr s + sz\<rparr>)"
    and "unat (heap_addr s + sz) = unat (heap_addr s) + unat sz"
    and "kheap_ok (s\<lparr>heap_addr := heap_addr s + sz\<rparr>)"
proof -
  show u: "unat (heap_addr s + sz) = unat (heap_addr s) + unat sz"
    using assms(2) by (intro unat_add_lem [THEN iffD1]) simp
  show "alloc sz s = Inr (heap_addr s, s\<lparr>heap_addr := heap_addr s + sz\<rparr>)"
    using assms(2) u by (simp add: alloc_def Let_def word_less_nat_alt)
  show "kheap_ok (s\<lparr>heap_addr := heap_addr s + sz\<rparr>)"
    using assms u by (simp add: kheap_ok_def word_le_nat_alt)
qed

lemma alloc_full:
  assumes "kheap_ok s" "unat (heap_addr s) + unat sz < 2 ^ 32"
    "unat (KHEAP_BASE + KHEAP_SIZE) < unat (heap_addr s) + unat sz"
  shows "alloc sz s = Inl (Panic ''Heap is full!'')"
proof -
  have "unat (heap_addr s + sz) = unat (heap_addr s) + unat sz"
    using assms(2) by (intro unat_add_lem [THEN iffD1]) simp
  then show ?thesis using assms(3) by (simp add: alloc_def Let_def word_less_nat_alt)
qed

text \<open>A size that takes the end of the heap past the last address: the sum wraps, and the check sees a small number.\<close>

lemma alloc_wraps:
  assumes "kheap_ok s" "2 ^ 32 \<le> unat (heap_addr s) + unat sz"
  shows "alloc sz s = Inr (heap_addr s, s\<lparr>heap_addr := heap_addr s + sz\<rparr>)" "heap_addr s + sz < heap_addr s"
proof -
  have b: "unat (heap_addr s) < 2 ^ 32" "unat sz < 2 ^ 32"
    using unsigned_less [of "heap_addr s", where 'a = nat] unsigned_less [of sz, where 'a = nat] by simp_all
  have "unat (heap_addr s + sz) = (unat (heap_addr s) + unat sz) mod 2 ^ 32" by (simp add: unat_word_ariths)
  also have "\<dots> = unat (heap_addr s) + unat sz - 2 ^ 32" using b assms(2) by (subst le_mod_geq) simp_all
  finally show l: "heap_addr s + sz < heap_addr s" using b assms(2) by (simp add: word_less_nat_alt)
  have "heap_addr s + sz \<le> KHEAP_BASE + KHEAP_SIZE" using l assms(1) unfolding kheap_ok_def by (meson less_imp_le order.trans)
  then have "\<not> heap_addr s + sz > KHEAP_BASE + KHEAP_SIZE" by (simp only: not_less)
  then show "alloc sz s = Inr (heap_addr s, s\<lparr>heap_addr := heap_addr s + sz\<rparr>)" by (simp add: alloc_def Let_def)
qed

lemma kmalloc_heap:
  assumes "kheap_ok s" "unat (heap_addr s) + unat sz \<le> unat (KHEAP_BASE + KHEAP_SIZE)"
  shows "kmalloc sz al False s = Inr ((heap_addr s, None), s\<lparr>heap_addr := heap_addr s + sz\<rparr>)"
  using assms(1) alloc_eq(1) [OF assms] by (simp add: kmalloc_def kheap_ok_def)

lemma page_round: "((a :: u32) AND 0xFFFFF000) + 0x1000 AND 0xFFF = 0"
proof -
  have m: "x AND 0xFFF = take_bit 12 x" for x :: u32
    by (simp add: take_bit_eq_mask mask_eq_decr_exp)
  have n: "(0xFFFFF000 :: u32) = NOT (mask 12)" by (simp add: mask_eq_decr_exp)
  have "a AND 0xFFFFF000 = push_bit 12 (drop_bit 12 a)"
    unfolding n by (rule and_not_mask)
  then have "(a AND 0xFFFFF000) + 0x1000 = push_bit 12 (drop_bit 12 a + 1)"
    by (simp add: push_bit_eq_mult algebra_simps)
  then have "take_bit 12 ((a AND 0xFFFFF000) + 0x1000) = 0"
    by (simp add: take_bit_push_bit)
  then show ?thesis by (simp add: m)
qed

section \<open>Properties\<close>

definition blank_vm :: vm where
  "blank_vm = \<lparr>env = (\<lambda>_ _. 0), reads = 0, trace = [], initialized = (\<lambda>_. 0), gdtr = None, data_segs = [],
     idt_entries = [], idtr_size = None, frames = replicate 512 0, kdir = 0,
     kdir_mem = \<lparr>dir_tables = (\<lambda>_. 0), tables_phys = (\<lambda>_. 0)\<rparr>,
     page_tables = (\<lambda>_ _. zero_entry), phys_alloc_addr = 0x200010,
     heap_is_initialized = False, heap_addr = KHEAP_BASE, cr3 = None\<rparr>"

lemma frame_used_zeros: "f < 32 * k \<Longrightarrow> \<not> frame_used (replicate k 0) f"
  by (simp add: frame_used_def)

lemma used_frames_blank: "bitmap_ok blank_vm" "used_frames blank_vm = {}"
  using frame_used_zeros [of _ 512] by (auto simp: blank_vm_def bitmap_ok_def used_frames_def)

text \<open>
  C23. \<open>new_frame\<close> on a page without a frame takes the lowest free frame of physical memory, marks
  exactly that frame used, and makes the page present, writable and kernel-only on it; no other
  page table entry changes. When no frame is free it panics.
\<close>

theorem new_frame_allocates:
  assumes "bitmap_ok s" "frameaddr (page_tables s t i) = 0"
  shows "if used_frames s = {..<NFRAMES} then new_frame (Some (t, i)) s = Inl (Panic ''Out of memory'')
    else \<exists>f s'. new_frame (Some (t, i)) s = Inr s' \<and> bitmap_ok s' \<and>
      f < NFRAMES \<and> f \<notin> used_frames s \<and> (\<forall>g<f. g \<in> used_frames s) \<and>
      used_frames s' = insert f (used_frames s) \<and>
      present (page_tables s' t i) \<and> writeable (page_tables s' t i) \<and> \<not> usermode (page_tables s' t i) \<and>
      unat (frameaddr (page_tables s' t i)) = f \<and>
      (\<forall>t' i'. (t', i') \<noteq> (t, i) \<longrightarrow> page_tables s' t' i' = page_tables s t' i')"
proof (cases "used_frames s = {..<NFRAMES}")
  case True
  then show ?thesis using assms find_free_full [OF assms(1) True] by (simp add: new_frame_def)
next
  case False
  then show ?thesis using new_frame_eq [OF assms(1) False assms(2)] by simp
qed

theorem new_frame_allocates_witness:
  "\<exists>s'. new_frame (Some (0x201000, 5)) blank_vm = Inr s' \<and> used_frames s' = {0} \<and>
     present (page_tables s' 0x201000 5) \<and> \<not> present (page_tables s' 0x201000 6)"
proof -
  have z: "frameaddr (page_tables blank_vm t i) = 0" "\<not> present (page_tables blank_vm t i)" for t i
    by (simp_all add: blank_vm_def zero_entry_def)
  have "0 \<in> {..<NFRAMES}" by simp
  then have "{} \<noteq> {..<NFRAMES}" by blast
  with new_frame_allocates [OF used_frames_blank(1) z(1), of "0x201000" 5] used_frames_blank(2)
  obtain f s' where "new_frame (Some (0x201000, 5)) blank_vm = Inr s'" "\<forall>g<f. g \<in> ({} :: nat set)"
    "used_frames s' = {f}" "present (page_tables s' 0x201000 5)"
    "\<forall>t' i'. (t', i') \<noteq> (0x201000, 5) \<longrightarrow> page_tables s' t' i' = page_tables blank_vm t' i'"
    by auto
  then show ?thesis using z(2) by (cases f) auto
qed

text \<open>
  C32. On the kernel heap \<open>kmalloc\<close>, called without \<open>phys_addr\<close>, is a bump allocator: a request that fits gets the current end of the heap
  and moves it by the size, never beyond \<open>KHEAP_BASE + KHEAP_SIZE\<close>; a request that does not fit panics. Two
  things are not as they should be. The argument \<open>page_align\<close> (\<open>al\<close>) is ignored, although \<open>vm.h\<close> says that
  the allocation is aligned to a page when it is not zero. And a request so large that the end of the heap wraps
  around the 32-bit address passes the check: it is granted, and the end of the heap moves backwards, so
  that memory that is in use is handed out again.
\<close>

theorem kmalloc_kernel_heap:
  assumes "kheap_ok s"
  shows "if 2 ^ 32 \<le> unat (heap_addr s) + unat sz
    then kmalloc sz al False s = Inr ((heap_addr s, None), s\<lparr>heap_addr := heap_addr s + sz\<rparr>) \<and> heap_addr s + sz < heap_addr s
    else if unat (heap_addr s) + unat sz \<le> 0xD010000
    then kmalloc sz al False s = Inr ((heap_addr s, None), s\<lparr>heap_addr := heap_addr s + sz\<rparr>) \<and>
         kheap_ok (s\<lparr>heap_addr := heap_addr s + sz\<rparr>) \<and>
         unat (heap_addr s + sz) = unat (heap_addr s) + unat sz
    else kmalloc sz al False s = Inl (Panic ''Heap is full!'')"
proof -
  have k: "kmalloc sz al False s = and_then (alloc sz s) (\<lambda>(a, s). Inr ((a, None), s))"
    using assms by (simp add: kmalloc_def kheap_ok_def)
  consider "2 ^ 32 \<le> unat (heap_addr s) + unat sz" | "unat (heap_addr s) + unat sz \<le> 0xD010000"
    | "unat (heap_addr s) + unat sz < 2 ^ 32" "0xD010000 < unat (heap_addr s) + unat sz" by linarith
  then show ?thesis
  proof cases
    case 1
    then show ?thesis unfolding k using alloc_wraps [OF assms 1] by simp
  next
    case 2
    then have "unat (heap_addr s) + unat sz \<le> unat (KHEAP_BASE + KHEAP_SIZE)" by simp
    then show ?thesis unfolding k using 2 alloc_eq [OF assms] by simp
  next
    case 3
    then have "alloc sz s = Inl (Panic ''Heap is full!'')" using assms by (intro alloc_full) auto
    then show ?thesis unfolding k using 3 by simp
  qed
qed

theorem kmalloc_kernel_heap_witness:
  "let s = blank_vm\<lparr>heap_is_initialized := True\<rparr>; u = s\<lparr>heap_addr := 0xD000010\<rparr>
   in kmalloc 0x10000 False False s = Inr ((0xD000000, None), s\<lparr>heap_addr := 0xD010000\<rparr>) \<and>
      kmalloc 0x10001 False False s = Inl (Panic ''Heap is full!'') \<and>
      kmalloc 4 True False u = Inr ((0xD000010, None), s\<lparr>heap_addr := 0xD000014\<rparr>) \<and>
      kmalloc 0xFFFFFFF0 False False u = Inr ((0xD000010, None), s\<lparr>heap_addr := 0xD000000\<rparr>)"
proof -
  let ?s = "blank_vm\<lparr>heap_is_initialized := True\<rparr>" and ?u = "blank_vm\<lparr>heap_is_initialized := True, heap_addr := 0xD000010\<rparr>"
  have "kheap_ok ?s" "kheap_ok ?u" by (simp_all add: kheap_ok_def blank_vm_def)
  then show ?thesis
    using kmalloc_kernel_heap [of ?s "0x10000" False] kmalloc_kernel_heap [of ?s "0x10001" False]
      kmalloc_kernel_heap [of ?u 4 True] kmalloc_kernel_heap [of ?u "0xFFFFFFF0" False]
    by (simp add: blank_vm_def)
qed

text \<open>
  Before paging is on, a page-aligned \<open>kmalloc\<close> above the first page returns the next page
  boundary strictly above the placement address, also when that address is on a boundary
  already; below the first page it returns the unaligned placement address.
\<close>

theorem kmalloc_page_aligned:
  assumes "\<not> heap_is_initialized s"
  shows "\<exists>a s'. kmalloc sz True True s = Inr ((a, Some a), s') \<and> phys_alloc_addr s' = a + sz \<and>
    (if phys_alloc_addr s < 0x1000 then a = phys_alloc_addr s
     else a AND 0xFFF = 0 \<and> a = (phys_alloc_addr s AND 0xFFFFF000) + 0x1000)"
proof -
  let ?p = "phys_alloc_addr s"
  have n: "(0xFFFFF000 :: u32) = NOT (mask 12)" by (simp add: mask_eq_decr_exp)
  have "?p AND 0xFFFFF000 = 0 \<longleftrightarrow> take_bit 12 ?p = ?p"
    unfolding n by (auto simp: bit_eq_iff bit_simps)
  also have "\<dots> \<longleftrightarrow> ?p < 0x1000"
    unfolding take_bit_eq_mask mask_eq_iff by (simp add: word_less_def)
  finally have z: "?p AND 0xFFFFF000 = 0 \<longleftrightarrow> ?p < 0x1000" .
  show ?thesis
    using assms z page_round [of ?p] by (simp add: kmalloc_def Let_def)
qed

theorem kmalloc_page_aligned_witness:
  "\<exists>s'. kmalloc 4096 True True blank_vm = Inr ((0x201000, Some 0x201000), s')"
  using kmalloc_page_aligned [of blank_vm 4096] by (auto simp: blank_vm_def)

end
