(* ===== verification/Heap_Memory.thy ===== *)
theory Heap_Memory
  imports Virtual_Memory
begin

text \<open>
  \<open>src/lib/mem.c\<close> (the first-fit heap) with the macros of \<open>include/memory.h\<close>, and the
  indirection of \<open>src/lib/core.c\<close> (\<open>sys_set_heap_functions\<close>, \<open>sys_alloc_mem\<close>,
  \<open>sys_free_mem\<close>).

  A \<open>struct mcb\<close> is one word, the size of the block with the \<open>FREE\<close> flag in bit 0 and the
  \<open>END\<close> flag in bit 1; the block's bytes follow it. The store \<open>mcbs\<close> gives the word at a
  header address. Reading the header of \<open>NULL\<close> is the fault \<^const>\<open>Null_Deref\<close>. The loops
  follow headers, so they are partial functions: on a damaged chain they may not end.

  The abstraction is the list of blocks (size, free?) from \<open>memlist\<close> to the \<open>END\<close> block. The
  lemmas show that \<open>allocate_memory\<close> and \<open>free_memory\<close> implement first fit and coalescing
  on that list, and a locale \<open>allocator\<close> states what a client may rely on.
\<close>

section \<open>Model\<close>

text \<open>Function pointers installed by \<open>sys_set_heap_functions\<close>.\<close>

datatype alloc_fn = Allocate_Memory
datatype free_fn = Free_Memory

record heap = vm +
  memlist :: u32
  mcbs :: "u32 \<Rightarrow> u32"
  malloc_function :: "alloc_fn option"
  free_function :: "free_fn option"

abbreviation (input) FREE :: u32 where "FREE \<equiv> 1"
abbreviation (input) END :: u32 where "END \<equiv> 2"

definition mcb_size :: "u32 \<Rightarrow> u32" where "mcb_size w = w AND NOT 3"
definition mcb_isfree :: "u32 \<Rightarrow> bool" where "mcb_isfree w \<longleftrightarrow> w AND FREE \<noteq> 0"
definition mcb_isend :: "u32 \<Rightarrow> bool" where "mcb_isend w \<longleftrightarrow> w AND END \<noteq> 0"
definition mcb_setfree :: "u32 \<Rightarrow> u32" where "mcb_setfree w = w OR FREE"
definition mcb_clrfree :: "u32 \<Rightarrow> u32" where "mcb_clrfree w = w AND NOT FREE"
definition mcb_copyend :: "u32 \<Rightarrow> u32 \<Rightarrow> u32" where
  "mcb_copyend w n = w OR (if mcb_isend n then END else 0)"

text \<open>\<open>sizeof(struct mcb)\<close> is 4, \<open>mcb->start\<close> the address after the header.\<close>

definition mcb_start :: "u32 \<Rightarrow> u32" where "mcb_start m = m + 4"

definition roundup :: "u32 \<Rightarrow> u32" where
  "roundup sz = (if sz AND 3 \<noteq> 0 then (sz AND NOT 3) + 4 else sz)"

definition put_mcb :: "u32 \<Rightarrow> u32 \<Rightarrow> 'a heap_scheme \<Rightarrow> 'a heap_scheme" where
  "put_mcb m w s = s\<lparr>mcbs := (mcbs s)(m := w)\<rparr>"

definition mcb_next :: "u32 \<Rightarrow> 'a heap_scheme \<Rightarrow> u32 checked" where
  "mcb_next mcb s =
     (if mcb = NULL then Inl Null_Deref
      else Inr (if mcb_isend (mcbs s mcb) then NULL else mcb_start mcb + mcb_size (mcbs s mcb)))"

definition initialize_heap :: "u32 \<Rightarrow> 'a heap_scheme \<Rightarrow> 'a heap_scheme checked" where
  "initialize_heap sz s =
     (let sz = roundup sz
      in and_then (kmalloc (sz + 4) False False s) (\<lambda>((a, _), s).
           let s = s\<lparr>memlist := a\<rparr>
           in if a = NULL then Inl Null_Deref else Inr (put_mcb a (sz OR FREE OR END) s)))"

text \<open>The body of the loop on a block that is taken: split it when a header and more fit.\<close>

definition take_block :: "u32 \<Rightarrow> u32 \<Rightarrow> 'a heap_scheme \<Rightarrow> 'a heap_scheme" where
  "take_block sz mcb s =
     (let s = (if mcb_size (mcbs s mcb) > sz + 4 then
                 let newfree = mcb_start mcb + sz;
                     s = put_mcb newfree (mcb_size (mcbs s mcb) - sz - 4) s;
                     s = put_mcb newfree (mcb_setfree (mcbs s newfree)) s;
                     s = put_mcb newfree (mcb_copyend (mcbs s newfree) (mcbs s mcb)) s
                 in put_mcb mcb sz s
               else s)
      in put_mcb mcb (mcb_clrfree (mcbs s mcb)) s)"

partial_function (option) allocate_loop ::
  "u32 \<Rightarrow> u32 \<Rightarrow> 'a heap_scheme \<Rightarrow> (u32 \<times> 'a heap_scheme) checked option" where
  "allocate_loop sz mcb s =
     (if mcb = NULL then Some (Inr (NULL, s))
      else if mcb_size (mcbs s mcb) \<ge> sz \<and> mcb_isfree (mcbs s mcb)
      then Some (Inr (mcb_start mcb, take_block sz mcb s))
      else case mcb_next mcb s of
             Inl e \<Rightarrow> Some (Inl e)
           | Inr mcb' \<Rightarrow> allocate_loop sz mcb' s)"

definition allocate_memory :: "u32 \<Rightarrow> 'a heap_scheme \<Rightarrow> (u32 \<times> 'a heap_scheme) checked option" where
  "allocate_memory sz s = allocate_loop (roundup sz) (memlist s) s"

text \<open>The body of the loop of \<open>free_memory\<close> on the block to free.\<close>

definition release_block :: "u32 \<Rightarrow> u32 \<Rightarrow> u32 \<Rightarrow> 'a heap_scheme \<Rightarrow> 'a heap_scheme" where
  "release_block prev mcb nxt s =
     (let s = put_mcb mcb (mcb_setfree (mcbs s mcb)) s;
          s = (if nxt \<noteq> NULL \<and> mcb_isfree (mcbs s nxt) then
                 let s = put_mcb mcb (mcbs s mcb + (mcb_size (mcbs s nxt) + 4)) s
                 in put_mcb mcb (mcb_copyend (mcbs s mcb) (mcbs s nxt)) s
               else s);
          s = (if prev \<noteq> NULL \<and> mcb_isfree (mcbs s prev) then
                 let s = put_mcb prev (mcbs s prev + (mcb_size (mcbs s mcb) + 4)) s
                 in put_mcb prev (mcb_copyend (mcbs s prev) (mcbs s mcb)) s
               else s)
      in s)"

partial_function (option) free_loop ::
  "u32 \<Rightarrow> u32 \<Rightarrow> u32 \<Rightarrow> u32 \<Rightarrow> 'a heap_scheme \<Rightarrow> (int \<times> 'a heap_scheme) checked option" where
  "free_loop ptr prev mcb nxt s =
     (if mcb = NULL then Some (Inr (-1, s))
      else if mcb_start mcb = ptr \<and> \<not> mcb_isfree (mcbs s mcb)
      then Some (Inr (0, release_block prev mcb nxt s))
      else case mcb_next nxt s of
             Inl e \<Rightarrow> Some (Inl e)
           | Inr nxt' \<Rightarrow> free_loop ptr mcb nxt nxt' s)"

definition free_memory :: "u32 \<Rightarrow> 'a heap_scheme \<Rightarrow> (int \<times> 'a heap_scheme) checked option" where
  "free_memory ptr s =
     run_then (Some (mcb_next (memlist s) s)) (\<lambda>nxt. free_loop ptr NULL (memlist s) nxt s)"

subsection \<open>core.c\<close>

definition sys_set_heap_functions ::
  "alloc_fn option \<Rightarrow> free_fn option \<Rightarrow> 'a heap_scheme \<Rightarrow> 'a heap_scheme" where
  "sys_set_heap_functions alloc_f free_f s = s\<lparr>malloc_function := alloc_f, free_function := free_f\<rparr>"

definition sys_alloc_mem :: "u32 \<Rightarrow> 'a heap_scheme \<Rightarrow> (u32 \<times> 'a heap_scheme) checked option" where
  "sys_alloc_mem sz s =
     (case malloc_function s of
        Some Allocate_Memory \<Rightarrow> allocate_memory sz s
      | None \<Rightarrow> run_then (Some (kmalloc sz False False s)) (\<lambda>((a, _), s). Some (Inr (a, s))))"

definition sys_free_mem :: "u32 \<Rightarrow> 'a heap_scheme \<Rightarrow> (int \<times> 'a heap_scheme) checked option" where
  "sys_free_mem ptr s =
     (case free_function s of
        Some Free_Memory \<Rightarrow> free_memory ptr s
      | None \<Rightarrow> Some (Inr (-1, s)))"

section \<open>The block list\<close>

text \<open>The header word of a block of \<open>n\<close> bytes.\<close>

definition hdr :: "nat \<Rightarrow> bool \<Rightarrow> bool \<Rightarrow> u32" where
  "hdr n f e = of_nat (n + (if f then 1 else 0) + (if e then 2 else 0))"

type_synonym block = "nat \<times> bool"

fun chain :: "(u32 \<Rightarrow> u32) \<Rightarrow> nat \<Rightarrow> block list \<Rightarrow> bool" where
  "chain m a [] \<longleftrightarrow> False"
| "chain m a ((n, f) # bs) \<longleftrightarrow> m (of_nat a) = hdr n f (bs = []) \<and> (bs \<noteq> [] \<longrightarrow> chain m (a + 4 + n) bs)"

fun extent :: "block list \<Rightarrow> nat" where
  "extent [] = 0"
| "extent ((n, f) # bs) = 4 + n + extent bs"

fun merged :: "block list \<Rightarrow> bool" where
  "merged ((n, f) # (k, g) # bs) \<longleftrightarrow> \<not> (f \<and> g) \<and> merged ((k, g) # bs)"
| "merged _ \<longleftrightarrow> True"

definition sizes_ok :: "block list \<Rightarrow> bool" where
  "sizes_ok bs \<longleftrightarrow> (\<forall>(n, f) \<in> set bs. n mod 4 = 0)"

text \<open>The invariant of the heap: \<open>bs\<close> are its blocks.\<close>

definition heap_blocks :: "'a heap_scheme \<Rightarrow> block list \<Rightarrow> bool" where
  "heap_blocks s bs \<longleftrightarrow>
     chain (mcbs s) (unat (memlist s)) bs \<and> 0 < unat (memlist s) \<and>
     unat (memlist s) + extent bs < 2 ^ 32 \<and> sizes_ok bs \<and> merged bs"

subsection \<open>Specifications\<close>

text \<open>First fit on the block list; \<open>a\<close> is the address of the first header.\<close>

fun first_fit :: "nat \<Rightarrow> nat \<Rightarrow> block list \<Rightarrow> (nat \<times> block list) option" where
  "first_fit sz a [] = None"
| "first_fit sz a ((n, f) # bs) =
     (if f \<and> sz \<le> n then
        Some (a + 4, if n > sz + 4 then (sz, False) # (n - sz - 4, True) # bs else (n, False) # bs)
      else map_option (\<lambda>(p, bs'). (p, (n, f) # bs')) (first_fit sz (a + 4 + n) bs))"

text \<open>Freeing: mark the block free, then merge neighbouring free blocks.\<close>

fun mark_free :: "nat \<Rightarrow> nat \<Rightarrow> block list \<Rightarrow> block list option" where
  "mark_free p a [] = None"
| "mark_free p a ((n, f) # bs) =
     (if a + 4 = p \<and> \<not> f then Some ((n, True) # bs)
      else map_option (\<lambda>bs'. (n, f) # bs') (mark_free p (a + 4 + n) bs))"

fun coalesce :: "block list \<Rightarrow> block list" where
  "coalesce [] = []"
| "coalesce [b] = [b]"
| "coalesce ((n, f) # (k, g) # bs) =
     (if f \<and> g then coalesce ((n + 4 + k, True) # bs) else (n, f) # coalesce ((k, g) # bs))"

section \<open>Lemmas\<close>

subsection \<open>Header words\<close>

lemma bit_div4: "2 \<le> j \<Longrightarrow> bit (n div 4 :: nat) (j - 2) = bit n j"
proof -
  assume "2 \<le> j"
  then obtain k where "j = 2 + k" using le_iff_add by blast
  moreover have "n div 4 = drop_bit 2 n" by (simp add: drop_bit_eq_div)
  ultimately show ?thesis by (simp add: bit_drop_bit_eq)
qed

lemma low_bits: "n mod 4 = 0 \<Longrightarrow> \<not> bit (n::nat) 0 \<and> \<not> bit n 1"
  by (auto simp: bit_0 bit_iff_odd)

lemma hdr_or:
  assumes "n mod 4 = 0"
  shows "hdr n f e = push_bit 2 (of_nat (n div 4)) OR (of_bool f OR push_bit 1 (of_bool e))"
proof -
  obtain k where k: "n = 4 * k" using assms by auto
  have 1: "push_bit 2 (of_nat k :: u32) AND (of_bool f OR push_bit 1 (of_bool e)) = 0"
    by (rule bit_word_eqI) (auto simp: bit_simps)
  have 2: "(of_bool f :: u32) AND push_bit 1 (of_bool e) = 0"
    by (rule bit_word_eqI) (auto simp: bit_simps)
  have "hdr n f e = push_bit 2 (of_nat k) + (of_bool f + push_bit 1 (of_bool e))"
    by (simp add: hdr_def k push_bit_eq_mult)
  then show ?thesis using k 1 2 by (simp add: disjunctive_add_eq_or)
qed

lemma bit_hdr:
  "n mod 4 = 0 \<Longrightarrow> bit (hdr n f e) j \<longleftrightarrow> j < 32 \<and> (if j = 0 then f else if j = 1 then e else bit n j)"
  unfolding hdr_or bit_or_iff using bit_div4 [of j n]
  by (cases "j = 0"; cases "j = 1") (auto simp: bit_simps)

lemma three_mask: "(3 :: u32) = mask 2"
  by (simp add: mask_eq_decr_exp)

lemma hdr_size [simp]: "n mod 4 = 0 \<Longrightarrow> mcb_size (hdr n f e) = of_nat n"
  unfolding mcb_size_def three_mask using low_bits [of n]
  by (intro bit_word_eqI) (auto simp: bit_hdr bit_simps less_2_cases_iff)

lemma hdr_isfree [simp]: "n mod 4 = 0 \<Longrightarrow> mcb_isfree (hdr n f e) \<longleftrightarrow> f"
  using bit_iff_and_push_bit_not_eq_0 [of "hdr n f e" 0] by (simp add: bit_hdr mcb_isfree_def)

lemma hdr_isend [simp]: "n mod 4 = 0 \<Longrightarrow> mcb_isend (hdr n f e) \<longleftrightarrow> e"
  using bit_iff_and_push_bit_not_eq_0 [of "hdr n f e" 1] by (simp add: bit_hdr mcb_isend_def)

lemma hdr_setfree [simp]: "n mod 4 = 0 \<Longrightarrow> mcb_setfree (hdr n f e) = hdr n True e"
  unfolding mcb_setfree_def by (rule bit_word_eqI) (auto simp: bit_hdr bit_simps)

lemma hdr_clrfree [simp]: "n mod 4 = 0 \<Longrightarrow> mcb_clrfree (hdr n f e) = hdr n False e"
  unfolding mcb_clrfree_def by (rule bit_word_eqI) (auto simp: bit_hdr bit_simps)

lemma hdr_setend: "n mod 4 = 0 \<Longrightarrow> hdr n f e OR 2 = hdr n f True"
  by (rule bit_word_eqI) (auto simp: bit_hdr bit_or_iff bit_2_iff)

lemma hdr_copyend [simp]:
  "n mod 4 = 0 \<Longrightarrow> k mod 4 = 0 \<Longrightarrow> mcb_copyend (hdr n f e) (hdr k g e') = hdr n f (e \<or> e')"
  by (auto simp: mcb_copyend_def hdr_setend)

lemma hdr_add [simp]: "hdr n f e + (of_nat k + 4) = hdr (n + 4 + k) f e"
  by (simp add: hdr_def algebra_simps)

lemma hdr_plain: "of_nat k = hdr k False False"
  by (simp add: hdr_def)

lemma roundup_aligned: "unat (roundup sz) mod 4 = 0"
proof -
  have t: "take_bit 2 (roundup sz) = 0"
  proof (cases "sz AND 3 = 0")
    case True
    then show ?thesis by (simp add: roundup_def three_mask take_bit_eq_mask)
  next
    case False
    have "sz AND NOT 3 = push_bit 2 (drop_bit 2 sz)"
      unfolding three_mask by (rule and_not_mask)
    then have "roundup sz = push_bit 2 (drop_bit 2 sz + 1)"
      using False by (simp add: roundup_def push_bit_eq_mult algebra_simps)
    then show ?thesis by (simp add: take_bit_push_bit)
  qed
  have "unat (take_bit 2 (roundup sz)) = take_bit 2 (unat (roundup sz))"
    by (simp add: unsigned_take_bit_eq)
  then show ?thesis using t by (simp add: take_bit_eq_mod)
qed

subsection \<open>Chains\<close>

lemma put_mcb_simps [simp]:
  "mcbs (put_mcb a w s) = (mcbs s)(a := w)" "memlist (put_mcb a w s) = memlist s"
  "put_mcb a v (put_mcb a w s) = put_mcb a v s"
  by (simp_all add: put_mcb_def)

lemma of_nat_addr_eq: "x < 2 ^ 32 \<Longrightarrow> y < 2 ^ 32 \<Longrightarrow> (of_nat x :: u32) = of_nat y \<longleftrightarrow> x = y"
  by (metis unat_of_nat32)

lemma of_nat_addr_zero: "0 < x \<Longrightarrow> x < 2 ^ 32 \<Longrightarrow> (of_nat x :: u32) \<noteq> 0"
  using of_nat_addr_eq [of x 0] by simp

lemma chain_cong:
  "(\<And>x. a \<le> x \<Longrightarrow> x < a + extent bs \<Longrightarrow> m' (of_nat x) = m (of_nat x)) \<Longrightarrow> chain m' a bs = chain m a bs"
proof (induction m a bs rule: chain.induct)
  case (2 m a n f bs)
  then show ?case by (cases "bs = []") auto
qed simp

lemma chain_nonempty: "chain m a bs \<Longrightarrow> bs \<noteq> []"
  by auto

lemma sizes_ok_simps [simp]:
  "sizes_ok []" "sizes_ok ((n, f) # bs) \<longleftrightarrow> n mod 4 = 0 \<and> sizes_ok bs"
  "sizes_ok (xs @ ys) \<longleftrightarrow> sizes_ok xs \<and> sizes_ok ys"
  by (auto simp: sizes_ok_def)

lemma extent_append [simp]: "extent (xs @ ys) = extent xs + extent ys"
  by (induction xs rule: extent.induct) auto

subsection \<open>allocate_memory\<close>

lemma take_block_eq:
  assumes w: "mcbs s (of_nat a) = hdr n True e" "n mod 4 = 0" "k mod 4 = 0" "k \<le> n"
    and a: "0 < a" "a + 4 + n < 2 ^ 32"
  shows "take_block (of_nat k) (of_nat a) s =
    (if n > k + 4
     then put_mcb (of_nat a) (hdr k False False) (put_mcb (of_nat (a + 4 + k)) (hdr (n - k - 4) True e) s)
     else put_mcb (of_nat a) (hdr n False e) s)"
proof -
  have gt: "(of_nat n :: u32) > of_nat k + 4 \<longleftrightarrow> n > k + 4"
    using a assms(4) unat_of_nat32 [of n] unat_of_nat32 [of "k + 4"] by (simp add: word_less_nat_alt)
  have start: "mcb_start (of_nat a) + of_nat k = of_nat (a + 4 + k)"
    by (simp add: mcb_start_def algebra_simps)
  have ne: "(of_nat a :: u32) \<noteq> of_nat (a + 4 + k)"
    using a assms(4) of_nat_addr_eq [of a "a + 4 + k"] by simp
  have diff: "of_nat n - of_nat k - 4 = hdr (n - k - 4) False False" if "n > k + 4"
    using that by (simp add: hdr_def of_nat_diff)
  have m4: "(n - k - 4) mod 4 = 0"
    using assms(2,3) by presburger
  show ?thesis
  proof (cases "n > k + 4")
    case True
    have clr: "mcb_clrfree (of_nat k) = hdr k False False"
      unfolding hdr_plain using assms(3) by simp
    show ?thesis
      using True assms(1-4) ne m4 by (simp add: take_block_def Let_def gt start diff [OF True] clr)
  next
    case False
    then show ?thesis using assms gt by (simp add: take_block_def Let_def)
  qed
qed

lemma chain_upd_other:
  assumes "b < a" "a + extent bs < 2 ^ 32"
  shows "chain (m(of_nat b := w)) a bs = chain m a bs"
proof (rule chain_cong)
  fix x assume "a \<le> x" "x < a + extent bs"
  then have "(of_nat x :: u32) \<noteq> of_nat b" using assms of_nat_addr_eq [of x b] by auto
  then show "(m(of_nat b := w)) (of_nat x) = m (of_nat x)" by simp
qed

lemma mcb_next_chain:
  assumes "chain (mcbs s) a ((n, f) # bs)" "0 < a" "a < 2 ^ 32" "n mod 4 = 0"
  shows "mcb_next (of_nat a) s = Inr (if bs = [] then NULL else of_nat (a + 4 + n))"
  using assms of_nat_addr_zero [of a] by (simp add: mcb_next_def mcb_start_def)

text \<open>The loop from the header at \<open>a\<close>, whose blocks are \<open>bs\<close>, does what \<^const>\<open>first_fit\<close> says.\<close>

definition allocate_refines :: "'a heap_scheme \<Rightarrow> nat \<Rightarrow> nat \<Rightarrow> block list \<Rightarrow> bool" where
  "allocate_refines s k a bs \<longleftrightarrow>
     (case first_fit k a bs of
        None \<Rightarrow> allocate_loop (of_nat k) (of_nat a) s = Some (Inr (NULL, s))
      | Some (p, bs') \<Rightarrow>
          \<exists>m. allocate_loop (of_nat k) (of_nat a) s = Some (Inr (of_nat p, s\<lparr>mcbs := m\<rparr>)) \<and>
              chain m a bs' \<and> (\<forall>x<a. m (of_nat x) = mcbs s (of_nat x)))"

lemma block_fits:
  "k < 2 ^ 32 \<Longrightarrow> n < 2 ^ 32 \<Longrightarrow> (of_nat k :: u32) \<le> of_nat n \<longleftrightarrow> k \<le> n"
  using unat_of_nat32 [of n] unat_of_nat32 [of k] by (simp add: word_le_nat_alt)

lemma first_fit_skip:
  "\<not> (f \<and> k \<le> n) \<Longrightarrow>
   first_fit k a ((n, f) # bs) = map_option (\<lambda>(p, bs'). (p, (n, f) # bs')) (first_fit k (a + 4 + n) bs)"
  by auto

lemma allocate_taken:
  assumes c: "chain (mcbs s) a ((n, True) # bs)" and a: "0 < a" "a + 4 + n + extent bs < 2 ^ 32"
    and n: "n mod 4 = 0" "k mod 4 = 0" "k \<le> n"
  shows "allocate_refines s k a ((n, True) # bs)"
proof -
  let ?s = "take_block (of_nat k) (of_nat a) s"
  have w: "mcbs s (of_nat a) = hdr n True (bs = [])" using c by simp
  have nz: "(of_nat a :: u32) \<noteq> NULL" using a by (intro of_nat_addr_zero) auto
  have eq: "allocate_loop (of_nat k) (of_nat a) s = Some (Inr (of_nat (a + 4), ?s))"
    using nz w n a block_fits [of k n] by (subst allocate_loop.simps) (simp add: mcb_start_def)
  have tb: "?s = (if n > k + 4
      then put_mcb (of_nat a) (hdr k False False) (put_mcb (of_nat (a + 4 + k)) (hdr (n - k - 4) True (bs = [])) s)
      else put_mcb (of_nat a) (hdr n False (bs = [])) s)"
    using w n a by (intro take_block_eq) auto
  define m where "m = mcbs ?s"
  have m: "m = (if n > k + 4
      then (mcbs s)(of_nat (a + 4 + k) := hdr (n - k - 4) True (bs = []), of_nat a := hdr k False False)
      else (mcbs s)(of_nat a := hdr n False (bs = [])))"
    by (simp add: m_def tb)
  have s: "?s = s\<lparr>mcbs := m\<rparr>" by (simp add: m tb put_mcb_def)
  have d: "(of_nat (a + 4 + k) :: u32) \<noteq> of_nat a"
    using n a of_nat_addr_eq [of "a + 4 + k" a] by simp
  have "chain m (a + 4 + n) bs = chain (mcbs s) (a + 4 + n) bs"
    using n a by (simp add: m chain_upd_other del: of_nat_add)
  then have rest: "bs \<noteq> [] \<Longrightarrow> chain m (a + 4 + n) bs"
    using c by simp
  have "\<forall>x<a. m (of_nat x) = mcbs s (of_nat x)"
    using a n of_nat_addr_eq [of _ a] of_nat_addr_eq [of _ "a + 4 + k"] by (auto simp: m)
  moreover have "chain m a (if n > k + 4 then (k, False) # (n - k - 4, True) # bs else (n, False) # bs)"
    using d rest by (auto simp: m add_ac simp del: of_nat_add)
  ultimately show ?thesis
    unfolding allocate_refines_def using n eq s by (auto intro!: exI [of _ m])
qed

lemma allocate_skip:
  assumes c: "chain (mcbs s) a ((n, f) # bs)" and a: "0 < a" "a + 4 + n + extent bs < 2 ^ 32"
    and n: "n mod 4 = 0" "k < 2 ^ 32" "\<not> (f \<and> k \<le> n)"
    and IH: "bs \<noteq> [] \<Longrightarrow> allocate_refines s k (a + 4 + n) bs"
  shows "allocate_refines s k a ((n, f) # bs)"
proof -
  have w: "mcbs s (of_nat a) = hdr n f (bs = [])" using c by simp
  have nz: "(of_nat a :: u32) \<noteq> NULL" using a by (intro of_nat_addr_zero) auto
  have nx: "mcb_next (of_nat a) s = Inr (if bs = [] then NULL else of_nat (a + 4 + n))"
    using c a n by (intro mcb_next_chain) auto
  have step: "allocate_loop (of_nat k) (of_nat a) s =
      (if bs = [] then Some (Inr (NULL, s)) else allocate_loop (of_nat k) (of_nat (a + 4 + n)) s)"
    using n nz w a block_fits [of k n] nx
    by (subst allocate_loop.simps) (auto simp: allocate_loop.simps [of _ NULL])
  show ?thesis
  proof (cases "first_fit k (a + 4 + n) bs")
    case None
    then show ?thesis
      using IH step unfolding allocate_refines_def first_fit_skip [OF n(3)] by auto
  next
    case (Some r)
    obtain p bs' where r: "r = (p, bs')" by (cases r)
    have ne: "bs \<noteq> []" using Some by auto
    from IH [OF ne] Some r obtain m
      where m: "allocate_loop (of_nat k) (of_nat (a + 4 + n)) s = Some (Inr (of_nat p, s\<lparr>mcbs := m\<rparr>))"
        "chain m (a + 4 + n) bs'" "\<forall>x<a + 4 + n. m (of_nat x) = mcbs s (of_nat x)"
      unfolding allocate_refines_def by auto
    then have "chain m a ((n, f) # bs')" using w ne chain_nonempty [OF m(2)] by simp
    then show ?thesis
      using Some r m step ne unfolding allocate_refines_def first_fit_skip [OF n(3)] by auto
  qed
qed

lemma allocate_loop_refines:
  assumes "chain (mcbs s) a bs" "0 < a" "a + extent bs < 2 ^ 32" "sizes_ok bs" "k mod 4 = 0" "k < 2 ^ 32"
  shows "allocate_refines s k a bs"
  using assms(1-4)
proof (induction bs arbitrary: a)
  case (Cons b bs)
  obtain n f where b: "b = (n, f)" by (cases b)
  show ?case
  proof (cases "f \<and> k \<le> n")
    case True
    then show ?thesis using Cons.prems assms(5) b by (auto intro: allocate_taken)
  next
    case False
    have "bs \<noteq> [] \<Longrightarrow> allocate_refines s k (a + 4 + n) bs"
      using Cons.prems b by (intro Cons.IH) auto
    then show ?thesis unfolding b
      using Cons.prems False b assms(6) by (intro allocate_skip) auto
  qed
qed simp

subsection \<open>free_memory\<close>

text \<open>The headers of \<open>xs\<close> from \<open>a\<close> on, none of them the \<open>END\<close> block.\<close>

fun linked :: "(u32 \<Rightarrow> u32) \<Rightarrow> nat \<Rightarrow> block list \<Rightarrow> bool" where
  "linked m a [] \<longleftrightarrow> True"
| "linked m a ((n, f) # bs) \<longleftrightarrow> m (of_nat a) = hdr n f False \<and> linked m (a + 4 + n) bs"

lemma chain_append: "ys \<noteq> [] \<Longrightarrow> chain m a (xs @ ys) \<longleftrightarrow> linked m a xs \<and> chain m (a + extent xs) ys"
  by (induction m a xs rule: linked.induct) (auto simp: add_ac)

lemma linked_upd:
  "a + extent xs \<le> b \<Longrightarrow> b < 2 ^ 32 \<Longrightarrow> linked (m(of_nat b := w)) a xs = linked m a xs"
  by (induction m a xs rule: linked.induct) (auto simp: of_nat_addr_eq)

lemma chain_replace:
  assumes c: "chain m a (xs @ vs @ ys)" and vs: "vs \<noteq> []" "extent vs = 4 + n"
    and a: "a + extent (xs @ vs @ ys) < 2 ^ 32"
  shows "chain (m(of_nat (a + extent xs) := hdr n f (ys = []))) a (xs @ (n, f) # ys)"
proof -
  have 1: "linked m a xs" "chain m (a + extent xs) (vs @ ys)"
    using c vs by (auto simp: chain_append)
  have "chain (m(of_nat (a + extent xs) := hdr n f (ys = []))) (a + extent xs + 4 + n) ys" if "ys \<noteq> []"
  proof -
    have "chain m (a + extent xs + 4 + n) ys" using 1(2) that vs by (auto simp: chain_append add_ac)
    then show ?thesis using a vs by (subst chain_upd_other) (auto simp del: of_nat_add)
  qed
  moreover have "linked (m(of_nat (a + extent xs) := hdr n f (ys = []))) a xs"
    using a vs 1(1) by (subst linked_upd) auto
  ultimately show ?thesis by (subst chain_append) (auto simp del: of_nat_add)
qed

text \<open>The address of the next header, as \<open>mcb_next\<close> gives it.\<close>

definition next_hdr :: "nat \<Rightarrow> block list \<Rightarrow> u32" where
  "next_hdr a bs = (if tl bs = [] then NULL else of_nat (a + 4 + fst (hd bs)))"

lemma mcb_next_hdr:
  "chain (mcbs s) a bs \<Longrightarrow> 0 < a \<Longrightarrow> a < 2 ^ 32 \<Longrightarrow> sizes_ok bs \<Longrightarrow> mcb_next (of_nat a) s = Inr (next_hdr a bs)"
  using mcb_next_chain [of s a "fst (hd bs)" "snd (hd bs)" "tl bs"]
  by (cases bs) (auto simp: next_hdr_def)

lemma free_loop_step:
  assumes c: "chain (mcbs s) a ((n, f) # bs)" and a: "0 < a" "a + 4 + n + extent bs < 2 ^ 32"
    and ok: "sizes_ok ((n, f) # bs)" and no: "\<not> (of_nat (a + 4) = p \<and> \<not> f)"
  shows "free_loop p prev (of_nat a) (next_hdr a ((n, f) # bs)) s =
    (if bs = [] then Some (Inl Null_Deref)
     else free_loop p (of_nat a) (of_nat (a + 4 + n)) (next_hdr (a + 4 + n) bs) s)"
proof -
  have nz: "(of_nat a :: u32) \<noteq> NULL" using a by (intro of_nat_addr_zero) auto
  have w: "mcbs s (of_nat a) = hdr n f (bs = [])" using c by simp
  show ?thesis
  proof (cases "bs = []")
    case True
    then show ?thesis
      using nz w ok no by (subst free_loop.simps) (auto simp: next_hdr_def mcb_next_def mcb_start_def add_ac)
  next
    case False
    have "mcb_next (of_nat (a + 4 + n)) s = Inr (next_hdr (a + 4 + n) bs)"
      using c False a ok by (intro mcb_next_hdr) (auto simp: neq_Nil_conv)
    then show ?thesis
      using False nz w ok no
      by (subst free_loop.simps) (auto simp: next_hdr_def mcb_start_def add_ac)
  qed
qed

lemma mark_free_split:
  "mark_free p a bs = Some bs' \<Longrightarrow>
   \<exists>xs n ys. bs = xs @ (n, False) # ys \<and> bs' = xs @ (n, True) # ys \<and> p = a + extent xs + 4 \<and>
             mark_free p a xs = None"
proof (induction p a bs arbitrary: bs' rule: mark_free.induct)
  case (2 p a n f bs)
  show ?case
  proof (cases "a + 4 = p \<and> \<not> f")
    case True
    then show ?thesis using "2.prems" by (intro exI [of _ "[]"] exI [of _ n] exI [of _ bs]) auto
  next
    case False
    then obtain bs1 where bs1: "mark_free p (a + 4 + n) bs = Some bs1" "bs' = (n, f) # bs1"
      using "2.prems" by auto
    from "2.IH" [OF False bs1(1)] obtain xs k ys where
      "bs = xs @ (k, False) # ys" "bs1 = xs @ (k, True) # ys" "p = a + 4 + n + extent xs + 4"
      "mark_free p (a + 4 + n) xs = None" by blast
    then show ?thesis using False bs1
      by (intro exI [of _ "(n, f) # xs"] exI [of _ k] exI [of _ ys]) auto
  qed
qed simp

lemma free_loop_walk:
  assumes "mark_free p a xs = None" "ys \<noteq> []" "chain (mcbs s) a (xs @ ys)" "0 < a"
    "a + extent (xs @ ys) < 2 ^ 32" "sizes_ok (xs @ ys)" "p < 2 ^ 32"
  shows "free_loop (of_nat p) prev (of_nat a) (next_hdr a (xs @ ys)) s =
    free_loop (of_nat p) (if xs = [] then prev else of_nat (a + extent (butlast xs)))
      (of_nat (a + extent xs)) (next_hdr (a + extent xs) ys) s"
  using assms
proof (induction p a xs arbitrary: prev rule: mark_free.induct)
  case (2 p a n f xs)
  have no: "\<not> (a + 4 = p \<and> \<not> f)" and m: "mark_free p (a + 4 + n) xs = None"
    using "2.prems" by (auto split: if_splits)
  have "\<not> ((of_nat (a + 4) :: u32) = of_nat p \<and> \<not> f)"
    using no "2.prems" of_nat_addr_eq [of "a + 4" p] by auto
  then have "free_loop (of_nat p) prev (of_nat a) (next_hdr a ((n, f) # xs @ ys)) s =
      free_loop (of_nat p) (of_nat a) (of_nat (a + 4 + n)) (next_hdr (a + 4 + n) (xs @ ys)) s"
    using "2.prems" by (subst free_loop_step) auto
  also have "\<dots> = free_loop (of_nat p) (if xs = [] then of_nat a else of_nat (a + 4 + n + extent (butlast xs)))
      (of_nat (a + 4 + n + extent xs)) (next_hdr (a + 4 + n + extent xs) ys) s"
    using "2.prems" m by (intro "2.IH" [OF no]) auto
  finally show ?case by (auto simp: add_ac)
qed simp

lemma free_loop_missing:
  assumes "mark_free p a bs = None" "chain (mcbs s) a bs" "0 < a"
    "a + extent bs < 2 ^ 32" "sizes_ok bs" "p < 2 ^ 32"
  shows "free_loop (of_nat p) prev (of_nat a) (next_hdr a bs) s = Some (Inl Null_Deref)"
  using assms
proof (induction p a bs arbitrary: prev rule: mark_free.induct)
  case (2 p a n f bs)
  have no: "\<not> (a + 4 = p \<and> \<not> f)" and m: "mark_free p (a + 4 + n) bs = None"
    using "2.prems" by (auto split: if_splits)
  have no': "\<not> ((of_nat (a + 4) :: u32) = of_nat p \<and> \<not> f)"
    using no "2.prems" of_nat_addr_eq [of "a + 4" p] by auto
  have "bs \<noteq> [] \<Longrightarrow> free_loop (of_nat p) (of_nat a) (of_nat (a + 4 + n)) (next_hdr (a + 4 + n) bs) s = Some (Inl Null_Deref)"
    using "2.prems" m by (intro "2.IH" [OF no]) auto
  then show ?case using "2.prems" no' by (subst free_loop_step) auto
qed simp

text \<open>The two merges of the freed block, with its successor and then with its predecessor.\<close>

fun merge_next :: "nat \<Rightarrow> block list \<Rightarrow> nat \<times> block list" where
  "merge_next n ((k, True) # ys) = (n + 4 + k, ys)"
| "merge_next n ys = (n, ys)"

definition merge_prev :: "block list \<Rightarrow> nat \<Rightarrow> block list \<Rightarrow> block list" where
  "merge_prev xs n ys =
     (if xs \<noteq> [] \<and> snd (last xs) then butlast xs @ (fst (last xs) + 4 + n, True) # ys
      else xs @ (n, True) # ys)"

lemma merge_next_extent: "merge_next n ys = (k, zs) \<Longrightarrow> k + extent zs = n + extent ys"
  by (induction n ys rule: merge_next.induct) auto

lemma merge_next_sizes:
  "merge_next n ys = (k, zs) \<Longrightarrow> n mod 4 = 0 \<Longrightarrow> sizes_ok ys \<Longrightarrow> k mod 4 = 0 \<and> sizes_ok zs"
  by (induction n ys rule: merge_next.induct) auto

text \<open>\<open>release_block\<close> in its two halves.\<close>

definition free_and_merge_next :: "u32 \<Rightarrow> u32 \<Rightarrow> 'a heap_scheme \<Rightarrow> 'a heap_scheme" where
  "free_and_merge_next mcb nxt s =
     (let s = put_mcb mcb (mcb_setfree (mcbs s mcb)) s
      in if nxt \<noteq> NULL \<and> mcb_isfree (mcbs s nxt)
         then put_mcb mcb (mcb_copyend (mcbs s mcb + (mcb_size (mcbs s nxt) + 4)) (mcbs s nxt)) s else s)"

definition merge_into_prev :: "u32 \<Rightarrow> u32 \<Rightarrow> 'a heap_scheme \<Rightarrow> 'a heap_scheme" where
  "merge_into_prev prev mcb s =
     (if prev \<noteq> NULL \<and> mcb_isfree (mcbs s prev)
      then put_mcb prev (mcb_copyend (mcbs s prev + (mcb_size (mcbs s mcb) + 4)) (mcbs s mcb)) s else s)"

lemma release_block_halves:
  "mcb \<noteq> nxt \<Longrightarrow> prev \<noteq> mcb \<Longrightarrow>
   release_block prev mcb nxt s = merge_into_prev prev mcb (free_and_merge_next mcb nxt s)"
  by (auto simp: release_block_def free_and_merge_next_def merge_into_prev_def Let_def)

lemma free_and_merge_next_eq:
  assumes c: "chain (mcbs s) a (xs @ (n, False) # ys)" and a: "0 < a" "a + extent (xs @ (n, False) # ys) < 2 ^ 32"
    and ok: "sizes_ok (xs @ (n, False) # ys)" and mn: "merge_next n ys = (k, zs)"
  shows "free_and_merge_next (of_nat (a + extent xs)) (next_hdr (a + extent xs) ((n, False) # ys)) s =
    put_mcb (of_nat (a + extent xs)) (hdr k True (zs = [])) s"
proof -
  let ?b = "a + extent xs"
  have w: "mcbs s (of_nat ?b) = hdr n False (ys = [])" "linked (mcbs s) a xs"
    and cy: "ys \<noteq> [] \<Longrightarrow> chain (mcbs s) (?b + 4 + n) ys"
    using c by (auto simp: chain_append add_ac)
  show ?thesis
  proof (cases ys)
    case Nil
    then show ?thesis using w mn ok
      by (auto simp: free_and_merge_next_def next_hdr_def Let_def simp del: of_nat_add)
  next
    case (Cons y ys1)
    obtain l g where y: "y = (l, g)" by (cases y)
    have nz: "(of_nat (?b + 4 + n) :: u32) \<noteq> NULL"
      using a Cons y by (intro of_nat_addr_zero) auto
    have ne: "(of_nat (?b + 4 + n) :: u32) \<noteq> of_nat ?b"
      using a Cons y by (subst of_nat_addr_eq) auto
    have wy: "mcbs s (of_nat (?b + 4 + n)) = hdr l g (ys1 = [])"
      using cy Cons y by simp
    show ?thesis using w(1) wy nz ne mn ok Cons y
      by (cases g) (auto simp: free_and_merge_next_def next_hdr_def Let_def simp del: of_nat_add)
  qed
qed

lemma chain_merge_next:
  assumes c: "chain m a (xs @ (n, False) # ys)" and a: "a + extent (xs @ (n, False) # ys) < 2 ^ 32"
    and mn: "merge_next n ys = (k, zs)"
  shows "chain (m(of_nat (a + extent xs) := hdr k True (zs = []))) a (xs @ (k, True) # zs)"
  using mn
proof (cases rule: merge_next.elims)
  case (1 l ys')
  then show ?thesis
    using chain_replace [of m a xs "[(n, False), (l, True)]" ys' k True] c a by simp
qed (use chain_replace [of m a xs "[(n, False)]" ys n True] c a in auto)

lemma merge_into_prev_eq:
  assumes c: "chain (mcbs s) a (xs @ (n, True) # ys)" and a: "0 < a" "a + extent (xs @ (n, True) # ys) < 2 ^ 32"
    and ok: "sizes_ok (xs @ (n, True) # ys)"
  shows "\<exists>m. merge_into_prev (if xs = [] then NULL else of_nat (a + extent (butlast xs)))
               (of_nat (a + extent xs)) s = s\<lparr>mcbs := m\<rparr> \<and> chain m a (merge_prev xs n ys)"
proof (cases xs rule: rev_cases)
  case Nil
  then show ?thesis using c by (auto simp: merge_into_prev_def merge_prev_def intro!: exI [of _ "mcbs s"])
next
  case (snoc us v)
  obtain k g where v: "v = (k, g)" by (cases v)
  let ?p = "a + extent us"
  have "chain (mcbs s) ?p ((k, g) # (n, True) # ys)"
    using c snoc v by (simp add: chain_append)
  then have w: "mcbs s (of_nat ?p) = hdr k g False" "mcbs s (of_nat (?p + 4 + k)) = hdr n True (ys = [])"
    by simp_all
  have nz: "(of_nat ?p :: u32) \<noteq> NULL" using a snoc v by (intro of_nat_addr_zero) auto
  show ?thesis
  proof (cases g)
    case False
    then show ?thesis using c snoc v w nz ok
      by (auto simp: merge_into_prev_def merge_prev_def simp del: of_nat_add intro!: exI [of _ "mcbs s"])
  next
    case True
    let ?m = "(mcbs s)(of_nat ?p := hdr (k + 4 + n) True (ys = []))"
    have "merge_into_prev (of_nat ?p) (of_nat (?p + 4 + k)) s = s\<lparr>mcbs := ?m\<rparr>"
      using True w nz ok snoc v by (auto simp: merge_into_prev_def put_mcb_def simp del: of_nat_add)
    moreover have "chain ?m a (us @ (k + 4 + n, True) # ys)"
      using chain_replace [of "mcbs s" a us "[(k, True), (n, True)]" ys "k + 4 + n" True] c a snoc v True
      by simp
    ultimately show ?thesis
      using snoc v True by (intro exI [of _ ?m]) (simp add: merge_prev_def add_ac)
  qed
qed

lemma linked_addr_less: "xs \<noteq> [] \<Longrightarrow> extent (butlast xs) < extent xs"
  by (induction xs rule: extent.induct) auto

lemma release_block_refines:
  assumes c: "chain (mcbs s) a (xs @ (n, False) # ys)" and a: "0 < a" "a + extent (xs @ (n, False) # ys) < 2 ^ 32"
    and ok: "sizes_ok (xs @ (n, False) # ys)" and mn: "merge_next n ys = (k, zs)"
  shows "\<exists>m. release_block (if xs = [] then NULL else of_nat (a + extent (butlast xs))) (of_nat (a + extent xs))
               (next_hdr (a + extent xs) ((n, False) # ys)) s = s\<lparr>mcbs := m\<rparr> \<and> chain m a (merge_prev xs k zs)"
proof -
  let ?b = "a + extent xs"
  let ?p = "if xs = [] then NULL else of_nat (a + extent (butlast xs)) :: u32"
  let ?s = "put_mcb (of_nat ?b) (hdr k True (zs = [])) s"
  have b: "?b < 2 ^ 32" "ys \<noteq> [] \<Longrightarrow> ?b + 4 + n < 2 ^ 32"
    using a by auto
  have "(of_nat ?b :: u32) \<noteq> NULL" using a b by (intro of_nat_addr_zero) auto
  then have n1: "?p \<noteq> of_nat ?b"
    using b linked_addr_less [of xs] of_nat_addr_eq [of "a + extent (butlast xs)" ?b] by auto
  have n2: "of_nat ?b \<noteq> next_hdr ?b ((n, False) # ys)"
    using b \<open>of_nat ?b \<noteq> NULL\<close> of_nat_addr_eq [of ?b "?b + 4 + n"] by (simp add: next_hdr_def del: of_nat_add)
  have ch: "chain (mcbs ?s) a (xs @ (k, True) # zs)"
    using chain_merge_next [OF c a(2) mn] by (simp del: of_nat_add)
  have ex: "a + extent (xs @ (k, True) # zs) < 2 ^ 32" "sizes_ok (xs @ (k, True) # zs)"
    using a merge_next_extent [OF mn] merge_next_sizes [OF mn] ok by auto
  obtain m where m: "merge_into_prev ?p (of_nat ?b) ?s = ?s\<lparr>mcbs := m\<rparr>" "chain m a (merge_prev xs k zs)"
    using merge_into_prev_eq [OF ch a(1) ex] by blast
  have "release_block ?p (of_nat ?b) (next_hdr ?b ((n, False) # ys)) s = merge_into_prev ?p (of_nat ?b) ?s"
    using release_block_halves [OF n2 n1, of s] free_and_merge_next_eq [OF c a ok mn] by simp
  then show ?thesis using m by (auto simp: put_mcb_def)
qed

lemma free_loop_refines:
  assumes c: "chain (mcbs s) a bs" and a: "0 < a" "a + extent bs < 2 ^ 32" "sizes_ok bs"
    and bs: "bs = xs @ (n, False) # ys" "mark_free (a + extent xs + 4) a xs = None" and mn: "merge_next n ys = (k, zs)"
  shows "\<exists>m. free_loop (of_nat (a + extent xs + 4)) NULL (of_nat a) (next_hdr a bs) s = Some (Inr (0, s\<lparr>mcbs := m\<rparr>)) \<and>
             chain m a (merge_prev xs k zs)"
proof -
  let ?b = "a + extent xs"
  let ?p = "if xs = [] then NULL else of_nat (a + extent (butlast xs)) :: u32"
  have w: "mcbs s (of_nat ?b) = hdr n False (ys = [])" "n mod 4 = 0"
    using c a bs by (auto simp: chain_append)
  have nz: "(of_nat ?b :: u32) \<noteq> NULL" using a bs by (intro of_nat_addr_zero) auto
  have "free_loop (of_nat (?b + 4)) NULL (of_nat a) (next_hdr a bs) s =
      free_loop (of_nat (?b + 4)) ?p (of_nat ?b) (next_hdr ?b ((n, False) # ys)) s"
    unfolding bs(1) using a bs c by (intro free_loop_walk) auto
  also have "\<dots> = Some (Inr (0, release_block ?p (of_nat ?b) (next_hdr ?b ((n, False) # ys)) s))"
    using nz w by (subst free_loop.simps) (simp add: mcb_start_def)
  finally show ?thesis
    using release_block_refines [of s a xs n ys k zs] c a bs mn by auto
qed

subsection \<open>The specifications on merged lists\<close>

lemma merged_Cons: "merged ((n, f) # bs) \<longleftrightarrow> merged bs \<and> (bs \<noteq> [] \<longrightarrow> \<not> (f \<and> snd (hd bs)))"
  by (cases bs) auto

lemma merged_append:
  "merged (xs @ ys) \<longleftrightarrow> merged xs \<and> merged ys \<and> (xs \<noteq> [] \<and> ys \<noteq> [] \<longrightarrow> \<not> (snd (last xs) \<and> snd (hd ys)))"
  by (induction xs) (auto simp: merged_Cons hd_append)

lemma coalesce_used: "coalesce ((n, False) # bs) = (n, False) # coalesce bs"
  by (cases bs) auto

lemma coalesce_merged: "merged bs \<Longrightarrow> coalesce bs = bs"
  by (induction bs rule: coalesce.induct) (auto simp: merged_Cons)

lemma coalesce_merge_next: "merge_next n ys = (k, zs) \<Longrightarrow> coalesce ((n, True) # ys) = coalesce ((k, True) # zs)"
  by (cases "(n, ys)" rule: merge_next.cases) auto

lemma merged_merge_next: "merge_next n ys = (k, zs) \<Longrightarrow> merged ys \<Longrightarrow> merged ((k, True) # zs)"
  by (cases "(n, ys)" rule: merge_next.cases) (auto simp: merged_Cons)

lemma coalesce_append:
  "merged xs \<Longrightarrow> xs = [] \<or> \<not> snd (last xs) \<Longrightarrow> coalesce (xs @ ys) = xs @ coalesce ys"
proof (induction xs)
  case (Cons x xs)
  obtain n f where x: "x = (n, f)" by (cases x)
  show ?case
  proof (cases f)
    case False
    then show ?thesis using Cons x by (auto simp: merged_Cons coalesce_used split: if_splits)
  next
    case True
    with Cons.prems x obtain k bs where "xs = (k, False) # bs"
      by (cases xs) (auto simp: merged_Cons)
    then show ?thesis using Cons x True by (auto simp: merged_Cons coalesce_used)
  qed
qed simp

lemma merge_prev_eq:
  assumes m: "merged (xs @ (n, False) # ys)" and mn: "merge_next n ys = (k, zs)"
  shows "merge_prev xs k zs = coalesce (xs @ (n, True) # ys)" "merged (merge_prev xs k zs)"
proof -
  have ys: "merged ys" "merged xs" using m by (auto simp: merged_append merged_Cons)
  have z: "merged ((k, True) # zs)" using merged_merge_next [OF mn ys(1)] .
  have cn: "coalesce ((n, True) # ys) = (k, True) # zs"
    using coalesce_merge_next [OF mn] coalesce_merged [OF z] by simp
  show "merged (merge_prev xs k zs)"
    using ys(2) z by (cases xs rule: rev_cases) (auto simp: merge_prev_def merged_append merged_Cons)
  show "merge_prev xs k zs = coalesce (xs @ (n, True) # ys)"
  proof (cases "xs \<noteq> [] \<and> snd (last xs)")
    case False
    then show ?thesis using coalesce_append [of xs "(n, True) # ys"] ys cn by (auto simp: merge_prev_def)
  next
    case True
    then obtain us l where x: "xs = us @ [(l, True)]"
      by (metis append_butlast_last_id prod.collapse)
    have us: "merged us" "us = [] \<or> \<not> snd (last us)"
      using ys(2) x by (auto simp: merged_append)
    have mn': "merge_next (l + 4 + n) ys = (l + 4 + k, zs)"
      using mn by (cases "(n, ys)" rule: merge_next.cases) auto
    have "coalesce (xs @ (n, True) # ys) = us @ coalesce ((l + 4 + n, True) # ys)"
      using coalesce_append [OF us, of "(l, True) # (n, True) # ys"] x by simp
    also have "coalesce ((l + 4 + n, True) # ys) = (l + 4 + k, True) # zs"
      using coalesce_merge_next [OF mn'] coalesce_merged [of "(l + 4 + k, True) # zs"] z
      by (simp add: merged_Cons)
    finally show ?thesis using x by (simp add: merge_prev_def)
  qed
qed

lemma first_fit_sizes:
  "first_fit k a bs = Some (p, bs') \<Longrightarrow> k mod 4 = 0 \<Longrightarrow> sizes_ok bs \<Longrightarrow> sizes_ok bs'"
  by (induction k a bs arbitrary: bs' rule: first_fit.induct)
     (auto split: if_splits simp: dvd_diff_nat mod_eq_0_iff_dvd)

lemma first_fit_extent: "first_fit k a bs = Some (p, bs') \<Longrightarrow> extent bs' = extent bs"
  by (induction k a bs arbitrary: bs' rule: first_fit.induct) (auto split: if_splits)

lemma first_fit_merged:
  "first_fit k a bs = Some (p, bs') \<Longrightarrow> merged bs \<Longrightarrow>
   merged bs' \<and> bs' \<noteq> [] \<and> bs \<noteq> [] \<and> (snd (hd bs') \<longrightarrow> snd (hd bs))"
proof (induction k a bs arbitrary: bs' rule: first_fit.induct)
  case (2 sz a n f bs)
  show ?case
  proof (cases "f \<and> sz \<le> n")
    case True
    then show ?thesis using "2.prems" by (auto simp: merged_Cons split: if_splits)
  next
    case False
    then obtain bs1 where "first_fit sz (a + 4 + n) bs = Some (p, bs1)" "bs' = (n, f) # bs1"
      using "2.prems" by (auto split: if_splits)
    then show ?thesis using "2.IH" [OF False, of bs1] "2.prems" by (auto simp: merged_Cons)
  qed
qed simp

lemma coalesce_extent [simp]: "extent (coalesce bs) = extent bs"
  by (induction bs rule: coalesce.induct) auto

lemma coalesce_sizes: "sizes_ok bs \<Longrightarrow> sizes_ok (coalesce bs)"
  by (induction bs rule: coalesce.induct) (auto simp: dvd_add mod_eq_0_iff_dvd)

lemma mark_free_extent: "mark_free p a bs = Some bs' \<Longrightarrow> extent bs' = extent bs"
  by (induction p a bs arbitrary: bs' rule: mark_free.induct) (auto split: if_splits)

lemma mark_free_sizes: "mark_free p a bs = Some bs' \<Longrightarrow> sizes_ok bs' = sizes_ok bs"
  by (induction p a bs arbitrary: bs' rule: mark_free.induct) (auto split: if_splits)

text \<open>The memory a client holds: address and size of every allocated block.\<close>

fun allocated :: "nat \<Rightarrow> block list \<Rightarrow> (nat \<times> nat) set" where
  "allocated a [] = {}"
| "allocated a ((n, f) # bs) = (if f then {} else {(a + 4, n)}) \<union> allocated (a + 4 + n) bs"

lemma allocated_range: "(p, n) \<in> allocated a bs \<Longrightarrow> a + 4 \<le> p \<and> p + n \<le> a + extent bs"
  by (induction a bs rule: allocated.induct) (auto split: if_splits)

lemma allocated_disjoint:
  "(p, n) \<in> allocated a bs \<Longrightarrow> (q, m) \<in> allocated a bs \<Longrightarrow> (p, n) \<noteq> (q, m) \<Longrightarrow>
   p + n + 4 \<le> q \<or> q + m + 4 \<le> p"
  by (induction a bs rule: allocated.induct) (auto split: if_splits dest: allocated_range)

lemma allocated_coalesce [simp]: "allocated a (coalesce bs) = allocated a bs"
  by (induction bs arbitrary: a rule: coalesce.induct) (auto simp: add.assoc)

lemma first_fit_allocated:
  "first_fit k a bs = Some (p, bs') \<Longrightarrow>
   \<exists>n. k \<le> n \<and> n \<le> k + 4 \<and> allocated a bs' = insert (p, n) (allocated a bs) \<and> p \<notin> fst ` allocated a bs"
proof (induction k a bs arbitrary: bs' rule: first_fit.induct)
  case (2 sz a n f bs)
  show ?case
  proof (cases "f \<and> sz \<le> n")
    case True
    have "\<forall>q \<in> allocated (a + 4 + n) bs. fst q \<noteq> a + 4" by (auto dest!: allocated_range)
    then show ?thesis using True "2.prems"
      by (intro exI [of _ "if sz + 4 < n then sz else n"]) (fastforce simp: add_ac split: if_splits)
  next
    case False
    then obtain bs1 where bs1: "first_fit sz (a + 4 + n) bs = Some (p, bs1)" "bs' = (n, f) # bs1"
      using "2.prems" by (auto split: if_splits)
    from "2.IH" [OF False bs1(1)] obtain l where l: "sz \<le> l" "l \<le> sz + 4"
      "allocated (a + 4 + n) bs1 = insert (p, l) (allocated (a + 4 + n) bs)"
      "p \<notin> fst ` allocated (a + 4 + n) bs" by blast
    then have "a + 4 < p" using allocated_range [of p l "a + 4 + n" bs1] by auto
    then show ?thesis using l bs1 by (auto intro!: exI [of _ l])
  qed
qed simp

lemma start_not_allocated [simp]: "(a + 4, k) \<notin> allocated (a + 4 + n) bs"
  by (auto dest!: allocated_range)

lemma mark_free_allocated:
  "mark_free p a bs = Some bs' \<Longrightarrow> allocated a bs' = {(q, n) \<in> allocated a bs. q \<noteq> p}"
  by (induction p a bs arbitrary: bs' rule: mark_free.induct)
     (auto split: if_splits dest: allocated_range)

lemma mark_free_None_iff: "mark_free p a bs = None \<longleftrightarrow> p \<notin> fst ` allocated a bs"
  by (induction p a bs rule: mark_free.induct) (auto simp: image_iff)

lemma hdr_inject:
  assumes "hdr n f e = hdr n' f' e'" "n mod 4 = 0" "n' mod 4 = 0" "n < 2 ^ 32" "n' < 2 ^ 32"
  shows "n = n' \<and> f = f' \<and> e = e'"
proof -
  have "mcb_size (hdr n f e) = mcb_size (hdr n' f' e')" "mcb_isfree (hdr n f e) = mcb_isfree (hdr n' f' e')"
    "mcb_isend (hdr n f e) = mcb_isend (hdr n' f' e')"
    by (simp_all only: assms(1))
  then show ?thesis using assms(2-) of_nat_addr_eq [of n n'] by simp
qed

lemma chain_unique:
  "chain m a bs \<Longrightarrow> chain m a bs' \<Longrightarrow> sizes_ok bs \<Longrightarrow> sizes_ok bs' \<Longrightarrow>
   a + extent bs < 2 ^ 32 \<Longrightarrow> a + extent bs' < 2 ^ 32 \<Longrightarrow> bs = bs'"
proof (induction m a bs arbitrary: bs' rule: chain.induct)
  case (2 m a n f bs)
  obtain n' f' bs1 where b: "bs' = (n', f') # bs1" using "2.prems"(2) by (cases bs') auto
  have "n = n' \<and> f = f' \<and> (bs = []) = (bs1 = [])"
    using "2.prems" b by (intro hdr_inject) auto
  then show ?case using "2.IH" [of bs1] "2.prems" b by auto
qed simp

section \<open>Operations on the heap\<close>

lemma heap_blocks_unique: "heap_blocks s bs \<Longrightarrow> heap_blocks s bs' \<Longrightarrow> bs = bs'"
  by (auto simp: heap_blocks_def intro: chain_unique)

lemma allocate_memory_refines:
  assumes h: "heap_blocks s bs"
  shows "case first_fit (unat (roundup sz)) (unat (memlist s)) bs of
      None \<Rightarrow> allocate_memory sz s = Some (Inr (NULL, s))
    | Some (p, bs') \<Rightarrow>
        \<exists>m. allocate_memory sz s = Some (Inr (of_nat p, s\<lparr>mcbs := m\<rparr>)) \<and> heap_blocks (s\<lparr>mcbs := m\<rparr>) bs'"
proof -
  let ?k = "unat (roundup sz)" and ?a = "unat (memlist s)"
  have "allocate_refines s ?k ?a bs"
    using h roundup_aligned [of sz] unsigned_less [of "roundup sz"]
    by (intro allocate_loop_refines) (auto simp: heap_blocks_def)
  moreover have "of_nat ?k = roundup sz" "of_nat ?a = memlist s" by simp_all
  ultimately have r: "case first_fit ?k ?a bs of
      None \<Rightarrow> allocate_memory sz s = Some (Inr (NULL, s))
    | Some (p, bs') \<Rightarrow> \<exists>m. allocate_memory sz s = Some (Inr (of_nat p, s\<lparr>mcbs := m\<rparr>)) \<and> chain m ?a bs'"
    unfolding allocate_refines_def allocate_memory_def by (auto split: option.splits)
  show ?thesis
  proof (cases "first_fit ?k ?a bs")
    case (Some q)
    obtain p bs' where q: "q = (p, bs')" by (cases q)
    have "sizes_ok bs'" "extent bs' = extent bs" "merged bs'"
      using Some q h roundup_aligned [of sz]
        first_fit_sizes [of ?k ?a bs p bs'] first_fit_extent [of ?k ?a bs p bs'] first_fit_merged [of ?k ?a bs p bs']
      by (auto simp: heap_blocks_def)
    then show ?thesis using r Some q h by (auto simp: heap_blocks_def)
  qed (use r in simp)
qed

lemma free_memory_head:
  assumes h: "heap_blocks s bs"
  shows "free_memory p s = free_loop p NULL (of_nat (unat (memlist s))) (next_hdr (unat (memlist s)) bs) s"
proof -
  have "mcb_next (of_nat (unat (memlist s))) s = Inr (next_hdr (unat (memlist s)) bs)"
    using h by (intro mcb_next_hdr) (auto simp: heap_blocks_def)
  then show ?thesis by (simp add: free_memory_def)
qed

lemma free_memory_refines:
  assumes h: "heap_blocks s bs" and m: "mark_free (unat p) (unat (memlist s)) bs = Some bs'"
  shows "\<exists>m. free_memory p s = Some (Inr (0, s\<lparr>mcbs := m\<rparr>)) \<and> heap_blocks (s\<lparr>mcbs := m\<rparr>) (coalesce bs')"
proof -
  let ?a = "unat (memlist s)"
  from mark_free_split [OF m] obtain xs n ys where
    bs: "bs = xs @ (n, False) # ys" "bs' = xs @ (n, True) # ys" "unat p = ?a + extent xs + 4" "mark_free (unat p) ?a xs = None"
    by blast
  obtain k zs where mn: "merge_next n ys = (k, zs)" by fastforce
  have p: "p = of_nat (?a + extent xs + 4)" unfolding bs(3) [symmetric] by simp
  obtain m' where m': "free_memory p s = Some (Inr (0, s\<lparr>mcbs := m'\<rparr>))" "chain m' ?a (merge_prev xs k zs)"
    using free_loop_refines [of s ?a bs xs n ys k zs] h bs mn free_memory_head [OF h, of p] p
    by (auto simp: heap_blocks_def)
  have mp: "merge_prev xs k zs = coalesce bs'" "merged (coalesce bs')"
    using merge_prev_eq [of xs n ys k zs] mn h bs by (auto simp: heap_blocks_def)
  have "sizes_ok (coalesce bs')" "extent (coalesce bs') = extent bs"
    using h mark_free_sizes [OF m] mark_free_extent [OF m] by (auto simp: heap_blocks_def coalesce_sizes)
  then show ?thesis using h m' mp by (auto simp: heap_blocks_def)
qed

lemma free_memory_missing:
  assumes h: "heap_blocks s bs" and m: "mark_free (unat p) (unat (memlist s)) bs = None"
  shows "free_memory p s = Some (Inl Null_Deref)"
  using free_loop_missing [OF m, of s NULL] h free_memory_head [OF h, of p] unsigned_less [of p]
  by (auto simp: heap_blocks_def)

section \<open>The contract of the allocator\<close>

text \<open>
  What a client of \<open>sys_alloc_mem\<close>/\<open>sys_free_mem\<close> relies on. \<open>live s\<close> is the memory handed
  out and not yet released, as pairs of address and size.
\<close>

locale allocator =
  fixes alloc_op :: "u32 \<Rightarrow> 's \<Rightarrow> (u32 \<times> 's) checked option"
    and free_op :: "u32 \<Rightarrow> 's \<Rightarrow> (int \<times> 's) checked option"
    and inv :: "'s \<Rightarrow> bool"
    and live :: "'s \<Rightarrow> (nat \<times> nat) set"
  assumes alloc_law: "inv s \<Longrightarrow>
      \<exists>p s'. alloc_op sz s = Some (Inr (p, s')) \<and> inv s' \<and>
        (if p = NULL then s' = s
         else \<exists>n. (unat sz \<le> 2 ^ 32 - 4 \<longrightarrow> unat sz \<le> n) \<and> unat p \<notin> fst ` live s \<and>
                  live s' = insert (unat p, n) (live s))"
    and free_law: "inv s \<Longrightarrow> unat p \<in> fst ` live s \<Longrightarrow>
      \<exists>s'. free_op p s = Some (Inr (0, s')) \<and> inv s' \<and> live s' = {(q, n) \<in> live s. q \<noteq> unat p}"
    and live_disjoint: "inv s \<Longrightarrow> (x, n) \<in> live s \<Longrightarrow> (y, m) \<in> live s \<Longrightarrow> (x, n) \<noteq> (y, m) \<Longrightarrow>
      x + n < y \<or> y + m < x"
begin

lemma alloc_free:
  assumes "inv s" "alloc_op sz s = Some (Inr (p, s'))" "p \<noteq> NULL"
  shows "\<exists>s''. free_op p s' = Some (Inr (0, s'')) \<and> inv s'' \<and> live s'' = live s"
proof -
  from alloc_law [OF assms(1), of sz] obtain n where
    n: "inv s'" "unat p \<notin> fst ` live s" "live s' = insert (unat p, n) (live s)"
    using assms by auto
  moreover obtain s'' where "free_op p s' = Some (Inr (0, s''))" "inv s''" "live s'' = {(q, n) \<in> live s'. q \<noteq> unat p}"
    using free_law [of s' p] n by auto
  moreover have "{(q, m) \<in> insert (unat p, n) (live s). q \<noteq> unat p} = live s"
    using n(2) by force
  ultimately show ?thesis by auto
qed

lemma alloc_separate:
  assumes "inv s" "alloc_op sz s = Some (Inr (p, s'))" "p \<noteq> NULL" "(q, m) \<in> live s" "unat sz \<le> 2 ^ 32 - 4"
  shows "unat p + unat sz < q \<or> q + m < unat p"
proof -
  from alloc_law [OF assms(1), of sz] obtain n where
    "inv s'" "unat p \<notin> fst ` live s" "live s' = insert (unat p, n) (live s)" "unat sz \<le> n"
    using assms by auto
  then show ?thesis using live_disjoint [of s' "unat p" n q m] assms(4) by force
qed

text \<open>The states a client reaches that releases only what it holds.\<close>

inductive client :: "'s \<Rightarrow> 's \<Rightarrow> bool" where
  client_start: "client s s"
| client_alloc: "client s s' \<Longrightarrow> alloc_op sz s' = Some (Inr (p, s'')) \<Longrightarrow> client s s''"
| client_free: "client s s' \<Longrightarrow> unat p \<in> fst ` live s' \<Longrightarrow> free_op p s' = Some (Inr (r, s'')) \<Longrightarrow> client s s''"

lemma client_inv: "client s s' \<Longrightarrow> inv s \<Longrightarrow> inv s'"
proof (induction rule: client.induct)
  case (client_alloc s s' sz p s'')
  then show ?case using alloc_law [of s' sz] by auto
next
  case (client_free s s' p r s'')
  then show ?case using free_law [of s' p] by auto
qed

end

text \<open>The heap of \<open>mem.c\<close> is such an allocator.\<close>

definition heap_ok :: "'a heap_scheme \<Rightarrow> bool" where
  "heap_ok s \<longleftrightarrow> (\<exists>bs. heap_blocks s bs)"

definition heap_live :: "'a heap_scheme \<Rightarrow> (nat \<times> nat) set" where
  "heap_live s = (\<Union>bs \<in> {bs. heap_blocks s bs}. allocated (unat (memlist s)) bs)"

lemma heap_live_eq: "heap_blocks s bs \<Longrightarrow> heap_live s = allocated (unat (memlist s)) bs"
  by (auto simp: heap_live_def dest: heap_blocks_unique)

lemma roundup_ge:
  assumes "unat sz \<le> 2 ^ 32 - 4"
  shows "unat sz \<le> unat (roundup sz)"
proof (cases "sz AND 3 = 0")
  case False
  have d: "unat (sz AND NOT 3) = 4 * (unat sz div 4)"
  proof -
    have "unat (sz AND NOT 3) = take_bit 32 (push_bit 2 (drop_bit 2 (unat sz)))"
      unfolding three_mask and_not_mask 
      by (simp only: unsigned_push_bit_eq unsigned_drop_bit_eq)
         (use unsigned_less [of sz, where 'a = nat] in \<open>simp add: take_bit_eq_mod\<close>)
    also have "\<dots> = 4 * (unat sz div 4) mod 2 ^ 32"
      by (simp add: push_bit_eq_mult drop_bit_eq_div take_bit_eq_mod mult.commute)
    finally show ?thesis using unsigned_less [of sz, where 'a = nat] by simp
  qed
  have "unat sz mod 4 \<noteq> 0"
  proof
    assume "unat sz mod 4 = 0"
    moreover have "unat (take_bit 2 sz) = take_bit 2 (unat sz)" by (simp add: unsigned_take_bit_eq)
    ultimately have "unat (take_bit 2 sz) = 0" by (simp only: take_bit_eq_mod) simp
    then have "take_bit 2 sz = 0" by (rule unsigned_eq_0_iff [THEN iffD1])
    then show False using False by (simp add: three_mask take_bit_eq_mask)
  qed
  then have "4 * (unat sz div 4) + 4 < 2 ^ 32" "unat sz < 4 * (unat sz div 4) + 4"
    using assms mult_div_mod_eq [of 4 "unat sz"] by presburger+
  then have "unat (roundup sz) = 4 * (unat sz div 4) + 4"
    using False d unat_add_lem [of "sz AND NOT 3" 4] by (simp add: roundup_def)
  then show ?thesis using \<open>unat sz < 4 * (unat sz div 4) + 4\<close> by simp
qed (simp add: roundup_def)

lemma heap_alloc_law:
  assumes "heap_ok s"
  shows "\<exists>p s'. allocate_memory sz s = Some (Inr (p, s')) \<and> heap_ok s' \<and>
        (if p = NULL then s' = s
         else \<exists>n. (unat sz \<le> 2 ^ 32 - 4 \<longrightarrow> unat sz \<le> n) \<and> unat p \<notin> fst ` heap_live s \<and>
                  heap_live s' = insert (unat p, n) (heap_live s))"
proof -
  obtain bs where h: "heap_blocks s bs" using assms by (auto simp: heap_ok_def)
  let ?k = "unat (roundup sz)" and ?a = "unat (memlist s)"
  show ?thesis
  proof (cases "first_fit ?k ?a bs")
    case None
    then show ?thesis using allocate_memory_refines [OF h, of sz] assms by simp
  next
    case (Some r)
    obtain p bs' where r: "r = (p, bs')" by (cases r)
    obtain m where m: "allocate_memory sz s = Some (Inr (of_nat p, s\<lparr>mcbs := m\<rparr>))" "heap_blocks (s\<lparr>mcbs := m\<rparr>) bs'"
      using allocate_memory_refines [OF h, of sz] Some r by auto
    obtain n where n: "?k \<le> n" "allocated ?a bs' = insert (p, n) (allocated ?a bs)" "p \<notin> fst ` allocated ?a bs"
      using first_fit_allocated [of ?k ?a bs p bs'] Some r by auto
    have "p \<le> ?a + extent bs'" "0 < p" using allocated_range [of p n ?a bs'] n(2) by auto
    then have p: "unat (of_nat p :: u32) = p" "(of_nat p :: u32) \<noteq> NULL"
      using m(2) unat_of_nat32 [of p] of_nat_addr_zero [of p] by (auto simp: heap_blocks_def)
    have "unat sz \<le> 2 ^ 32 - 4 \<Longrightarrow> unat sz \<le> n" using n(1) roundup_ge [of sz] by simp
    then have "\<exists>n. (unat sz \<le> 2 ^ 32 - 4 \<longrightarrow> unat sz \<le> n) \<and> unat (of_nat p :: u32) \<notin> fst ` heap_live s \<and>
        heap_live (s\<lparr>mcbs := m\<rparr>) = insert (unat (of_nat p :: u32), n) (heap_live s)"
      using n heap_live_eq [OF h] heap_live_eq [OF m(2)] p by (intro exI [of _ n]) auto
    then show ?thesis
      using m p(2) by (intro exI [of _ "of_nat p"] exI [of _ "s\<lparr>mcbs := m\<rparr>"]) (auto simp: heap_ok_def)
  qed
qed

text \<open>Neither operation touches anything but the header words.\<close>

lemma allocate_memory_frame:
  assumes "heap_ok s" "allocate_memory sz s = Some (Inr (p, s'))"
  shows "s' = s\<lparr>mcbs := mcbs s'\<rparr>"
proof -
  obtain bs where h: "heap_blocks s bs" using assms by (auto simp: heap_ok_def)
  show ?thesis
    using allocate_memory_refines [OF h, of sz] assms(2)
    by (cases "first_fit (unat (roundup sz)) (unat (memlist s)) bs") auto
qed

lemma heap_free_law:
  assumes "heap_ok s" "unat p \<in> fst ` heap_live s"
  shows "\<exists>s'. free_memory p s = Some (Inr (0, s')) \<and> heap_ok s' \<and>
    heap_live s' = {(q, n) \<in> heap_live s. q \<noteq> unat p}"
proof -
  obtain bs where h: "heap_blocks s bs" using assms by (auto simp: heap_ok_def)
  let ?a = "unat (memlist s)"
  obtain bs' where m: "mark_free (unat p) ?a bs = Some bs'"
    using assms(2) mark_free_None_iff [of "unat p" ?a bs] heap_live_eq [OF h] by (cases "mark_free (unat p) ?a bs") auto
  obtain m' where m': "free_memory p s = Some (Inr (0, s\<lparr>mcbs := m'\<rparr>))" "heap_blocks (s\<lparr>mcbs := m'\<rparr>) (coalesce bs')"
    using free_memory_refines [OF h m] by auto
  then show ?thesis
    using heap_live_eq [OF h] heap_live_eq [OF m'(2)] mark_free_allocated [OF m] by (auto simp: heap_ok_def)
qed

lemma heap_live_disjoint:
  assumes "heap_ok s" "(p, n) \<in> heap_live s" "(q, m) \<in> heap_live s" "(p, n) \<noteq> (q, m)"
  shows "p + n < q \<or> q + m < p"
  using assms allocated_disjoint [of p n _ _ q m] by (fastforce simp: heap_ok_def heap_live_eq)

interpretation mem: allocator allocate_memory free_memory heap_ok heap_live
  by unfold_locales (fact heap_alloc_law heap_free_law heap_live_disjoint)+

subsection \<open>initialize_heap\<close>

lemma initialize_heap_eq:
  assumes k: "kheap_ok s" and sz: "unat (roundup sz) + 4 < 2 ^ 32"
    "unat (heap_addr s) + (unat (roundup sz) + 4) \<le> unat (KHEAP_BASE + KHEAP_SIZE)"
  shows "\<exists>s'. initialize_heap sz s = Inr s' \<and> heap_blocks s' [(unat (roundup sz), True)] \<and>
    memlist s' = heap_addr s \<and> kheap_ok s' \<and>
    s' = s\<lparr>heap_addr := heap_addr s + (roundup sz + 4), memlist := heap_addr s, mcbs := mcbs s'\<rparr>"
proof -
  let ?n = "unat (roundup sz)" and ?sz = "roundup sz + 4"
  have u: "unat ?sz = ?n + 4" using sz(1) unat_add_lem [of "roundup sz" 4] by simp
  have fits: "unat (heap_addr s) + unat ?sz \<le> unat (KHEAP_BASE + KHEAP_SIZE)"
    using sz(2) by (simp only: u)
  have nz: "heap_addr s \<noteq> NULL" "0 < unat (heap_addr s)"
    using k by (auto simp: kheap_ok_def word_le_nat_alt)
  have al: "?n mod 4 = 0" by (rule roundup_aligned)
  have w: "roundup sz OR (1 OR 2) = hdr ?n True True"
  proof -
    have "roundup sz = hdr ?n False False" by (simp add: hdr_def)
    then show ?thesis
      using hdr_setend [OF al] hdr_setfree [OF al] by (metis mcb_setfree_def or.assoc)
  qed
  let ?s = "(s\<lparr>heap_addr := heap_addr s + ?sz\<rparr>)\<lparr>memlist := heap_addr s\<rparr>"
  have "initialize_heap sz s = Inr (put_mcb (heap_addr s) (hdr ?n True True) ?s)"
    using kmalloc_heap [OF k fits, of False] nz w by (simp add: initialize_heap_def Let_def or.assoc)
  moreover have "kheap_ok (put_mcb (heap_addr s) (hdr ?n True True) ?s)"
    using alloc_eq(3) [OF k fits] by (simp add: kheap_ok_def put_mcb_def)
  moreover have "put_mcb a w ?s = s\<lparr>heap_addr := heap_addr s + ?sz, memlist := heap_addr s, mcbs := mcbs (put_mcb a w ?s)\<rparr>" for a w
    by (simp add: put_mcb_def)
  ultimately show ?thesis
    using sz al nz by (intro exI [of _ "put_mcb (heap_addr s) (hdr ?n True True) ?s"]) (simp add: heap_blocks_def)
qed

section \<open>Properties\<close>

text \<open>A heap at 0x1000 with the given header words.\<close>

definition heap_at :: "(u32 \<Rightarrow> u32) \<Rightarrow> heap" where
  "heap_at m = \<lparr>env = (\<lambda>_ _. 0), reads = 0, trace = [], initialized = (\<lambda>_. 0), gdtr = None, data_segs = [],
     idt_entries = [], idtr_size = None, frames = [], kdir = 0,
     kdir_mem = \<lparr>dir_tables = (\<lambda>_. 0), tables_phys = (\<lambda>_. 0)\<rparr>,
     page_tables = (\<lambda>_ _. zero_entry), phys_alloc_addr = 0,
     heap_is_initialized = True, heap_addr = KHEAP_BASE, cr3 = None,
     memlist = 0x1000, mcbs = m, malloc_function = None, free_function = None\<rparr>"

text \<open>Two blocks in use (8 and 4 bytes), then 100 free bytes.\<close>

definition two_used :: heap where
  "two_used = heap_at (\<lambda>a. if a = 0x1000 then 8 else if a = 0x100c then 4 else if a = 0x1014 then 103 else 0)"

lemma two_used_blocks: "heap_blocks two_used [(8, False), (4, False), (100, True)]"
  by (simp add: two_used_def heap_at_def heap_blocks_def hdr_def)

lemma two_used_memlist: "memlist two_used = 0x1000"
  by (simp add: two_used_def heap_at_def)

text \<open>
  C1. \<open>allocate_memory\<close> is first fit on the block list: on every well-formed heap it returns; it
  takes the first free block that is large enough, splits off the remainder when a header and
  more fit there, and yields the address of its bytes, with the heap well-formed again; when
  no block fits it returns \<open>NULL\<close> and changes nothing.
\<close>

theorem allocate_memory_first_fit:
  assumes "heap_blocks s bs"
  shows "case first_fit (unat (roundup sz)) (unat (memlist s)) bs of
      None \<Rightarrow> allocate_memory sz s = Some (Inr (NULL, s))
    | Some (p, bs') \<Rightarrow>
        \<exists>m. allocate_memory sz s = Some (Inr (of_nat p, s\<lparr>mcbs := m\<rparr>)) \<and> heap_blocks (s\<lparr>mcbs := m\<rparr>) bs'"
  using allocate_memory_refines [OF assms] .

theorem allocate_memory_first_fit_witness:
  "\<exists>m. allocate_memory 10 two_used = Some (Inr (0x1018, two_used\<lparr>mcbs := m\<rparr>)) \<and>
     heap_blocks (two_used\<lparr>mcbs := m\<rparr>) [(8, False), (4, False), (12, False), (84, True)]"
  using allocate_memory_first_fit [OF two_used_blocks, of 10] by (simp add: two_used_memlist roundup_def)

text \<open>
  C5. \<open>free_memory\<close> of an allocated block returns 0, marks the block free and merges it with its
  free neighbours: afterwards the heap is well-formed, with no two free blocks side by side.
\<close>

theorem free_memory_coalesces:
  assumes "heap_blocks s bs" "mark_free (unat p) (unat (memlist s)) bs = Some bs'"
  shows "\<exists>m. free_memory p s = Some (Inr (0, s\<lparr>mcbs := m\<rparr>)) \<and> heap_blocks (s\<lparr>mcbs := m\<rparr>) (coalesce bs')"
  using free_memory_refines [OF assms] .

theorem free_memory_coalesces_witness:
  "\<exists>m. free_memory 0x1010 two_used = Some (Inr (0, two_used\<lparr>mcbs := m\<rparr>)) \<and>
     heap_blocks (two_used\<lparr>mcbs := m\<rparr>) [(8, False), (108, True)]"
  using free_memory_coalesces [OF two_used_blocks, of "0x1010"] by (simp add: two_used_memlist)

text \<open>
  \<open>free_memory\<close> of a pointer that is not an allocated block (never allocated, or freed
  already) does not return -1: it follows the \<open>NULL\<close> after the last block and faults.
\<close>

theorem free_memory_unknown_faults:
  assumes "heap_ok s" "unat p \<notin> fst ` heap_live s"
  shows "free_memory p s = Some (Inl Null_Deref)"
proof -
  obtain bs where h: "heap_blocks s bs" using assms(1) by (auto simp: heap_ok_def)
  then have "mark_free (unat p) (unat (memlist s)) bs = None"
    using assms(2) by (simp add: mark_free_None_iff heap_live_eq)
  then show ?thesis by (rule free_memory_missing [OF h])
qed

theorem free_memory_unknown_faults_witness: "free_memory 0x1018 two_used = Some (Inl Null_Deref)"
proof (rule free_memory_unknown_faults)
  show "heap_ok two_used" using two_used_blocks by (auto simp: heap_ok_def)
  show "unat (0x1018 :: u32) \<notin> fst ` heap_live two_used"
    by (simp add: heap_live_eq [OF two_used_blocks] two_used_memlist)
qed

text \<open>
  C7. A client that only releases what it holds never damages the heap: in every state it
  reaches by \<open>allocate_memory\<close> and \<open>free_memory\<close> the blocks it holds are pairwise disjoint and
  the next request returns.
\<close>

theorem heap_client_safe:
  assumes "heap_ok s" "mem.client s s'"
  shows "heap_ok s' \<and>
    (\<forall>p n q m. (p, n) \<in> heap_live s' \<and> (q, m) \<in> heap_live s' \<and> (p, n) \<noteq> (q, m) \<longrightarrow> p + n < q \<or> q + m < p) \<and>
    (\<exists>p s''. allocate_memory sz s' = Some (Inr (p, s'')))"
proof -
  have ok: "heap_ok s'" using mem.client_inv [OF assms(2,1)] .
  then show ?thesis
    using heap_live_disjoint [OF ok] heap_alloc_law [OF ok, of sz] by blast
qed

theorem heap_client_safe_witness:
  "\<exists>s'. mem.client two_used s' \<and> heap_ok s' \<and> (\<exists>p s''. allocate_memory 40 s' = Some (Inr (p, s'')))"
proof -
  have ok: "heap_ok two_used" using two_used_blocks by (auto simp: heap_ok_def)
  obtain p s' where "allocate_memory 10 two_used = Some (Inr (p, s'))" using heap_alloc_law [OF ok, of 10] by blast
  then have "mem.client two_used s'" by (blast intro: mem.client.intros)
  then show ?thesis using heap_client_safe [OF ok, of s' 40] by blast
qed

text \<open>
  C28. What \<open>allocate_memory\<close> returns is new memory of at least the size asked for, disjoint from
  everything held before, and releasing it right away succeeds and restores the set of held
  blocks.
\<close>

theorem allocate_then_free:
  assumes "heap_ok s" "allocate_memory sz s = Some (Inr (p, s'))" "p \<noteq> NULL" "unat sz \<le> 2 ^ 32 - 4"
  shows "(\<forall>q m. (q, m) \<in> heap_live s \<longrightarrow> unat p + unat sz < q \<or> q + m < unat p) \<and>
    (\<exists>s''. free_memory p s' = Some (Inr (0, s'')) \<and> heap_ok s'' \<and> heap_live s'' = heap_live s)"
  using mem.alloc_separate [OF assms(1-3)] mem.alloc_free [OF assms(1-3)] assms(4) by blast

theorem allocate_then_free_witness:
  "\<exists>s' s''. allocate_memory 10 two_used = Some (Inr (0x1018, s')) \<and> free_memory 0x1018 s' = Some (Inr (0, s'')) \<and>
     heap_live s'' = {(0x1004, 8), (0x1010, 4)}"
proof -
  have ok: "heap_ok two_used" using two_used_blocks by (auto simp: heap_ok_def)
  obtain s' where s': "allocate_memory 10 two_used = Some (Inr (0x1018, s'))"
    using allocate_memory_refines [OF two_used_blocks, of 10] by (auto simp: two_used_memlist roundup_def)
  moreover have "heap_live two_used = {(0x1004, 8), (0x1010, 4)}"
    by (auto simp: heap_live_eq [OF two_used_blocks] two_used_memlist)
  ultimately show ?thesis using allocate_then_free [OF ok s'] by auto
qed

text \<open>
  \<open>initialize_heap\<close> on a kernel heap with room makes a well-formed heap of one free block of
  the size asked for, rounded up to a multiple of four, right at the old end of the kernel heap.
\<close>

theorem initialize_heap_one_block:
  assumes "kheap_ok s" "unat (roundup sz) + 4 < 2 ^ 32"
    "unat (heap_addr s) + (unat (roundup sz) + 4) \<le> unat (KHEAP_BASE + KHEAP_SIZE)"
  shows "\<exists>s'. initialize_heap sz s = Inr s' \<and> heap_blocks s' [(unat (roundup sz), True)] \<and>
    memlist s' = heap_addr s \<and> heap_live s' = {}"
  using initialize_heap_eq [OF assms] heap_live_eq by fastforce

theorem initialize_heap_one_block_witness:
  "\<exists>s'. initialize_heap 50000 (heap_at (\<lambda>_. 0)) = Inr s' \<and> heap_blocks s' [(50000, True)] \<and>
     memlist s' = 0xD000000 \<and> heap_live s' = {}"
proof -
  have "roundup 50000 = 50000" by (simp add: roundup_def)
  then show ?thesis
    using initialize_heap_one_block [of "heap_at (\<lambda>_. 0)" 50000] by (simp add: kheap_ok_def heap_at_def)
qed

text \<open>
  For the three largest sizes the rounding wraps to zero: \<open>allocate_memory\<close> hands out the
  first free block, however small, instead of refusing the request.
\<close>

theorem allocate_memory_size_wraps:
  assumes "heap_blocks s ((n, True) # bs)" "sz \<in> {0xFFFFFFFD, 0xFFFFFFFE, 0xFFFFFFFF}"
  shows "\<exists>s'. allocate_memory sz s = Some (Inr (memlist s + 4, s')) \<and> memlist s + 4 \<noteq> NULL"
proof -
  have r: "roundup sz = 0" using assms(2) by (auto simp: roundup_def)
  have "unat (memlist s) + 4 < 2 ^ 32" using assms(1) by (simp add: heap_blocks_def)
  then have "unat (memlist s + 4) = unat (memlist s) + 4" using unat_add_lem [of "memlist s" 4] by simp
  then have "memlist s + 4 \<noteq> NULL" by (metis add_eq_0_iff_both_eq_0 unsigned_0 zero_neq_numeral)
  then show ?thesis using allocate_memory_refines [OF assms(1), of sz] r by auto
qed

theorem allocate_memory_size_wraps_witness:
  "\<exists>s'. allocate_memory 0xFFFFFFFF (heap_at (\<lambda>_. 11)) = Some (Inr (0x1004, s'))"
proof -
  have "heap_blocks (heap_at (\<lambda>_. 11)) [(8, True)]" by (simp add: heap_blocks_def heap_at_def hdr_def)
  from allocate_memory_size_wraps [OF this, of "0xFFFFFFFF"] show ?thesis by (simp add: heap_at_def)
qed

end
