(* ===== verification/Linked_Lists.thy ===== *)
theory Linked_Lists
  imports Mpx_Prelude
begin

text \<open>
  Singly linked lists through a \<open>next\<close> field, as the PCB queues and the I/O request queue use
  them. \<open>qlist n p xs\<close> says that following \<open>n\<close> from \<open>p\<close> visits exactly \<open>xs\<close> and ends in
  \<open>NULL\<close>. The locale \<open>pointer_list\<close> is the interface of a store of nodes: a \<open>next\<close> field that
  can be read and written, with its one law; inside it the three pointer operations of the code
  (insert after a node, insert at the head, unlink the successor) are related to lists once. The
  stores of PCBs and of I/O control blocks interpret it.
\<close>

fun qlist :: "(u32 \<Rightarrow> u32) \<Rightarrow> u32 \<Rightarrow> u32 list \<Rightarrow> bool" where
  "qlist n p [] \<longleftrightarrow> p = NULL"
| "qlist n p (x # xs) \<longleftrightarrow> p = x \<and> x \<noteq> NULL \<and> qlist n (n x) xs"

text \<open>A path of \<open>next\<close> pointers from \<open>p\<close> over \<open>xs\<close> to \<open>q\<close>.\<close>

fun qpath :: "(u32 \<Rightarrow> u32) \<Rightarrow> u32 \<Rightarrow> u32 list \<Rightarrow> u32 \<Rightarrow> bool" where
  "qpath n p [] q \<longleftrightarrow> p = q"
| "qpath n p (x # xs) q \<longleftrightarrow> p = x \<and> x \<noteq> NULL \<and> qpath n (n x) xs q"

lemma qlist_NULL [simp]: "qlist n NULL xs \<longleftrightarrow> xs = []"
  by (cases xs) auto

lemma qlist_Nil_iff: "qlist n p xs \<Longrightarrow> xs = [] \<longleftrightarrow> p = NULL"
  by (cases xs) auto

lemma qlist_append: "qlist n p (xs @ ys) \<longleftrightarrow> (\<exists>q. qpath n p xs q \<and> qlist n q ys)"
  by (induction xs arbitrary: p) auto

lemma qlist_unique: "qlist n p xs \<Longrightarrow> qlist n p ys \<Longrightarrow> xs = ys"
proof (induction xs arbitrary: p ys)
  case Nil
  then show ?case by simp
next
  case (Cons x xs)
  then show ?case by (cases ys) auto
qed

lemma qlist_not_NULL: "qlist n p xs \<Longrightarrow> x \<in> set xs \<Longrightarrow> x \<noteq> NULL"
  by (induction xs arbitrary: p) auto

lemma qlist_distinct: "qlist n p xs \<Longrightarrow> distinct xs"
proof (induction xs arbitrary: p)
  case (Cons x xs)
  have "x \<notin> set xs"
  proof
    assume "x \<in> set xs"
    then obtain ys zs where "xs = ys @ x # zs" by (meson split_list)
    then obtain q where "qlist n q (x # zs)" using Cons.prems by (auto simp: qlist_append)
    then have "qlist n x (x # zs)" "qlist n x (x # xs)" using Cons.prems by auto
    then have "zs = xs" using qlist_unique by blast
    moreover have "length zs < length xs" using \<open>xs = ys @ x # zs\<close> by simp
    ultimately show False by simp
  qed
  then show ?case using Cons by auto
qed simp

lemma qlist_upd [simp]: "x \<notin> set xs \<Longrightarrow> qlist (n(x := y)) p xs = qlist n p xs"
  by (induction xs arbitrary: p) auto

lemma qpath_upd [simp]: "x \<notin> set xs \<Longrightarrow> qpath (n(x := y)) p xs q = qpath n p xs q"
  by (induction xs arbitrary: p) auto

lemma qlist_cong: "(\<And>x. x \<in> set xs \<Longrightarrow> n' x = n x) \<Longrightarrow> qlist n' p xs = qlist n p xs"
  by (induction xs arbitrary: p) auto

lemma split_at_last: "butlast (h # t) @ last (h # t) # ys = h # t @ ys"
  by (induction t arbitrary: h) auto

locale pointer_list =
  fixes nxt :: "'s \<Rightarrow> u32 \<Rightarrow> u32"
    and set_nxt :: "u32 \<Rightarrow> u32 \<Rightarrow> 's \<Rightarrow> 's"
  assumes nxt_set: "nxt (set_nxt p q s) = (nxt s)(p := q)"
begin

text \<open>\<open>q->next = p->next; p->next = q\<close>\<close>

lemma insert_after:
  assumes "qlist (nxt s) h (xs @ p # ys)" "q \<noteq> NULL" "q \<notin> set (xs @ p # ys)"
  shows "qlist (nxt (set_nxt p q (set_nxt q (nxt s p) s))) h (xs @ p # q # ys)"
  using assms qlist_distinct [OF assms(1)] by (auto simp: nxt_set qlist_append)

text \<open>\<open>q->next = head\<close> and the head becomes \<open>q\<close>\<close>

lemma insert_head:
  assumes "qlist (nxt s) h xs" "q \<noteq> NULL" "q \<notin> set xs"
  shows "qlist (nxt (set_nxt q h s)) q (q # xs)"
  using assms by (simp add: nxt_set)

text \<open>\<open>p->next = q->next\<close> where \<open>q\<close> is the successor of \<open>p\<close>\<close>

lemma unlink_next:
  assumes "qlist (nxt s) h (xs @ p # q # ys)"
  shows "qlist (nxt (set_nxt p (nxt s q) s)) h (xs @ p # ys)"
  using assms qlist_distinct [OF assms] by (auto simp: nxt_set qlist_append)

text \<open>A write to a node that is not in a list does not change the list.\<close>

lemma set_other: "p \<notin> set xs \<Longrightarrow> qlist (nxt (set_nxt p q s)) h xs = qlist (nxt s) h xs"
  by (simp add: nxt_set)

end

section \<open>Stable priority insertion\<close>

text \<open>
  Where \<open>pcb_insert\<close> puts a process: behind every process whose priority value is not larger.
  On a sorted queue this is stable insertion.
\<close>

definition enqueue :: "('a \<Rightarrow> int) \<Rightarrow> 'a \<Rightarrow> 'a list \<Rightarrow> 'a list" where
  "enqueue key x xs = takeWhile (\<lambda>y. key y \<le> key x) xs @ x # dropWhile (\<lambda>y. key y \<le> key x) xs"

definition sorted_queue :: "('a \<Rightarrow> int) \<Rightarrow> 'a list \<Rightarrow> bool" where
  "sorted_queue key xs \<longleftrightarrow> sorted (map key xs)"

lemma set_enqueue [simp]: "set (enqueue key x xs) = insert x (set xs)"
  unfolding enqueue_def by (metis (no_types) Un_insert_right list.simps(15) set_append takeWhile_dropWhile_id)

lemma enqueue_Nil [simp]: "enqueue key x [] = [x]"
  by (simp add: enqueue_def)

lemma enqueue_Cons: "enqueue key x (y # ys) = (if key y \<le> key x then y # enqueue key x ys else x # y # ys)"
  by (simp add: enqueue_def)

lemma distinct_enqueue [simp]: "distinct (enqueue key x xs) \<longleftrightarrow> x \<notin> set xs \<and> distinct xs"
  by (induction xs) (auto simp: enqueue_Cons)

lemma enqueue_cong: "(\<And>y. y \<in> insert x (set xs) \<Longrightarrow> k y = k' y) \<Longrightarrow> enqueue k x xs = enqueue k' x xs"
  by (induction xs) (auto simp: enqueue_Cons)

lemma sorted_enqueue: "sorted_queue key xs \<Longrightarrow> sorted_queue key (enqueue key x xs)"
  by (induction xs) (auto simp: sorted_queue_def enqueue_Cons)

text \<open>Equal priorities keep their order of arrival.\<close>

lemma enqueue_fifo:
  assumes "sorted_queue key xs"
  shows "filter (\<lambda>y. key y = k) (enqueue key x xs) =
    filter (\<lambda>y. key y = k) xs @ (if key x = k then [x] else [])"
  using assms
proof (induction xs)
  case (Cons y ys)
  have "filter (\<lambda>z. key z = key x) ys = []" if "key x < key y"
    using Cons.prems that by (auto simp: sorted_queue_def filter_empty_conv)
  then show ?case using Cons by (auto simp: enqueue_Cons sorted_queue_def)
qed simp

lemma remove1_enqueue [simp]: "x \<notin> set xs \<Longrightarrow> remove1 x (enqueue key x xs) = xs"
  by (induction xs) (auto simp: enqueue_Cons)

lemma sorted_remove1: "sorted_queue key xs \<Longrightarrow> sorted_queue key (remove1 x xs)"
  unfolding sorted_queue_def by (induction xs) (auto dest: in_set_remove1 [THEN iffD1, rotated] notin_set_remove1 set_remove1_subset [THEN subsetD])

lemma enqueue_front: "sorted_queue key (y # ys) \<Longrightarrow> key x < key y \<Longrightarrow> enqueue key x ys = x # ys"
  by (cases ys) (auto simp: enqueue_Cons sorted_queue_def)

lemma rotate_enqueue:
  "sorted_queue key (y # ys) \<Longrightarrow> x \<noteq> y \<Longrightarrow> remove1 y (enqueue key x (y # ys)) = enqueue key x ys"
  using enqueue_front [of key y ys x] by (auto simp: enqueue_Cons)

section \<open>The contract of the process queues\<close>

text \<open>
  What the system call handler relies on: inserting a process that is in no queue puts it in the
  queue of its state by priority, removing takes it out of its queue, and both keep everything
  else (\<open>view\<close>): the priorities, the states, the rest of memory.
\<close>

locale process_queues =
  fixes insert_op :: "u32 \<Rightarrow> 's \<Rightarrow> 's checked option"
    and remove_op :: "u32 \<Rightarrow> 's \<Rightarrow> (int \<times> 's) checked option"
    and queues :: "'s \<Rightarrow> ('q \<Rightarrow> u32 list) \<Rightarrow> bool"
    and view :: "'s \<Rightarrow> 'v"
    and key :: "'v \<Rightarrow> u32 \<Rightarrow> int"
    and slot :: "'v \<Rightarrow> u32 \<Rightarrow> 'q option"
    and removable :: "'q \<Rightarrow> bool"
  assumes insert_law: "queues s Q \<Longrightarrow> p \<noteq> NULL \<Longrightarrow> (\<And>r. p \<notin> set (Q r)) \<Longrightarrow> slot (view s) p = Some q \<Longrightarrow>
      \<exists>s'. insert_op p s = Some (Inr s') \<and> queues s' (Q(q := enqueue (key (view s)) p (Q q))) \<and> view s' = view s"
    and remove_law: "queues s Q \<Longrightarrow> p \<in> set (Q q) \<Longrightarrow> slot (view s) p = Some q \<Longrightarrow> removable q \<Longrightarrow>
      \<exists>s'. remove_op p s = Some (Inr (0, s')) \<and> queues s' (Q(q := remove1 p (Q q))) \<and> view s' = view s"
    and elem_law: "queues s Q \<Longrightarrow> p \<in> set (Q q) \<Longrightarrow> p \<noteq> NULL"
begin

lemma insert_remove:
  assumes "queues s Q" "p \<noteq> NULL" "\<And>r. p \<notin> set (Q r)" "slot (view s) p = Some q" "removable q"
  shows "\<exists>s' s''. insert_op p s = Some (Inr s') \<and> remove_op p s' = Some (Inr (0, s'')) \<and>
    queues s'' Q \<and> view s'' = view s"
proof -
  let ?Q = "Q(q := enqueue (key (view s)) p (Q q))"
  obtain s' where s': "insert_op p s = Some (Inr s')" "queues s' ?Q" "view s' = view s"
    using insert_law [OF assms(1-4)] by blast
  have "p \<in> set (?Q q)" by simp
  moreover have "slot (view s') p = Some q" using s'(3) assms(4) by simp
  ultimately obtain s'' where "remove_op p s' = Some (Inr (0, s''))" "queues s'' (?Q(q := remove1 p (?Q q)))"
    "view s'' = view s'"
    using remove_law [OF s'(2) _ _ assms(5)] by blast
  moreover have "?Q(q := remove1 p (?Q q)) = Q" using assms(3) by (auto simp: fun_eq_iff)
  ultimately show ?thesis using s' by auto
qed

text \<open>The dispatcher: the running process joins its queue, the old head leaves it.\<close>

lemma rotate:
  assumes "queues s Q" "p \<noteq> NULL" "\<And>r. p \<notin> set (Q r)" "slot (view s) p = Some q" "removable q"
    "Q q = x # xs" "slot (view s) x = Some q" "sorted_queue (key (view s)) (x # xs)"
  shows "\<exists>s' s''. insert_op p s = Some (Inr s') \<and> remove_op x s' = Some (Inr (0, s'')) \<and>
    queues s'' (Q(q := enqueue (key (view s)) p xs)) \<and> view s' = view s \<and> view s'' = view s"
proof -
  let ?Q = "Q(q := enqueue (key (view s)) p (Q q))"
  obtain s' where s': "insert_op p s = Some (Inr s')" "queues s' ?Q" "view s' = view s"
    using insert_law [OF assms(1-4)] by blast
  have x: "x \<in> set (?Q q)" "p \<noteq> x" using assms(3) [of q] assms(6) by auto
  have "slot (view s') x = Some q" using s'(3) assms(7) by simp
  then obtain s'' where "remove_op x s' = Some (Inr (0, s''))" "queues s'' (?Q(q := remove1 x (?Q q)))"
    "view s'' = view s'"
    using remove_law [OF s'(2) x(1) _ assms(5)] by blast
  moreover have "remove1 x (?Q q) = enqueue (key (view s)) p xs"
    using rotate_enqueue [OF assms(8) x(2)] assms(6) by simp
  ultimately show ?thesis using s' by auto
qed

end

end
