(* ===== verification/Process_Queues.thy ===== *)
theory Process_Queues
  imports Heap_Memory Linked_Lists
begin

text \<open>
  \<open>src/kernel/pcb.c\<close> with the \<open>struct pcb\<close> of \<open>include/mpx/pcb.h\<close>: allocation, the ready,
  blocked and suspended queues, search by name, setup and release.

  PCBs live in a typed store \<open>pcbs\<close>, a total function on addresses: the memory of a PCB that has
  just been allocated holds whatever was there. The \<open>name\<close> is its array of 50 bytes, the stack is
  not part of this theory. A PCB occupies 1100 bytes (name at offset 0, \<open>stack\<close> at 64, 1024
  bytes of stack). The queue walks are partial functions: they do not end on a cyclic queue.
\<close>

section \<open>Model\<close>

record pcb =
  name :: bytes
  proc_class :: int
  priority :: int
  state :: int
  stack_top :: u32
  next_pcb :: u32
  prev_pcb :: u32

record procs = heap +
  pcbs :: "u32 \<Rightarrow> pcb"
  ready_head :: u32
  blocked_head :: u32
  suspended_head :: u32
  resume_head :: u32

abbreviation (input) MAX_NAME_LEN :: nat where "MAX_NAME_LEN \<equiv> 50"
abbreviation (input) MIN_NAME_LEN :: nat where "MIN_NAME_LEN \<equiv> 2"
abbreviation (input) USER_PROC :: int where "USER_PROC \<equiv> 1"
abbreviation (input) SYSTEM_PROC :: int where "SYSTEM_PROC \<equiv> 0"
abbreviation (input) READY_STATE :: int where "READY_STATE \<equiv> 1"
abbreviation (input) BLOCKED_STATE :: int where "BLOCKED_STATE \<equiv> 0"
abbreviation (input) SUSPENDED_STATE :: int where "SUSPENDED_STATE \<equiv> -1"
abbreviation (input) RESUME_STATE :: int where "RESUME_STATE \<equiv> 3"
abbreviation (input) PCB_SUCCESS :: int where "PCB_SUCCESS \<equiv> 0"
abbreviation (input) PCB_ERROR :: int where "PCB_ERROR \<equiv> 1"

abbreviation (input) sizeof_pcb :: u32 where "sizeof_pcb \<equiv> 1100"
abbreviation (input) sizeof_context :: u32 where "sizeof_context \<equiv> 64"
abbreviation (input) stack_offset :: u32 where "stack_offset \<equiv> 64"

definition upd_pcb :: "u32 \<Rightarrow> (pcb \<Rightarrow> pcb) \<Rightarrow> 'a procs_scheme \<Rightarrow> 'a procs_scheme" where
  "upd_pcb p f s = s\<lparr>pcbs := (pcbs s)(p := f (pcbs s p))\<rparr>"

definition set_next_pcb :: "u32 \<Rightarrow> u32 \<Rightarrow> 'a procs_scheme \<Rightarrow> 'a procs_scheme" where
  "set_next_pcb p q s = upd_pcb p (\<lambda>b. b\<lparr>next_pcb := q\<rparr>) s"

subsection \<open>pcb_allocate\<close>

definition pcb_allocate :: "'a procs_scheme \<Rightarrow> (u32 \<times> 'a procs_scheme) checked option" where
  "pcb_allocate s =
     run_then (sys_alloc_mem sizeof_pcb s) (\<lambda>(p, s).
       if p = NULL then Some (Inr (NULL, print_lit_nul ''PCB allocation failed.'' s))
       else Some (Inr (p, upd_pcb p (\<lambda>b. b\<lparr>proc_class := -1, priority := -1, state := -1,
                                           next_pcb := NULL, prev_pcb := NULL\<rparr>) s)))"

subsection \<open>pcb_find\<close>

partial_function (option) find_ready :: "bytes \<Rightarrow> u32 \<Rightarrow> 'a procs_scheme \<Rightarrow> u32 checked option" where
  "find_ready found_name cur s =
     (if cur = NULL then Some (Inr NULL)
      else case strcmp found_name (name (pcbs s cur)) of
             Inl e \<Rightarrow> Some (Inl e)
           | Inr d \<Rightarrow> if d = 0 then Some (Inr cur) else find_ready found_name (next_pcb (pcbs s cur)) s)"

definition not_found_msg :: string where
  "not_found_msg = ''A PCB with the given name cannot be found. Please try again.''"

partial_function (option) find_suspended ::
  "bytes \<Rightarrow> u32 \<Rightarrow> 'a procs_scheme \<Rightarrow> (u32 \<times> 'a procs_scheme) checked option" where
  "find_suspended found_name cur s =
     (if cur = NULL then Some (Inr (cur, s))
      else case strcmp found_name (name (pcbs s cur)) of
             Inl e \<Rightarrow> Some (Inl e)
           | Inr d \<Rightarrow>
               if d = 0 then Some (Inr (cur, s))
               else if next_pcb (pcbs s cur) = NULL then Some (Inr (NULL, print_lit_nul not_found_msg s))
               else find_suspended found_name (next_pcb (pcbs s cur)) s)"

definition pcb_find :: "bytes \<Rightarrow> 'a procs_scheme \<Rightarrow> (u32 \<times> 'a procs_scheme) checked option" where
  "pcb_find found_name s =
     run_then (find_ready found_name (ready_head s) s) (\<lambda>p.
       if p \<noteq> NULL then Some (Inr (p, s)) else find_suspended found_name (suspended_head s) s)"

subsection \<open>pcb_free\<close>

text \<open>\<open>old_pcb->name\<close> is the array at offset 0: its address is the address of the PCB.\<close>

definition pcb_free :: "u32 \<Rightarrow> 'a procs_scheme \<Rightarrow> (int \<times> 'a procs_scheme) checked option" where
  "pcb_free old_pcb s =
     (if old_pcb \<noteq> NULL then
        run_then (Some (arr_get (name (pcbs s old_pcb)) 0)) (\<lambda>c.
        run_then (if c \<noteq> 0 then sys_free_mem old_pcb s else Some (Inr (0, s))) (\<lambda>(_, s).
        run_then (sys_free_mem old_pcb s) (\<lambda>(_, s). Some (Inr (0, s)))))
      else Some (Inr (1, print_lit_nul ''The PCB to be removed could not be found. Please try again.'' s)))"

subsection \<open>pcb_insert\<close>

text \<open>The queues a \<open>head_ptr\<close> can point to.\<close>

datatype queue = Ready | Suspended | Blocked

fun queue_of :: "int \<Rightarrow> queue option" where
  "queue_of st =
     (if st = READY_STATE \<or> st = RESUME_STATE then Some Ready
      else if st = SUSPENDED_STATE then Some Suspended
      else if st = BLOCKED_STATE then Some Blocked
      else None)"

fun get_head :: "queue \<Rightarrow> 'a procs_scheme \<Rightarrow> u32" where
  "get_head Ready s = ready_head s"
| "get_head Suspended s = suspended_head s"
| "get_head Blocked s = blocked_head s"

fun set_head :: "queue \<Rightarrow> u32 \<Rightarrow> 'a procs_scheme \<Rightarrow> 'a procs_scheme" where
  "set_head Ready p s = s\<lparr>ready_head := p\<rparr>"
| "set_head Suspended p s = s\<lparr>suspended_head := p\<rparr>"
| "set_head Blocked p s = s\<lparr>blocked_head := p\<rparr>"

text \<open>The walk to the node after which the PCB goes.\<close>

partial_function (option) insert_position :: "int \<Rightarrow> u32 \<Rightarrow> 'a procs_scheme \<Rightarrow> u32 option" where
  "insert_position prio prev s =
     (if next_pcb (pcbs s prev) \<noteq> NULL \<and> prio \<ge> priority (pcbs s (next_pcb (pcbs s prev)))
      then insert_position prio (next_pcb (pcbs s prev)) s
      else Some prev)"

definition pcb_insert :: "u32 \<Rightarrow> 'a procs_scheme \<Rightarrow> 'a procs_scheme checked option" where
  "pcb_insert curr_pcb s =
     (if curr_pcb = NULL then Some (Inr s)
      else case queue_of (state (pcbs s curr_pcb)) of
        None \<Rightarrow> Some (Inr s)
      | Some q \<Rightarrow>
          let head = get_head q s; prio = priority (pcbs s curr_pcb)
          in if head = NULL \<or> prio < priority (pcbs s head)
             then Some (Inr (set_head q curr_pcb (set_next_pcb curr_pcb head s)))
             else case insert_position prio head s of
                    None \<Rightarrow> None
                  | Some prev \<Rightarrow>
                      let s = set_next_pcb curr_pcb (next_pcb (pcbs s prev)) s
                      in Some (Inr (set_next_pcb prev curr_pcb s)))"

subsection \<open>pcb_remove\<close>

text \<open>The search for the predecessor; \<open>NULL\<close> when the PCB is not in the queue.\<close>

partial_function (option) find_prev :: "u32 \<Rightarrow> u32 \<Rightarrow> 'a procs_scheme \<Rightarrow> u32 option" where
  "find_prev curr_pcb current s =
     (if current \<noteq> NULL \<and> next_pcb (pcbs s current) \<noteq> curr_pcb
      then find_prev curr_pcb (next_pcb (pcbs s current)) s
      else Some current)"

text \<open>The body of both branches, for the ready and for the suspended queue.\<close>

definition remove_from :: "queue \<Rightarrow> u32 \<Rightarrow> 'a procs_scheme \<Rightarrow> (int \<times> 'a procs_scheme) checked option" where
  "remove_from q curr_pcb s =
     (let current = get_head q s
      in if current = curr_pcb then Some (Inr (PCB_SUCCESS, set_head q (next_pcb (pcbs s current)) s))
         else case find_prev curr_pcb current s of
                None \<Rightarrow> None
              | Some current \<Rightarrow>
                  if current = NULL then Some (Inr (PCB_ERROR, s))
                  else Some (Inr (PCB_SUCCESS, set_next_pcb current (next_pcb (pcbs s curr_pcb)) s)))"

definition pcb_remove :: "u32 \<Rightarrow> 'a procs_scheme \<Rightarrow> (int \<times> 'a procs_scheme) checked option" where
  "pcb_remove curr_pcb s =
     (if curr_pcb = NULL then Some (Inr (PCB_ERROR, s))
      else if state (pcbs s curr_pcb) = READY_STATE \<or> state (pcbs s curr_pcb) = RESUME_STATE
      then remove_from Ready curr_pcb s
      else if state (pcbs s curr_pcb) = SUSPENDED_STATE then remove_from Suspended curr_pcb s
      else Some (Inr (PCB_ERROR, s)))"

subsection \<open>pcb_setup\<close>

text \<open>
  The name is \<^const>\<open>None\<close> for \<open>NULL\<close>. The copy loop runs over \<open>strlen(name) + 1\<close> bytes; it is
  the loop of \<open>memcpy\<close> on the 50-byte array. Each failing check releases the PCB.
\<close>

definition setup_fail :: "u32 \<Rightarrow> 'a procs_scheme \<Rightarrow> (u32 \<times> 'a procs_scheme) checked option" where
  "setup_fail p s = run_then (pcb_free p s) (\<lambda>(_, s). Some (Inr (NULL, s)))"

definition pcb_setup ::
  "bytes option \<Rightarrow> int \<Rightarrow> int \<Rightarrow> 'a procs_scheme \<Rightarrow> (u32 \<times> 'a procs_scheme) checked option" where
  "pcb_setup nm cls prio s =
     run_then (pcb_allocate s) (\<lambda>(p, s).
       if p = NULL then Some (Inr (NULL, s))
       else if prio < 0 \<or> prio > 9 then setup_fail p s
       else if cls \<noteq> USER_PROC \<and> cls \<noteq> SYSTEM_PROC then setup_fail p s
       else case nm of
         None \<Rightarrow> setup_fail p s
       | Some nm \<Rightarrow>
           run_then (Some (strlen nm)) (\<lambda>name_length.
             if name_length < MIN_NAME_LEN \<or> name_length > MAX_NAME_LEN then setup_fail p s
             else run_then (Some (memcpy_loop (name (pcbs s p)) nm (name_length + 1) 0)) (\<lambda>nm'.
               let s = upd_pcb p (\<lambda>b. b\<lparr>name := nm', priority := prio, proc_class := cls,
                                       state := READY_STATE,
                                       stack_top := p + stack_offset + 1024 - sizeof_context\<rparr>) s
               in run_then (pcb_find (name (pcbs s p)) s) (\<lambda>(f, s).
                    if f \<noteq> NULL then setup_fail p (print_lit_nul (''Name already in use.'' @ [CHR 0x0A]) s)
                    else Some (Inr (p, s))))))"

section \<open>Lemmas\<close>

subsection \<open>The store of PCBs as linked lists\<close>

definition pnext :: "'a procs_scheme \<Rightarrow> u32 \<Rightarrow> u32" where
  "pnext s p = next_pcb (pcbs s p)"

definition prio_of :: "'a procs_scheme \<Rightarrow> u32 \<Rightarrow> int" where
  "prio_of s p = priority (pcbs s p)"

lemma set_next_pcb_simps [simp]:
  "pnext (set_next_pcb p q s) = (pnext s)(p := q)"
  "ready_head (set_next_pcb p q s) = ready_head s" "blocked_head (set_next_pcb p q s) = blocked_head s"
  "suspended_head (set_next_pcb p q s) = suspended_head s" "resume_head (set_next_pcb p q s) = resume_head s"
  by (auto simp: set_next_pcb_def upd_pcb_def pnext_def)

lemma set_next_pcb_fields [simp]:
  "name (pcbs (set_next_pcb p q s) r) = name (pcbs s r)"
  "proc_class (pcbs (set_next_pcb p q s) r) = proc_class (pcbs s r)"
  "priority (pcbs (set_next_pcb p q s) r) = priority (pcbs s r)"
  "state (pcbs (set_next_pcb p q s) r) = state (pcbs s r)"
  "stack_top (pcbs (set_next_pcb p q s) r) = stack_top (pcbs s r)"
  "prev_pcb (pcbs (set_next_pcb p q s) r) = prev_pcb (pcbs s r)"
  by (auto simp: set_next_pcb_def upd_pcb_def)

interpretation pcbl: pointer_list pnext set_next_pcb
  by unfold_locales simp

lemma set_head_simps [simp]:
  "get_head q (set_head q p s) = p" "q' \<noteq> q \<Longrightarrow> get_head q' (set_head q p s) = get_head q' s"
  "pcbs (set_head q p s) = pcbs s" "pnext (set_head q p s) = pnext s"
  "get_head q (set_next_pcb p r s) = get_head q s"
  by (cases q; cases q'; simp add: pnext_def fun_eq_iff)+

lemma pnext_heads [simp]:
  "pnext (s\<lparr>ready_head := h\<rparr>) = pnext s" "pnext (s\<lparr>blocked_head := h\<rparr>) = pnext s"
  "pnext (s\<lparr>suspended_head := h\<rparr>) = pnext s"
  by (simp_all add: pnext_def fun_eq_iff)

text \<open>What the queue operations leave alone: everything but the \<open>next_pcb\<close> links and the heads.\<close>

definition kept :: "'a procs_scheme \<Rightarrow> 'a procs_scheme" where
  "kept s = s\<lparr>pcbs := (\<lambda>p. (pcbs s p)\<lparr>next_pcb := NULL\<rparr>), ready_head := NULL, blocked_head := NULL,
     suspended_head := NULL\<rparr>"

definition same_procs :: "'a procs_scheme \<Rightarrow> 'a procs_scheme \<Rightarrow> bool" where
  "same_procs s t \<longleftrightarrow> kept t = kept s"

lemma same_procs_refl [simp]: "same_procs s s"
  by (simp add: same_procs_def)

lemma same_procs_trans: "same_procs s t \<Longrightarrow> same_procs t u \<Longrightarrow> same_procs s u"
  by (simp add: same_procs_def)

lemma same_procs_next [simp]: "same_procs s (set_next_pcb p q s)"
proof -
  have "(\<lambda>r. (pcbs (set_next_pcb p q s) r)\<lparr>next_pcb := NULL\<rparr>) = (\<lambda>r. (pcbs s r)\<lparr>next_pcb := NULL\<rparr>)"
    by (auto simp: set_next_pcb_def upd_pcb_def)
  then show ?thesis by (simp add: same_procs_def kept_def) (simp add: set_next_pcb_def upd_pcb_def)
qed

lemma same_procs_head [simp]: "same_procs s (set_head q p s)"
  by (cases q) (simp_all add: same_procs_def kept_def)

lemma same_procs_fields:
  assumes "same_procs s t"
  shows "name (pcbs t p) = name (pcbs s p)" "proc_class (pcbs t p) = proc_class (pcbs s p)"
    "priority (pcbs t p) = priority (pcbs s p)" "state (pcbs t p) = state (pcbs s p)"
    "stack_top (pcbs t p) = stack_top (pcbs s p)" "prio_of t = prio_of s"
proof -
  have eq: "(pcbs t q)\<lparr>next_pcb := NULL\<rparr> = (pcbs s q)\<lparr>next_pcb := NULL\<rparr>" for q
    using arg_cong [OF assms [unfolded same_procs_def], of "\<lambda>u. pcbs u q"] by (simp add: kept_def)
  show "name (pcbs t p) = name (pcbs s p)" using arg_cong [OF eq, of name p] by simp
  show "proc_class (pcbs t p) = proc_class (pcbs s p)" using arg_cong [OF eq, of proc_class p] by simp
  show "priority (pcbs t p) = priority (pcbs s p)" using arg_cong [OF eq, of priority p] by simp
  show "state (pcbs t p) = state (pcbs s p)" using arg_cong [OF eq, of state p] by simp
  show "stack_top (pcbs t p) = stack_top (pcbs s p)" using arg_cong [OF eq, of stack_top p] by simp
  have "priority (pcbs t q) = priority (pcbs s q)" for q using arg_cong [OF eq, of priority q] by simp
  then show "prio_of t = prio_of s" by (simp add: prio_of_def fun_eq_iff)
qed

text \<open>The three queues are well-formed and disjoint; \<open>Q\<close> gives their elements.\<close>

definition pcb_queues :: "'a procs_scheme \<Rightarrow> (queue \<Rightarrow> u32 list) \<Rightarrow> bool" where
  "pcb_queues s Q \<longleftrightarrow>
     (\<forall>q. qlist (pnext s) (get_head q s) (Q q)) \<and> (\<forall>q q'. q \<noteq> q' \<longrightarrow> set (Q q) \<inter> set (Q q') = {})"

definition queued :: "(queue \<Rightarrow> u32 list) \<Rightarrow> u32 set" where
  "queued Q = (\<Union>q. set (Q q))"

lemma pcb_queuesD: "pcb_queues s Q \<Longrightarrow> qlist (pnext s) (get_head q s) (Q q)"
  by (simp add: pcb_queues_def)

lemma pcb_queues_other:
  "pcb_queues s Q \<Longrightarrow> p \<in> set (Q q) \<Longrightarrow> q' \<noteq> q \<Longrightarrow> p \<notin> set (Q q')"
  by (auto simp: pcb_queues_def)

subsection \<open>pcb_insert\<close>

lemma insert_position_eq:
  "qlist (pnext s) prev (prev # xs) \<Longrightarrow>
   insert_position k prev s = Some (last (prev # takeWhile (\<lambda>y. prio_of s y \<le> k) xs))"
proof (induction xs arbitrary: prev)
  case Nil
  then show ?case by (subst insert_position.simps) (simp add: pnext_def)
next
  case (Cons y ys)
  then have "next_pcb (pcbs s prev) = y" "y \<noteq> NULL" by (auto simp: pnext_def)
  moreover have "insert_position k y s = Some (last (y # takeWhile (\<lambda>y. prio_of s y \<le> k) ys))"
    using Cons by auto
  ultimately show ?case by (subst insert_position.simps) (auto simp: prio_of_def)
qed

lemma pcb_insert_step:
  assumes q: "qlist (pnext s) (get_head q s) xs" and p: "p \<noteq> NULL" "p \<notin> set xs"
    and st: "queue_of (state (pcbs s p)) = Some q"
  shows "\<exists>s'. pcb_insert p s = Some (Inr s') \<and> qlist (pnext s') (get_head q s') (enqueue (prio_of s) p xs) \<and>
    (\<forall>q'. q' \<noteq> q \<longrightarrow> get_head q' s' = get_head q' s) \<and>
    (\<forall>r. r \<notin> set xs \<and> r \<noteq> p \<longrightarrow> pnext s' r = pnext s r) \<and> same_procs s s'"
proof (cases "xs = [] \<or> prio_of s p < prio_of s (hd xs)")
  case True
  let ?s = "set_head q p (set_next_pcb p (get_head q s) s)"
  have "get_head q s = NULL \<or> prio_of s p < prio_of s (get_head q s)"
    using True q by (cases xs) auto
  then have "pcb_insert p s = Some (Inr ?s)"
    using p st by (auto simp: pcb_insert_def Let_def prio_of_def)
  moreover have "enqueue (prio_of s) p xs = p # xs" using True by (cases xs) (auto simp: enqueue_Cons)
  moreover have "qlist (pnext ?s) (get_head q ?s) (p # xs)"
    using pcbl.insert_head [OF q p] by simp
  moreover have "same_procs s ?s" using same_procs_trans [OF same_procs_next same_procs_head] by blast
  ultimately show ?thesis by (intro exI [of _ ?s]) auto
next
  case False
  then obtain h ys where xs: "xs = h # ys" "prio_of s h \<le> prio_of s p" by (cases xs) auto
  let ?P = "\<lambda>y. prio_of s y \<le> prio_of s p"
  let ?t = "h # takeWhile ?P ys"
  let ?v = "last ?t"
  let ?s = "set_next_pcb ?v p (set_next_pcb p (pnext s ?v) s)"
  have h: "get_head q s = h" "h \<noteq> NULL" using q xs by auto
  have pos: "insert_position (prio_of s p) h s = Some ?v"
    using insert_position_eq [of s h ys "prio_of s p"] q xs by simp
  have "pcb_insert p s = Some (Inr ?s)"
    using p st h pos xs(2) by (simp add: pcb_insert_def Let_def prio_of_def pnext_def)
  moreover have split: "xs = butlast ?t @ ?v # dropWhile ?P ys"
    unfolding split_at_last using xs by simp
  moreover have "enqueue (prio_of s) p xs = butlast ?t @ ?v # p # dropWhile ?P ys"
    unfolding split_at_last using xs by (simp add: enqueue_def)
  moreover have "qlist (pnext ?s) h (butlast ?t @ ?v # p # dropWhile ?P ys)"
    using pcbl.insert_after [of s h "butlast ?t" ?v "dropWhile ?P ys" p] q h p split by simp
  moreover have "?v \<in> set xs" using split by (metis in_set_conv_decomp)
  moreover have "same_procs s ?s" using same_procs_trans [OF same_procs_next same_procs_next] by blast
  ultimately show ?thesis using h by (intro exI [of _ ?s]) auto
qed

lemma pcb_insert_queues:
  assumes Q: "pcb_queues s Q" and p: "p \<noteq> NULL" "p \<notin> queued Q" and st: "queue_of (state (pcbs s p)) = Some q"
  shows "\<exists>s'. pcb_insert p s = Some (Inr s') \<and> pcb_queues s' (Q(q := enqueue (prio_of s) p (Q q))) \<and> same_procs s s'"
proof -
  have pq: "p \<notin> set (Q q')" for q' using p(2) by (auto simp: queued_def)
  obtain s' where s': "pcb_insert p s = Some (Inr s')"
    "qlist (pnext s') (get_head q s') (enqueue (prio_of s) p (Q q))"
    "\<And>q'. q' \<noteq> q \<Longrightarrow> get_head q' s' = get_head q' s"
    "\<And>r. r \<notin> set (Q q) \<and> r \<noteq> p \<Longrightarrow> pnext s' r = pnext s r" "same_procs s s'"
    using pcb_insert_step [OF pcb_queuesD [OF Q] p(1) pq st] by blast
  have "qlist (pnext s') (get_head q' s') (Q q')" if "q' \<noteq> q" for q'
  proof -
    have "qlist (pnext s') (get_head q' s) (Q q') = qlist (pnext s) (get_head q' s) (Q q')"
      using s'(4) pcb_queues_other [OF Q _ that [symmetric]] pq by (intro qlist_cong) auto
    then show ?thesis using pcb_queuesD [OF Q] s'(3) [OF that] by simp
  qed
  then have "pcb_queues s' (Q(q := enqueue (prio_of s) p (Q q)))"
    using s'(2) Q pq by (auto simp: pcb_queues_def)
  then show ?thesis using s'(1,5) by blast
qed

lemma pcb_insert_no_queue:
  "p = NULL \<or> queue_of (state (pcbs s p)) = None \<Longrightarrow> pcb_insert p s = Some (Inr s)"
  by (auto simp: pcb_insert_def)

subsection \<open>pcb_remove\<close>

lemma find_prev_in:
  "qlist (pnext s) c (xs @ v # p # ys) \<Longrightarrow> c \<noteq> p \<Longrightarrow> find_prev p c s = Some v"
proof (induction xs arbitrary: c)
  case Nil
  then show ?case by (subst find_prev.simps) (simp add: pnext_def)
next
  case (Cons x xs)
  then have c: "c = x" "x \<noteq> NULL" "qlist (pnext s) (pnext s x) (xs @ v # p # ys)" by auto
  have "pnext s x \<noteq> p"
    using c(3) qlist_distinct [OF c(3)] by (cases xs) auto
  then show ?case using Cons.IH [OF c(3)] c by (subst find_prev.simps) (simp add: pnext_def)
qed

lemma find_prev_out:
  "qlist (pnext s) c xs \<Longrightarrow> p \<notin> set xs \<Longrightarrow> p \<noteq> NULL \<Longrightarrow> find_prev p c s = Some NULL"
proof (induction xs arbitrary: c)
  case Nil
  then show ?case by (subst find_prev.simps) simp
next
  case (Cons x xs)
  then have "pnext s x \<noteq> p" by (cases xs) auto
  then show ?case using Cons by (subst find_prev.simps) (auto simp: pnext_def)
qed

lemma remove_from_in:
  assumes q: "qlist (pnext s) (get_head q s) xs" and p: "p \<in> set xs"
  shows "\<exists>s'. remove_from q p s = Some (Inr (PCB_SUCCESS, s')) \<and> qlist (pnext s') (get_head q s') (remove1 p xs) \<and>
    (\<forall>q'. q' \<noteq> q \<longrightarrow> get_head q' s' = get_head q' s) \<and>
    (\<forall>r. r \<notin> set xs \<longrightarrow> pnext s' r = pnext s r) \<and> same_procs s s' \<and> pnext s' p = pnext s p"
proof (cases "get_head q s = p")
  case True
  let ?s = "set_head q (pnext s p) s"
  have "remove_from q p s = Some (Inr (PCB_SUCCESS, ?s))"
    using True by (simp add: remove_from_def Let_def pnext_def)
  moreover have "qlist (pnext ?s) (get_head q ?s) (remove1 p xs)" using q p True by (cases xs) auto
  ultimately show ?thesis by (intro exI [of _ ?s]) auto
next
  case False
  obtain us ys where "xs = us @ p # ys" using p by (meson split_list)
  moreover have "us \<noteq> []" using False q calculation by auto
  ultimately obtain ws v where xs: "xs = ws @ v # p # ys" by (cases us rule: rev_cases) auto
  let ?s = "set_next_pcb v (pnext s p) s"
  have d: "distinct xs" using qlist_distinct [OF q] .
  have "v \<noteq> NULL" using qlist_not_NULL [OF q] xs by auto
  then have "remove_from q p s = Some (Inr (PCB_SUCCESS, ?s))"
    using False find_prev_in [of s "get_head q s" ws v p ys] q xs
    by (simp add: remove_from_def Let_def pnext_def)
  moreover have "qlist (pnext ?s) (get_head q ?s) (remove1 p xs)"
    using pcbl.unlink_next [of s "get_head q s" ws v p ys] q xs d by (auto simp: remove1_append)
  ultimately show ?thesis using xs d by (intro exI [of _ ?s]) auto
qed

lemma remove_from_out:
  assumes "qlist (pnext s) (get_head q s) xs" "p \<notin> set xs" "p \<noteq> NULL"
  shows "remove_from q p s = Some (Inr (PCB_ERROR, s))"
proof -
  have "get_head q s \<noteq> p" using assms by (cases xs) auto
  then show ?thesis using find_prev_out [OF assms] by (simp add: remove_from_def Let_def)
qed

text \<open>The queue \<open>pcb_remove\<close> searches: it knows the ready and the suspended queue.\<close>

definition removes_from :: "int \<Rightarrow> queue option" where
  "removes_from st = (if queue_of st = Some Blocked then None else queue_of st)"

lemma pcb_remove_eq:
  "p \<noteq> NULL \<Longrightarrow> pcb_remove p s =
     (case removes_from (state (pcbs s p)) of None \<Rightarrow> Some (Inr (PCB_ERROR, s)) | Some q \<Rightarrow> remove_from q p s)"
  by (auto simp: pcb_remove_def removes_from_def)

lemma pcb_remove_queues:
  assumes Q: "pcb_queues s Q" and p: "p \<in> set (Q q)" and st: "removes_from (state (pcbs s p)) = Some q"
  shows "\<exists>s'. pcb_remove p s = Some (Inr (PCB_SUCCESS, s')) \<and> pcb_queues s' (Q(q := remove1 p (Q q))) \<and>
    same_procs s s' \<and> pnext s' p = pnext s p"
proof -
  have nz: "p \<noteq> NULL" using qlist_not_NULL [OF pcb_queuesD [OF Q]] p by auto
  obtain s' where s': "remove_from q p s = Some (Inr (PCB_SUCCESS, s'))"
    "qlist (pnext s') (get_head q s') (remove1 p (Q q))" "\<And>q'. q' \<noteq> q \<Longrightarrow> get_head q' s' = get_head q' s"
    "\<And>r. r \<notin> set (Q q) \<Longrightarrow> pnext s' r = pnext s r" "same_procs s s'" "pnext s' p = pnext s p"
    using remove_from_in [OF pcb_queuesD [OF Q] p] by blast
  have "qlist (pnext s') (get_head q' s') (Q q')" if "q' \<noteq> q" for q'
  proof -
    have "qlist (pnext s') (get_head q' s) (Q q') = qlist (pnext s) (get_head q' s) (Q q')"
      using s'(4) pcb_queues_other [OF Q _ that [symmetric]] by (intro qlist_cong) auto
    then show ?thesis using pcb_queuesD [OF Q] s'(3) [OF that] by simp
  qed
  then have "pcb_queues s' (Q(q := remove1 p (Q q)))"
    using s'(2) Q set_remove1_subset [of p "Q q"] by (fastforce simp: pcb_queues_def)
  then show ?thesis using s' st nz by (auto simp: pcb_remove_eq)
qed

lemma pcb_remove_missing:
  assumes Q: "pcb_queues s Q" and p: "p \<noteq> NULL" "\<And>q. removes_from (state (pcbs s p)) = Some q \<Longrightarrow> p \<notin> set (Q q)"
  shows "pcb_remove p s = Some (Inr (PCB_ERROR, s))"
  using remove_from_out [OF pcb_queuesD [OF Q]] p by (auto simp: pcb_remove_eq split: option.splits)

subsection \<open>pcb_find\<close>

definition named :: "'a procs_scheme \<Rightarrow> bytes \<Rightarrow> u32 \<Rightarrow> bool" where
  "named s nm p \<longleftrightarrow> cstring (name (pcbs s p)) = cstring nm"

definition names_ok :: "'a procs_scheme \<Rightarrow> u32 list \<Rightarrow> bool" where
  "names_ok s xs \<longleftrightarrow> (\<forall>p \<in> set xs. 0 \<in> set (name (pcbs s p)))"

definition found :: "u32 option \<Rightarrow> u32" where
  "found r = (case r of Some p \<Rightarrow> p | None \<Rightarrow> NULL)"

lemma strcmp_named:
  assumes "0 \<in> set nm" "0 \<in> set (name (pcbs s p))"
  obtains d where "strcmp nm (name (pcbs s p)) = Inr d" "d = 0 \<longleftrightarrow> named s nm p"
proof -
  obtain d where "strcmp nm (name (pcbs s p)) = Inr d" using strcmp_total [OF assms] by blast
  then show ?thesis using that strcmp_zero_iff [OF assms] by (auto simp: named_def)
qed

lemma find_ready_eq:
  "qlist (pnext s) c xs \<Longrightarrow> names_ok s xs \<Longrightarrow> 0 \<in> set nm \<Longrightarrow>
   find_ready nm c s = Some (Inr (found (find (named s nm) xs)))"
proof (induction xs arbitrary: c)
  case Nil
  then show ?case by (subst find_ready.simps) (simp add: found_def)
next
  case (Cons x xs)
  then have c: "c = x" "x \<noteq> NULL" "qlist (pnext s) (pnext s x) xs" "0 \<in> set (name (pcbs s x))" "names_ok s xs"
    by (auto simp: names_ok_def)
  obtain d where d: "strcmp nm (name (pcbs s x)) = Inr d" "d = 0 \<longleftrightarrow> named s nm x"
    using strcmp_named [OF Cons.prems(3) c(4)] .
  have IH: "find_ready nm (pnext s x) s = Some (Inr (found (find (named s nm) xs)))"
    using c Cons.prems by (intro Cons.IH) auto
  show ?case using c d IH by (subst find_ready.simps) (auto simp: found_def pnext_def)
qed

lemma find_suspended_eq:
  "qlist (pnext s) c xs \<Longrightarrow> names_ok s xs \<Longrightarrow> 0 \<in> set nm \<Longrightarrow>
   find_suspended nm c s = Some (Inr (found (find (named s nm) xs),
     if xs = [] \<or> find (named s nm) xs \<noteq> None then s else print_lit_nul not_found_msg s))"
proof (induction xs arbitrary: c)
  case Nil
  then show ?case by (subst find_suspended.simps) (simp add: found_def)
next
  case (Cons x xs)
  then have c: "c = x" "x \<noteq> NULL" "qlist (pnext s) (pnext s x) xs" "0 \<in> set (name (pcbs s x))" "names_ok s xs"
    by (auto simp: names_ok_def)
  obtain d where d: "strcmp nm (name (pcbs s x)) = Inr d" "d = 0 \<longleftrightarrow> named s nm x"
    using strcmp_named [OF Cons.prems(3) c(4)] .
  have IH: "find_suspended nm (pnext s x) s = Some (Inr (found (find (named s nm) xs),
      if xs = [] \<or> find (named s nm) xs \<noteq> None then s else print_lit_nul not_found_msg s))"
    using c Cons.prems by (intro Cons.IH) auto
  have "next_pcb (pcbs s x) = NULL \<longleftrightarrow> xs = []" using qlist_Nil_iff [OF c(3)] by (simp add: pnext_def)
  then show ?case using c d IH by (subst find_suspended.simps) (auto simp: found_def pnext_def)
qed

lemma find_in_list: "find P xs = Some p \<Longrightarrow> p \<in> set xs \<and> P p"
  by (induction xs) (auto split: if_splits)

lemma find_append:
  "find P (xs @ ys) = (case find P xs of None \<Rightarrow> find P ys | Some p \<Rightarrow> Some p)"
  by (induction xs) auto

lemma pcb_find_eq:
  assumes Q: "pcb_queues s Q" and nm: "0 \<in> set nm" "names_ok s (Q Ready @ Q Suspended)"
  shows "pcb_find nm s = Some (Inr (found (find (named s nm) (Q Ready @ Q Suspended)),
     if Q Suspended = [] \<or> find (named s nm) (Q Ready @ Q Suspended) \<noteq> None then s
     else print_lit_nul not_found_msg s))"
proof -
  have r: "find_ready nm (ready_head s) s = Some (Inr (found (find (named s nm) (Q Ready))))"
    using pcb_queuesD [OF Q, of Ready] nm by (intro find_ready_eq) (auto simp: names_ok_def)
  have u: "find_suspended nm (suspended_head s) s = Some (Inr (found (find (named s nm) (Q Suspended)),
     if Q Suspended = [] \<or> find (named s nm) (Q Suspended) \<noteq> None then s else print_lit_nul not_found_msg s))"
    using pcb_queuesD [OF Q, of Suspended] nm by (intro find_suspended_eq) (auto simp: names_ok_def)
  have a: "find (named s nm) (Q Ready @ Q Suspended) =
      (case find (named s nm) (Q Ready) of None \<Rightarrow> find (named s nm) (Q Suspended) | Some p \<Rightarrow> Some p)"
    by (rule find_append)
  show ?thesis
  proof (cases "find (named s nm) (Q Ready)")
    case None
    then show ?thesis using r u a by (simp add: pcb_find_def found_def)
  next
    case (Some p)
    then have "p \<noteq> NULL" using find_in_list [OF Some] qlist_not_NULL [OF pcb_queuesD [OF Q]] by auto
    then show ?thesis using Some r a by (simp add: pcb_find_def found_def)
  qed
qed

subsection \<open>pcb_setup\<close>

lemma upd_pcb_simps [simp]:
  "pcbs (upd_pcb p f s) = (pcbs s)(p := f (pcbs s p))"
  "ready_head (upd_pcb p f s) = ready_head s" "blocked_head (upd_pcb p f s) = blocked_head s"
  "suspended_head (upd_pcb p f s) = suspended_head s" "resume_head (upd_pcb p f s) = resume_head s"
  "mcbs (upd_pcb p f s) = mcbs s" "memlist (upd_pcb p f s) = memlist s"
  "malloc_function (upd_pcb p f s) = malloc_function s" "free_function (upd_pcb p f s) = free_function s"
  by (simp_all add: upd_pcb_def)

lemma get_head_upd [simp]: "get_head q (upd_pcb p f s) = get_head q s"
  by (cases q) simp_all

lemma procs_print [simp]:
  "pcbs (print_lit_nul msg s) = pcbs s" "get_head q (print_lit_nul msg s) = get_head q s"
  "mcbs (print_lit_nul msg s) = mcbs s" "memlist (print_lit_nul msg s) = memlist s"
  "free_function (print_lit_nul msg s) = free_function s"
  by (cases q; simp add: print_lit_nul_def write_req_def emit_def)+

lemma pcb_queues_frame:
  assumes Q: "pcb_queues s Q" and "\<And>q. get_head q t = get_head q s" "\<And>p. p \<in> queued Q \<Longrightarrow> pcbs t p = pcbs s p"
  shows "pcb_queues t Q"
proof -
  have "qlist (pnext t) (get_head q s) (Q q) = qlist (pnext s) (get_head q s) (Q q)" for q
    using assms(3) by (intro qlist_cong) (metis UN_iff UNIV_I pnext_def queued_def)
  then show ?thesis using Q assms(2) by (simp add: pcb_queues_def)
qed

text \<open>A process table in order: queues, names, and every queued PCB is memory held from the heap.\<close>

definition procs_ok :: "'a procs_scheme \<Rightarrow> (queue \<Rightarrow> u32 list) \<Rightarrow> bool" where
  "procs_ok s Q \<longleftrightarrow> pcb_queues s Q \<and> heap_ok s \<and> (\<forall>p. length (name (pcbs s p)) = 50) \<and>
     names_ok s (Q Ready @ Q Suspended) \<and> (\<forall>p \<in> queued Q. unat p \<in> fst ` heap_live s) \<and>
     malloc_function s = Some Allocate_Memory \<and> free_function s = Some Free_Memory"

lemma pcb_allocate_ok:
  assumes ok: "procs_ok s Q" and al: "allocate_memory 1100 s = Some (Inr (p, s'))" "p \<noteq> NULL"
  shows "\<exists>s''. pcb_allocate s = Some (Inr (p, s'')) \<and> p \<notin> queued Q \<and> pcb_queues s'' Q \<and>
    names_ok s'' (Q Ready @ Q Suspended) \<and>
    pcbs s'' = (pcbs s)(p := (pcbs s p)\<lparr>proc_class := -1, priority := -1, state := -1,
      next_pcb := NULL, prev_pcb := NULL\<rparr>) \<and>
    s'' = s\<lparr>mcbs := mcbs s', pcbs := pcbs s''\<rparr>"
proof -
  have fr: "s' = s\<lparr>mcbs := mcbs s'\<rparr>" using ok al by (intro allocate_memory_frame) (auto simp: procs_ok_def)
  have "unat p \<notin> fst ` heap_live s" using heap_alloc_law [of s 1100] ok al by (auto simp: procs_ok_def)
  then have p: "p \<notin> queued Q" using ok by (auto simp: procs_ok_def)
  let ?f = "\<lambda>b. b\<lparr>proc_class := -1, priority := -1, state := -1, next_pcb := NULL, prev_pcb := NULL\<rparr>"
  let ?s = "upd_pcb p ?f s'"
  have pc: "pcbs s' = pcbs s" using arg_cong [OF fr, of pcbs] by simp
  have hd: "get_head q s' = get_head q s" for q using arg_cong [OF fr, of "get_head q"] by (cases q) simp_all
  have "pcb_allocate s = Some (Inr (p, ?s))"
    using ok al by (simp add: pcb_allocate_def sys_alloc_mem_def procs_ok_def)
  moreover have "pcb_queues ?s Q"
  proof (rule pcb_queues_frame)
    show "pcb_queues s Q" using ok by (simp add: procs_ok_def)
    show "get_head q ?s = get_head q s" for q by (simp add: hd)
    show "pcbs ?s r = pcbs s r" if "r \<in> queued Q" for r using that p by (auto simp: pc)
  qed
  moreover have "names_ok ?s (Q Ready @ Q Suspended)"
    using ok pc by (auto simp: names_ok_def procs_ok_def)
  moreover have "?s = s\<lparr>mcbs := mcbs s', pcbs := pcbs ?s\<rparr>" by (subst fr) (simp add: upd_pcb_def pc)
  ultimately show ?thesis using p pc by (intro exI [of _ ?s]) simp
qed

lemma print_lit_nul_frame: "print_lit_nul m s = s\<lparr>trace := trace (print_lit_nul m s)\<rparr>"
  by (simp add: print_lit_nul_def write_req_def emit_def)

lemma copy_name:
  assumes "0 \<in> set nm" "length (cstring nm) < length dst"
  shows "\<exists>d. memcpy_loop dst nm (length (cstring nm) + 1) 0 = Inr d \<and> length d = length dst \<and>
    cstring d = cstring nm \<and> 0 \<in> set d"
proof -
  let ?n = "length (cstring nm) + 1"
  have len: "?n \<le> length nm" "?n \<le> length dst" using cstring_length_less [OF assms(1)] assms(2) by auto
  then have "memcpy_loop dst nm ?n 0 = Inr (take ?n nm @ drop ?n dst)" by (intro memcpy_loop_eq) auto
  moreover have "take ?n nm = cstring nm @ [0]"
    using len(1) nth_after_cstring [OF assms(1)]
    by (simp add: take_Suc_conv_app_nth cstring_def takeWhile_eq_take [symmetric])
  ultimately show ?thesis using len by (intro exI [of _ "take ?n nm @ drop ?n dst"]) auto
qed

lemma find_none: "(\<And>p. p \<in> set xs \<Longrightarrow> \<not> P p) \<Longrightarrow> find P xs = None"
  by (simp add: find_None_iff)

lemma pcb_setup_ok:
  assumes ok: "procs_ok s Q" and al: "allocate_memory 1100 s = Some (Inr (p, s'))" "p \<noteq> NULL"
    and arg: "0 \<le> prio" "prio \<le> 9" "cls \<in> {0, 1}"
    and nm: "0 \<in> set nm" "2 \<le> length (cstring nm)" "length (cstring nm) < 50"
    and new: "\<And>q. q \<in> set (Q Ready @ Q Suspended) \<Longrightarrow> \<not> named s nm q"
  shows "\<exists>t. pcb_setup (Some nm) cls prio s = Some (Inr (p, t)) \<and> pcb_queues t Q \<and> p \<notin> queued Q \<and> named t nm p \<and>
    (\<forall>q. q \<noteq> p \<longrightarrow> pcbs t q = pcbs s q) \<and> priority (pcbs t p) = prio \<and> proc_class (pcbs t p) = cls \<and>
    state (pcbs t p) = READY_STATE \<and> next_pcb (pcbs t p) = NULL \<and> stack_top (pcbs t p) = p + 1024 \<and>
    length (name (pcbs t p)) = 50 \<and> t = s\<lparr>mcbs := mcbs s', pcbs := pcbs t, trace := trace t\<rparr>"
proof -
  obtain s1 where s1: "pcb_allocate s = Some (Inr (p, s1))" "p \<notin> queued Q" "pcb_queues s1 Q"
    "names_ok s1 (Q Ready @ Q Suspended)"
    "pcbs s1 = (pcbs s)(p := (pcbs s p)\<lparr>proc_class := -1, priority := -1, state := -1, next_pcb := NULL, prev_pcb := NULL\<rparr>)"
    "s1 = s\<lparr>mcbs := mcbs s', pcbs := pcbs s1\<rparr>"
    using pcb_allocate_ok [OF ok al] by blast
  have pq: "p \<notin> set (Q q)" for q using s1(2) by (auto simp: queued_def)
  have "length (name (pcbs s1 p)) = 50" using ok s1(5) by (simp add: procs_ok_def)
  with copy_name [OF nm(1), of "name (pcbs s1 p)"] nm(3) obtain d
    where d: "memcpy_loop (name (pcbs s1 p)) nm (length (cstring nm) + 1) 0 = Inr d" "cstring d = cstring nm" "0 \<in> set d"
      "length d = 50"
    by auto
  define t where "t = upd_pcb p (\<lambda>b. b\<lparr>name := d, priority := prio, proc_class := cls, state := READY_STATE,
      stack_top := p + stack_offset + 1024 - sizeof_context\<rparr>) s1"
  have tq: "pcb_queues t Q" using s1(2,3) by (intro pcb_queues_frame [OF s1(3)]) (auto simp: t_def)
  have tn: "names_ok t (Q Ready @ Q Suspended)" using s1(4) d(3) by (auto simp: names_ok_def t_def)
  have "find (named t d) (Q Ready @ Q Suspended) = None"
    using new pq d(2) s1(5) by (intro find_none) (auto simp: named_def t_def)
  then obtain u where u: "pcb_find d t = Some (Inr (NULL, u))" "u = t \<or> u = print_lit_nul not_found_msg t"
    using pcb_find_eq [OF tq d(3) tn] by (auto simp: found_def)
  have "pcb_setup (Some nm) cls prio s = Some (Inr (p, u))"
    using s1(1) al(2) arg nm d(1) u(1) by (auto simp: pcb_setup_def Let_def t_def)
  moreover have "pcbs u = pcbs t" "pcb_queues u Q" using u(2) tq pcb_queues_frame [OF tq, of u] by auto
  moreover have "u = s\<lparr>mcbs := mcbs s', pcbs := pcbs u, trace := trace u\<rparr>"
  proof -
    have tt: "t = s\<lparr>mcbs := mcbs s', pcbs := pcbs t\<rparr>" unfolding t_def by (subst s1(6)) (simp add: upd_pcb_def)
    have ut: "u = t\<lparr>trace := trace u\<rparr>" using u(2) print_lit_nul_frame by fastforce
    have "u = s\<lparr>mcbs := mcbs s', pcbs := pcbs t, trace := trace u\<rparr>"
      using trans [OF ut arg_cong [OF tt, of "\<lambda>x. x\<lparr>trace := trace u\<rparr>"]] by simp
    moreover have "pcbs u = pcbs t" using u(2) by auto
    ultimately show ?thesis by simp
  qed
  ultimately show ?thesis using s1(2,5) d(2,4) by (intro exI [of _ u]) (auto simp: t_def named_def)
qed

subsection \<open>pcb_free\<close>

lemma pcb_free_double:
  assumes "heap_ok s" "free_function s = Some Free_Memory" "p \<noteq> NULL" "unat p \<in> fst ` heap_live s"
    and "name (pcbs s p) \<noteq> []" "name (pcbs s p) ! 0 \<noteq> 0"
  shows "pcb_free p s = Some (Inl Null_Deref)"
proof -
  obtain s' where s': "free_memory p s = Some (Inr (0, s'))" "heap_ok s'"
    "heap_live s' = {(q, n) \<in> heap_live s. q \<noteq> unat p}"
    using heap_free_law [OF assms(1,4)] by blast
  obtain bs where h: "heap_blocks s bs" using assms(1) by (auto simp: heap_ok_def)
  have "free_function s' = free_function s"
  proof -
    obtain bs' where "mark_free (unat p) (unat (memlist s)) bs = Some bs'"
      using assms(4) mark_free_None_iff heap_live_eq [OF h] by (metis not_None_eq)
    then show ?thesis using free_memory_refines [OF h] s'(1) by fastforce
  qed
  moreover obtain bs' where h': "heap_blocks s' bs'" using s'(2) by (auto simp: heap_ok_def)
  moreover have "free_memory p s' = Some (Inl Null_Deref)"
    using s'(3) mark_free_None_iff [of "unat p" "unat (memlist s')" bs'] heap_live_eq [OF h']
    by (intro free_memory_missing [OF h']) auto
  ultimately show ?thesis using assms s'(1) by (simp add: pcb_free_def sys_free_mem_def)
qed

subsection \<open>Inserting a queued PCB\<close>

text \<open>A queue whose last node points to itself: a search that does not find its name never ends.\<close>

lemma find_ready_cycle:
  assumes "p \<noteq> NULL" "pnext s p = p" "0 \<in> set nm" "0 \<in> set (name (pcbs s p))" "\<not> named s nm p"
  shows "find_ready nm p s = None"
proof -
  obtain d where d: "strcmp nm (name (pcbs s p)) = Inr d" "d \<noteq> 0"
    using strcmp_named [OF assms(3,4)] assms(5) by metis
  have "\<not> (nm' = nm \<and> c = p \<and> s' = s)" if "find_ready nm' c s' = Some r" for nm' c s' r
    using that
    by (rule find_ready.raw_induct [rotated]) (use assms(1,2) d in \<open>auto simp: pnext_def\<close>, blast)
  then show ?thesis by (cases "find_ready nm p s") auto
qed

subsection \<open>The queues of pcb.c fulfil the contract\<close>

definition slot_of :: "'a procs_scheme \<Rightarrow> u32 \<Rightarrow> queue option" where
  "slot_of s p = queue_of (state (pcbs s p))"

lemma kept_simps [simp]: "prio_of (kept s) = prio_of s" "slot_of (kept s) = slot_of s"
  by (auto simp: prio_of_def slot_of_def kept_def)

interpretation pq: process_queues pcb_insert pcb_remove pcb_queues kept prio_of slot_of "\<lambda>q. q \<noteq> Blocked"
proof
  show "\<exists>s'. pcb_insert p s = Some (Inr s') \<and> pcb_queues s' (Q(q := enqueue (prio_of (kept s)) p (Q q))) \<and> kept s' = kept s"
    if "pcb_queues s Q" "p \<noteq> NULL" "\<And>r. p \<notin> set (Q r)" "slot_of (kept s) p = Some q" for s :: "'a procs_scheme" and Q p q
    using pcb_insert_queues [OF that(1,2), of q] that(3,4) by (auto simp: queued_def slot_of_def same_procs_def)
  show "\<exists>s'. pcb_remove p s = Some (Inr (0, s')) \<and> pcb_queues s' (Q(q := remove1 p (Q q))) \<and> kept s' = kept s"
    if "pcb_queues s Q" "p \<in> set (Q q)" "slot_of (kept s) p = Some q" "q \<noteq> Blocked" for s :: "'a procs_scheme" and Q p q
  proof -
    have "removes_from (state (pcbs s p)) = Some q" using that(3,4) by (auto simp: removes_from_def slot_of_def)
    from pcb_remove_queues [OF that(1,2) this] show ?thesis by (auto simp: same_procs_def)
  qed
  show "p \<noteq> NULL" if "pcb_queues s Q" "p \<in> set (Q q)" for s :: "'a procs_scheme" and Q p q
    using qlist_not_NULL [OF pcb_queuesD [OF that(1)] that(2)] .
qed

lemma insert_position_ends: "qlist (pnext s) h xs \<Longrightarrow> h \<noteq> NULL \<Longrightarrow> insert_position k h s \<noteq> None"
  by (cases xs) (auto simp: insert_position_eq)

lemma find_prev_ends:
  assumes "qlist (pnext s) h xs" "p \<noteq> NULL" shows "find_prev p h s \<noteq> None"
proof (cases "p \<in> set xs \<and> h \<noteq> p")
  case True
  then obtain us ys where us: "xs = us @ p # ys" by (meson split_list)
  moreover have "us \<noteq> []" using True assms us by auto
  ultimately obtain ws v where "xs = ws @ v # p # ys" by (cases us rule: rev_cases) auto
  then show ?thesis using find_prev_in [of s h ws v p ys] assms(1) True by simp
next
  case False
  show ?thesis
  proof (cases "p \<in> set xs")
    case True
    then obtain ys where xs: "xs = p # ys" "h = p" using False assms(1) by (cases xs) auto
    have "qlist (pnext s) (pnext s p) ys" "p \<notin> set ys" using assms(1) qlist_distinct [OF assms(1)] xs by auto
    then have "find_prev p (pnext s p) s = Some NULL" using find_prev_out assms(2) by blast
    moreover have "pnext s p \<noteq> p" using \<open>qlist (pnext s) (pnext s p) ys\<close> \<open>p \<notin> set ys\<close> assms(2) by (cases ys) auto
    ultimately show ?thesis using xs assms(2) by (subst find_prev.simps) (simp add: pnext_def)
  qed (use find_prev_out [OF assms(1) _ assms(2)] in simp)
qed

section \<open>Properties\<close>

text \<open>A process table for examples: a heap with 5000 free bytes at 0x1000, the given PCBs and ready queue head.\<close>

definition table_at :: "(u32 \<Rightarrow> pcb) \<Rightarrow> u32 \<Rightarrow> procs" where
  "table_at f h = \<lparr>env = (\<lambda>_ _. 0), reads = 0, trace = [], initialized = (\<lambda>_. 0), gdtr = None, data_segs = [],
     idt_entries = [], idtr_size = None, frames = [], kdir = 0,
     kdir_mem = \<lparr>dir_tables = (\<lambda>_. 0), tables_phys = (\<lambda>_. 0)\<rparr>,
     page_tables = (\<lambda>_ _. zero_entry), phys_alloc_addr = 0,
     heap_is_initialized = True, heap_addr = KHEAP_BASE, cr3 = None,
     memlist = 0x1000, mcbs = (\<lambda>a. if a = 0x1000 then 5003 else 0), malloc_function = Some Allocate_Memory,
     free_function = Some Free_Memory, pcbs = f, ready_head = h, blocked_head = NULL, suspended_head = NULL,
     resume_head = NULL\<rparr>"

definition some_pcb :: "string \<Rightarrow> int \<Rightarrow> u32 \<Rightarrow> pcb" where
  "some_pcb nm prio nx = \<lparr>name = map of_char nm @ replicate (50 - length nm) 0, proc_class = 1, priority = prio,
     state = 1, stack_top = 0, next_pcb = nx, prev_pcb = NULL\<rparr>"

text \<open>Ready queue: \<open>aa\<close> (priority 1) at 0x8000, \<open>bb\<close> (priority 5) at 0x9000; \<open>cc\<close> (priority 1) at 0xa000 not queued.\<close>

definition two_ready :: procs where
  "two_ready = table_at (\<lambda>p. if p = 0x8000 then some_pcb ''aa'' 1 0x9000 else if p = 0x9000 then some_pcb ''bb'' 5 NULL
     else some_pcb ''cc'' 1 NULL) 0x8000"

definition two_Q :: "queue \<Rightarrow> u32 list" where
  "two_Q = (\<lambda>_. [])(Ready := [0x8000, 0x9000])"

lemma two_ready_simps:
  "ready_head two_ready = 0x8000" "suspended_head two_ready = NULL" "blocked_head two_ready = NULL"
  "pcbs two_ready 0x8000 = some_pcb ''aa'' 1 0x9000" "pcbs two_ready 0x9000 = some_pcb ''bb'' 5 NULL"
  "pcbs two_ready 0xa000 = some_pcb ''cc'' 1 NULL"
  by (simp_all add: two_ready_def table_at_def)

lemma two_ready_queues: "pcb_queues two_ready two_Q"
proof -
  have "qlist (pnext two_ready) (get_head q two_ready) (two_Q q)" for q
    by (cases q) (simp_all add: two_Q_def two_ready_simps pnext_def some_pcb_def)
  then show ?thesis by (auto simp: pcb_queues_def two_Q_def)
qed

text \<open>
  C2. \<open>pcb_insert\<close> of a process that is in no queue ends, and puts it in the queue of its state
  behind every process with the same or a smaller priority number: a queue in priority order
  stays in order, processes of equal priority keep their order of arrival with the new one last,
  and the other queues, the other fields of all PCBs and the rest of memory stay as they were.
\<close>

theorem pcb_insert_stable_priority:
  assumes "pcb_queues s Q" "p \<noteq> NULL" "\<forall>r. p \<notin> set (Q r)" "queue_of (state (pcbs s p)) = Some q"
    "sorted_queue (prio_of s) (Q q)"
  shows "let xs = enqueue (prio_of s) p (Q q)
    in (\<exists>s'. pcb_insert p s = Some (Inr s') \<and> pcb_queues s' (Q(q := xs)) \<and> sorted_queue (prio_of s') xs \<and> kept s' = kept s) \<and>
       set xs = insert p (set (Q q)) \<and>
       (\<forall>k. filter (\<lambda>r. prio_of s r = k) xs =
            filter (\<lambda>r. prio_of s r = k) (Q q) @ (if prio_of s p = k then [p] else []))"
proof -
  have "slot_of (kept s) p = Some q" using assms(4) by (simp add: slot_of_def)
  then obtain s' where s': "pcb_insert p s = Some (Inr s')" "pcb_queues s' (Q(q := enqueue (prio_of s) p (Q q)))"
    "kept s' = kept s"
    using pq.insert_law [OF assms(1,2)] assms(3) by auto
  have "prio_of s' = prio_of s" using s'(3) by (metis kept_simps(1))
  then show ?thesis
    using s' sorted_enqueue [OF assms(5), of p] enqueue_fifo [OF assms(5)] by (auto simp: Let_def)
qed

theorem pcb_insert_stable_priority_witness:
  "\<exists>s'. pcb_insert 0xa000 two_ready = Some (Inr s') \<and> pcb_queues s' (two_Q(Ready := [0x8000, 0xa000, 0x9000]))"
proof -
  have pr: "prio_of two_ready 0x8000 = 1" "prio_of two_ready 0x9000 = 5" "prio_of two_ready 0xa000 = 1"
    by (simp_all add: prio_of_def two_ready_simps some_pcb_def)
  show ?thesis
    using pcb_insert_stable_priority [OF two_ready_queues, of "0xa000" Ready]
    by (auto simp: two_Q_def two_ready_simps some_pcb_def sorted_queue_def pr enqueue_Cons)
qed

text \<open>
  C16. \<open>pcb_remove\<close> of a queued ready or suspended process returns success and takes exactly this
  process out of its queue; of a process that is not where its state says, or that is blocked, it
  returns an error and changes nothing. It ends in every case.
\<close>

theorem pcb_remove_unlinks:
  assumes "pcb_queues s Q" "p \<noteq> NULL"
  shows "case removes_from (state (pcbs s p)) of
      Some q \<Rightarrow>
        if p \<in> set (Q q)
        then \<exists>s'. pcb_remove p s = Some (Inr (0, s')) \<and> pcb_queues s' (Q(q := remove1 p (Q q))) \<and> kept s' = kept s
        else pcb_remove p s = Some (Inr (1, s))
    | None \<Rightarrow> pcb_remove p s = Some (Inr (1, s))"
proof (cases "removes_from (state (pcbs s p))")
  case None
  then show ?thesis using pcb_remove_missing [OF assms(1,2)] by simp
next
  case (Some q)
  show ?thesis
  proof (cases "p \<in> set (Q q)")
    case True
    then show ?thesis using pcb_remove_queues [OF assms(1) True Some] Some by (auto simp: same_procs_def)
  next
    case False
    then show ?thesis using pcb_remove_missing [OF assms(1,2)] Some by auto
  qed
qed

theorem pcb_remove_unlinks_witness:
  "(\<exists>s'. pcb_remove 0x9000 two_ready = Some (Inr (0, s')) \<and> pcb_queues s' (two_Q(Ready := [0x8000]))) \<and>
   pcb_remove 0xa000 two_ready = Some (Inr (1, two_ready))"
  using pcb_remove_unlinks [OF two_ready_queues, of "0x9000"] pcb_remove_unlinks [OF two_ready_queues, of "0xa000"]
  by (auto simp: two_ready_simps some_pcb_def removes_from_def two_Q_def)

text \<open>
  Inserting a process that is in no queue and removing it again (unless it is blocked) gives
  back the queues as they were, with nothing else changed.
\<close>

theorem pcb_insert_remove:
  assumes "pcb_queues s Q" "p \<noteq> NULL" "\<forall>r. p \<notin> set (Q r)" "queue_of (state (pcbs s p)) = Some q" "q \<noteq> Blocked"
  shows "\<exists>s' s''. pcb_insert p s = Some (Inr s') \<and> pcb_remove p s' = Some (Inr (0, s'')) \<and>
    pcb_queues s'' Q \<and> kept s'' = kept s"
  using pq.insert_remove [OF assms(1,2)] assms(3-5) by (simp add: slot_of_def)

theorem pcb_insert_remove_witness:
  "\<exists>s' s''. pcb_insert 0xa000 two_ready = Some (Inr s') \<and> pcb_remove 0xa000 s' = Some (Inr (0, s'')) \<and>
    pcb_queues s'' two_Q"
  using pcb_insert_remove [OF two_ready_queues, of "0xa000" Ready]
  by (auto simp: two_ready_simps some_pcb_def two_Q_def)



text \<open>
  C24. \<open>pcb_setup\<close> with a class, a priority from 0 to 9 and an unused name of 2 to 49 characters,
  when the heap has room: it returns a PCB in new memory that is in no queue, ready, with the
  name, class and priority asked for and the stack pointer below the end of its stack by the size
  of a context; no other PCB and no queue changes.
\<close>

theorem pcb_setup_creates:
  assumes "procs_ok s Q" "allocate_memory 1100 s = Some (Inr (p, s'))" "p \<noteq> NULL"
    and "0 \<le> prio" "prio \<le> 9" "cls \<in> {0, 1}"
    and "0 \<in> set nm" "2 \<le> length (cstring nm)" "length (cstring nm) < 50"
    and "\<forall>q \<in> set (Q Ready @ Q Suspended). \<not> named s nm q"
  shows "\<exists>t. pcb_setup (Some nm) cls prio s = Some (Inr (p, t)) \<and> pcb_queues t Q \<and> p \<notin> queued Q \<and> named t nm p \<and>
    (\<forall>q. q \<noteq> p \<longrightarrow> pcbs t q = pcbs s q) \<and> priority (pcbs t p) = prio \<and> proc_class (pcbs t p) = cls \<and>
    state (pcbs t p) = 1 \<and> next_pcb (pcbs t p) = NULL \<and> stack_top (pcbs t p) = p + 1024"
  using pcb_setup_ok [OF assms(1-9)] assms(10) by blast

definition no_procs :: procs where
  "no_procs = table_at (\<lambda>_. some_pcb [] 0 NULL) NULL"

lemma no_procs_ok: "procs_ok no_procs (\<lambda>_. [])" "heap_blocks no_procs [(5000, True)]"
proof -
  show h: "heap_blocks no_procs [(5000, True)]"
    by (simp add: no_procs_def table_at_def heap_blocks_def hdr_def)
  have "get_head q no_procs = NULL" for q by (cases q) (simp_all add: no_procs_def table_at_def)
  then show "procs_ok no_procs (\<lambda>_. [])"
    using h by (auto simp: procs_ok_def pcb_queues_def heap_ok_def queued_def names_ok_def)
      (simp_all add: no_procs_def table_at_def some_pcb_def)
qed

theorem pcb_setup_creates_witness:
  "\<exists>t. pcb_setup (Some (c_str ''worker'')) 1 3 no_procs = Some (Inr (0x1004, t)) \<and>
     priority (pcbs t 0x1004) = 3 \<and> stack_top (pcbs t 0x1004) = 0x1404"
proof -
  have "memlist no_procs = 0x1000" by (simp add: no_procs_def table_at_def)
  then obtain s' where al: "allocate_memory 1100 no_procs = Some (Inr (0x1004, s'))"
    using allocate_memory_refines [OF no_procs_ok(2), of 1100] by (auto simp: roundup_def)
  show ?thesis
    using pcb_setup_creates [OF no_procs_ok(1) al, of 3 1 "c_str ''worker''"] by (auto simp: c_str_def)
qed

text \<open>
  \<open>pcb_setup\<close> accepts a name of exactly 50 characters and then writes its terminating NUL
  one byte past the \<open>name\<close> array.
\<close>

theorem pcb_setup_name_overflow:
  assumes "procs_ok s Q" "allocate_memory 1100 s = Some (Inr (p, s'))" "p \<noteq> NULL"
    and "0 \<le> prio" "prio \<le> 9" "cls \<in> {0, 1}" "0 \<in> set nm" "length (cstring nm) = 50"
  shows "pcb_setup (Some nm) cls prio s = Some (Inl Out_Of_Bounds)"
proof -
  obtain s1 where s1: "pcb_allocate s = Some (Inr (p, s1))"
    "pcbs s1 = (pcbs s)(p := (pcbs s p)\<lparr>proc_class := -1, priority := -1, state := -1, next_pcb := NULL, prev_pcb := NULL\<rparr>)"
    using pcb_allocate_ok [OF assms(1-3)] by blast
  have "length (name (pcbs s1 p)) = 50" using assms(1) s1(2) by (simp add: procs_ok_def)
  then have "memcpy_loop (name (pcbs s1 p)) nm 51 0 = Inl Out_Of_Bounds" by (intro memcpy_loop_fault) auto
  then show ?thesis using s1(1) assms(3-) by (auto simp: pcb_setup_def)
qed

theorem pcb_setup_name_overflow_witness:
  "pcb_setup (Some (replicate 50 65 @ [0])) 1 3 no_procs = Some (Inl Out_Of_Bounds)"
proof -
  have "memlist no_procs = 0x1000" by (simp add: no_procs_def table_at_def)
  then obtain s' where al: "allocate_memory 1100 no_procs = Some (Inr (0x1004, s'))"
    using allocate_memory_refines [OF no_procs_ok(2), of 1100] by (auto simp: roundup_def)
  have "length (cstring (replicate 50 65 @ [0])) = 50" by simp
  then show ?thesis
    using pcb_setup_name_overflow [OF no_procs_ok(1) al, of 3 1 "replicate 50 65 @ [0]"] by simp
qed

text \<open>
  \<open>pcb_free\<close> releases the memory of a PCB with a name twice (the name is the first field, so
  its address is that of the PCB), and the second release faults.
\<close>

theorem pcb_free_releases_twice:
  assumes "heap_ok s" "free_function s = Some Free_Memory" "p \<noteq> NULL" "unat p \<in> fst ` heap_live s"
    and "name (pcbs s p) \<noteq> []" "name (pcbs s p) ! 0 \<noteq> 0"
  shows "pcb_free p s = Some (Inl Null_Deref)"
  using pcb_free_double [OF assms] .

theorem pcb_free_releases_twice_witness:
  "pcb_free 0x1004 ((table_at (\<lambda>_. some_pcb ''aa'' 1 NULL) NULL)\<lparr>mcbs := (\<lambda>a. if a = 0x1000 then 1102 else 0)\<rparr>) =
     Some (Inl Null_Deref)"
proof (rule pcb_free_releases_twice)
  let ?s = "(table_at (\<lambda>_. some_pcb ''aa'' 1 NULL) NULL)\<lparr>mcbs := (\<lambda>a. if a = 0x1000 then 1102 else 0)\<rparr>"
  have h: "heap_blocks ?s [(1100, False)]" by (simp add: heap_blocks_def table_at_def hdr_def)
  then show "heap_ok ?s" by (auto simp: heap_ok_def)
  show "unat (0x1004 :: u32) \<in> fst ` heap_live ?s" 
    unfolding heap_live_eq [OF h] by (simp add: table_at_def)
qed (simp_all add: table_at_def some_pcb_def)

text \<open>
  C37. Inserting a process into the ready queue that it alone occupies already makes it its own
  successor, and from then on a search for any other name never ends.
\<close>

theorem pcb_insert_twice_cycle:
  assumes "pcb_queues s Q" "Q Ready = [p]" "queue_of (state (pcbs s p)) = Some Ready"
    "0 \<in> set (name (pcbs s p))" "0 \<in> set nm" "\<not> named s nm p"
  shows "\<exists>s'. pcb_insert p s = Some (Inr s') \<and> ready_head s' = p \<and> pnext s' p = p \<and> pcb_find nm s' = None"
proof -
  have h: "ready_head s = p" "p \<noteq> NULL" "pnext s p = NULL" using pcb_queuesD [OF assms(1), of Ready] assms(2) by auto
  let ?s = "set_next_pcb p p (set_next_pcb p (pnext s p) s)"
  have "insert_position (prio_of s p) p s = Some p"
    using insert_position_eq [of s p "[]"] h by simp
  then have "pcb_insert p s = Some (Inr ?s)"
    using h assms(3) by (simp add: pcb_insert_def Let_def prio_of_def pnext_def)
  moreover have "find_ready nm p ?s = None"
    using assms(4-6) h by (intro find_ready_cycle) (auto simp: named_def)
  ultimately show ?thesis using h by (intro exI [of _ ?s]) (simp add: pcb_find_def)
qed

theorem pcb_insert_twice_cycle_witness:
  "\<exists>s'. pcb_insert 0x8000 (table_at (\<lambda>_. some_pcb ''aa'' 1 NULL) 0x8000) = Some (Inr s') \<and>
     pcb_find (c_str ''zz'') s' = None"
proof -
  let ?s = "table_at (\<lambda>_. some_pcb ''aa'' 1 NULL) 0x8000"
  have "qlist (pnext ?s) (get_head q ?s) (((\<lambda>_. [])(Ready := [0x8000])) q)" for q
    by (cases q) (simp_all add: table_at_def pnext_def some_pcb_def)
  then have "pcb_queues ?s ((\<lambda>_. [])(Ready := [0x8000]))" by (auto simp: pcb_queues_def)
  from pcb_insert_twice_cycle [OF this, of "0x8000" "c_str ''zz''"] show ?thesis
    by (auto simp: table_at_def some_pcb_def named_def c_str_def)
qed

text \<open>
  C19. Every operation that walks a queue ends on a well-formed process table, whatever its
  argument: \<open>pcb_insert\<close> and \<open>pcb_remove\<close> of any PCB, queued or not, and \<open>pcb_find\<close> of any name.
\<close>

theorem queue_walks_end:
  assumes "pcb_queues s Q" "names_ok s (Q Ready @ Q Suspended)"
  shows "pcb_insert p s \<noteq> None \<and> pcb_remove p s \<noteq> None \<and> (0 \<in> set nm \<longrightarrow> pcb_find nm s \<noteq> None)"
proof -
  have i: "insert_position k (get_head q s) s \<noteq> None" if "get_head q s \<noteq> NULL" for k q
    using insert_position_ends [OF pcb_queuesD [OF assms(1)] that] .
  have "pcb_insert p s \<noteq> None"
  proof (cases "queue_of (state (pcbs s p))")
    case (Some q)
    then show ?thesis using i [of q "priority (pcbs s p)"]
      by (auto simp: pcb_insert_def Let_def simp del: queue_of.simps split: option.splits)
  qed (simp add: pcb_insert_def)
  moreover have "remove_from q p s \<noteq> None" if "p \<noteq> NULL" for q
    using find_prev_ends [OF pcb_queuesD [OF assms(1), of q] that]
    by (auto simp: remove_from_def Let_def split: option.splits)
  then have "pcb_remove p s \<noteq> None"
    by (cases "p = NULL") (auto simp: pcb_remove_eq pcb_remove_def [of NULL] split: option.splits)
  moreover have "pcb_find nm s \<noteq> None" if "0 \<in> set nm" using pcb_find_eq [OF assms(1) that assms(2)] by simp
  ultimately show ?thesis by blast
qed

theorem queue_walks_end_witness:
  "pcb_insert 0x9000 two_ready \<noteq> None \<and> pcb_remove 0xa000 two_ready \<noteq> None \<and> pcb_find (c_str ''bb'') two_ready \<noteq> None"
proof -
  have "names_ok two_ready (two_Q Ready @ two_Q Suspended)"
    by (simp add: names_ok_def two_Q_def two_ready_simps some_pcb_def)
  from queue_walks_end [OF two_ready_queues this] show ?thesis by simp
qed

end
