(* ===== verification/Serial_Driver.thy ===== *)
theory Serial_Driver
  imports Process_Queues
begin

text \<open>
  The interrupt-driven half of \<open>src/kernel/serial.c\<close>: the device control block, the queue of I/O
  requests, \<open>serial_open\<close>, \<open>serial_read\<close>, \<open>serial_write\<close>, \<open>io_scheduler\<close> and the interrupt
  handlers, with \<open>unblock_pcb\<close> of \<open>src/user/commhand.c\<close>, which the output handler calls.

  Control blocks live in typed stores (\<open>dcbs\<close>, \<open>iocbs\<close>), total functions on addresses: memory
  that has just been allocated holds whatever was there. \<open>bufs a\<close> is the caller's buffer at
  address \<open>a\<close>. \<open>global_pcb\<close> is the running process of \<open>src/kernel/sys_call.c\<close>. The address of
  the interrupt routine \<open>serial_isr\<close> is the parameter \<open>addr\<close> of \<open>serial_open\<close>.
\<close>

section \<open>Model\<close>

datatype alloc_status = AVAILABLE | IN_USE

record iocb =
  curr_proc :: u32
  io_device :: device
  curr_op :: op_code
  buffer :: u32
  buf_size :: int
  buf_index :: u32
  next_iocb :: u32

record dcb =
  curr_dev :: device
  status :: alloc_status
  operation :: op_code
  event_flag :: int
  counter :: int
  io_count :: int
  ring_buffer :: bytes
  ring_head :: int
  ring_tail :: int
  io_head :: u32

record driver = procs +
  serial_port :: u32
  dcbs :: "u32 \<Rightarrow> dcb"
  iocbs :: "u32 \<Rightarrow> iocb"
  bufs :: "u32 \<Rightarrow> bytes"
  global_pcb :: u32

abbreviation (input) sizeof_dcb :: u32 where "sizeof_dcb \<equiv> 52"
abbreviation (input) sizeof_iocb :: u32 where "sizeof_iocb \<equiv> 28"
abbreviation (input) INVALID_RATE :: int where "INVALID_RATE \<equiv> -102"
abbreviation (input) PORT_IN_USE :: int where "PORT_IN_USE \<equiv> -103"

definition upd_dcb :: "u32 \<Rightarrow> (dcb \<Rightarrow> dcb) \<Rightarrow> 'a driver_scheme \<Rightarrow> 'a driver_scheme" where
  "upd_dcb d f s = s\<lparr>dcbs := (dcbs s)(d := f (dcbs s d))\<rparr>"

definition upd_iocb :: "u32 \<Rightarrow> (iocb \<Rightarrow> iocb) \<Rightarrow> 'a driver_scheme \<Rightarrow> 'a driver_scheme" where
  "upd_iocb r f s = s\<lparr>iocbs := (iocbs s)(r := f (iocbs s r))\<rparr>"

definition set_next_iocb :: "u32 \<Rightarrow> u32 \<Rightarrow> 'a driver_scheme \<Rightarrow> 'a driver_scheme" where
  "set_next_iocb r q s = upd_iocb r (\<lambda>b. b\<lparr>next_iocb := q\<rparr>) s"

subsection \<open>serial_open\<close>

definition serial_open ::
  "(isr \<Rightarrow> u32) \<Rightarrow> device \<Rightarrow> int \<Rightarrow> 'a driver_scheme \<Rightarrow> (int \<times> 'a driver_scheme) checked option" where
  "serial_open addr dev speed s =
     run_then (sys_alloc_mem sizeof_dcb s) (\<lambda>(d, s).
       let s = s\<lparr>serial_port := d\<rparr>
       in if d = NULL then Some (Inl Null_Deref)
          else
            let s = upd_dcb d (\<lambda>b. b\<lparr>io_count := 0, event_flag := 0, counter := 0, operation := IDLE,
                                     ring_head := 0, ring_tail := 15, status := AVAILABLE,
                                     curr_dev := COM1\<rparr>) s;
                s = upd_dcb d (\<lambda>b. b\<lparr>curr_dev := dev\<rparr>) s;
                s = s\<lparr>initialized := (initialized s)(0 := 1)\<rparr>
            in if dev \<noteq> COM1 \<or> speed < 0 then Some (Inr (INVALID_RATE, s))
               else if status (dcbs s d) = IN_USE then Some (Inr (PORT_IN_USE, s))
               else run_then (Some (idt_install 0x24 (addr serial_isr) s)) (\<lambda>s.
                 if speed = 0 then Some (Inl Div_By_Zero)
                 else
                   let baud_rate_div = cdiv 115200 speed;
                       rem = cmod 115200 speed;
                       s = outb (dev + IER) 0x00 s;
                       s = outb (COM1 + LCR) 0x80 s;
                       s = outb (COM1 + DLM) (word_of_int rem) s;
                       s = outb (COM1 + DLL) (word_of_int baud_rate_div) s;
                       s = outb (COM1 + LCR) 0x03 s;
                       (mask, s) = inb STATUS_REG s;
                       mask = mask AND NOT 0x10;
                       s = outb STATUS_REG mask s;
                       s = outb (dev + MCR) 0x0F s;
                       s = outb (dev + IER) 0x01 s
                   in Some (Inr (0, s))))"

subsection \<open>serial_read and serial_write\<close>

text \<open>
  The copying loop: \<open>k\<close> is \<open>count\<close>, \<open>i\<close> is \<open>buffer_index\<close>. The boolean of the result says that
  a new-line was found.
\<close>

function read_loop :: "bytes \<Rightarrow> bytes \<Rightarrow> nat \<Rightarrow> nat \<Rightarrow> nat \<Rightarrow> (bool \<times> bytes \<times> bytes \<times> nat) checked" where
  "read_loop ring buf len k i =
     (if k < len then
        and_then (arr_get ring i) (\<lambda>c.
          if c \<noteq> 0 then
            if c = 10 then Inr (True, ring[i := 0], buf, k)
            else and_then (arr_set buf k c) (\<lambda>buf. read_loop (ring[i := 0]) buf len (k + 1) (i + 1))
          else Inr (False, ring, buf, k))
      else Inr (False, ring, buf, k))"
  by pat_completeness auto
termination
  by (relation "measure (\<lambda>(ring, buf, len, k, i). len - k)") auto

definition serial_read ::
  "device \<Rightarrow> u32 \<Rightarrow> u32 \<Rightarrow> 'a driver_scheme \<Rightarrow> (int \<times> 'a driver_scheme) checked" where
  "serial_read dev buf len s =
     (let d = serial_port s
      in if d = NULL then Inl Null_Deref
         else if status (dcbs s d) = IN_USE then Inr (-301, s)
         else if buf = NULL then Inr (-302, s)
         else if len = 0 then Inr (-303, s)
         else if operation (dcbs s d) \<noteq> IDLE then Inr (-304, s)
         else
           let s = upd_dcb d (\<lambda>b. b\<lparr>operation := READ, event_flag := 0\<rparr>) s
           in and_then (read_loop (ring_buffer (dcbs s d)) (bufs s buf) (unat len) 0 0) (\<lambda>(newline, ring, b, k).
                let s = upd_dcb d (\<lambda>b. b\<lparr>ring_buffer := ring\<rparr>) s;
                    s = s\<lparr>bufs := (bufs s)(buf := b)\<rparr>
                in if newline then Inr (0, upd_dcb d (\<lambda>b. b\<lparr>operation := IDLE, event_flag := 1\<rparr>) s)
                   else if k < unat len then Inr (0, s)
                   else Inr (0, upd_dcb d (\<lambda>b. b\<lparr>operation := IDLE, event_flag := 1\<rparr>) s)))"

text \<open>\<open>len\<close> is a \<open>size_t\<close>: the test \<open>len < 0\<close> of the code is never true.\<close>

definition serial_write ::
  "device \<Rightarrow> u32 \<Rightarrow> u32 \<Rightarrow> 'a driver_scheme \<Rightarrow> (int \<times> 'a driver_scheme) checked" where
  "serial_write dev buf len s =
     (let d = serial_port s
      in if d = NULL then Inl Null_Deref
         else if status (dcbs s d) = IN_USE then Inr (-404, s)
         else if buf = NULL then Inr (-402, s)
         else if initialized s 0 = 0 then Inr (-401, s)
         else if operation (dcbs s d) = IDLE then
           let s = upd_dcb d (\<lambda>b. b\<lparr>operation := WRITE, event_flag := 1, counter := 0, io_count := sint len\<rparr>) s;
               (mask, s) = inb (dev + IER) s;
               s = outb (dev + IER) 0x00 s;
               mask = mask OR 0x02;
               s = outb (dev + IER) mask s
           in and_then (arr_get (bufs s buf) 0) (\<lambda>c.
                let s = outb dev c s;
                    s = upd_dcb d (\<lambda>b. b\<lparr>counter := wrap32 (counter b + 1)\<rparr>) s
                in Inr (0, s))
         else Inr (-404, s))"

subsection \<open>io_scheduler\<close>

partial_function (option) last_iocb :: "u32 \<Rightarrow> 'a driver_scheme \<Rightarrow> u32 option" where
  "last_iocb iter s =
     (if next_iocb (iocbs s iter) \<noteq> NULL then last_iocb (next_iocb (iocbs s iter)) s else Some iter)"

definition io_scheduler ::
  "device \<Rightarrow> u32 \<Rightarrow> u32 \<Rightarrow> op_code \<Rightarrow> 'a driver_scheme \<Rightarrow> 'a driver_scheme checked option" where
  "io_scheduler dev buf len oper s =
     (if dev \<noteq> COM1 \<or> buf = NULL then Some (Inr s)
      else run_then (sys_alloc_mem sizeof_iocb s) (\<lambda>(temp, s).
        if temp = NULL then Some (Inl Null_Deref)
        else
          let s = upd_iocb temp (\<lambda>b. b\<lparr>buffer := buf, buf_size := sint len, io_device := dev, curr_op := oper,
                                      curr_proc := global_pcb s, next_iocb := NULL\<rparr>) s;
              d = serial_port s
          in if d = NULL then Some (Inl Null_Deref)
             else run_then
               (if io_head (dcbs s d) = NULL then Some (Inr (upd_dcb d (\<lambda>b. b\<lparr>io_head := temp\<rparr>) s))
                else case last_iocb (io_head (dcbs s d)) s of
                       None \<Rightarrow> None
                     | Some iter \<Rightarrow> Some (Inr (set_next_iocb temp NULL (set_next_iocb iter temp s))))
               (\<lambda>s.
                 if operation (dcbs s d) = IDLE then
                   run_then (if oper = WRITE then Some (serial_write dev buf len s) else Some (Inr (0, s))) (\<lambda>(_, s).
                   run_then (if oper = READ then Some (serial_read dev buf len s) else Some (Inr (0, s))) (\<lambda>(_, s).
                     Some (Inr s)))
                 else Some (Inr s))))"

subsection \<open>Interrupt handlers\<close>

definition unblock_pcb :: "u32 \<Rightarrow> 'a procs_scheme \<Rightarrow> 'a procs_scheme checked option" where
  "unblock_pcb p s =
     (if p = NULL then Some (Inl Null_Deref)
      else pcb_insert p (upd_pcb p (\<lambda>b. b\<lparr>state := READY_STATE\<rparr>) s))"

definition serial_input_interrupt :: "u32 \<Rightarrow> 'a driver_scheme \<Rightarrow> 'a driver_scheme" where
  "serial_input_interrupt d s = (if operation (dcbs s d) = READ then outb COM1 0x02 s else s)"

definition serial_output_interrupt :: "u32 \<Rightarrow> 'a driver_scheme \<Rightarrow> 'a driver_scheme checked option" where
  "serial_output_interrupt d s =
     (if operation (dcbs s d) \<noteq> WRITE then Some (Inr s)
      else
        let s = outb COM1 0x02 s; b = dcbs s d
        in if event_flag b = 1 \<and> counter b < io_count b then
             if io_head b = NULL then Some (Inl Null_Deref)
             else if counter b < 0 then Some (Inl Out_Of_Bounds)
             else run_then (Some (arr_get (bufs s (buffer (iocbs s (io_head b)))) (nat (counter b)))) (\<lambda>c.
                    Some (Inr (upd_dcb d (\<lambda>b. b\<lparr>counter := wrap32 (counter b + 1)\<rparr>)
                                 (outb (curr_dev b + THR) c s))))
           else
             let s = upd_dcb d (\<lambda>b. b\<lparr>status := AVAILABLE, event_flag := 0\<rparr>) s;
                 mark_head = io_head b
             in if mark_head = NULL then Some (Inl Null_Deref)
                else
                  let s = upd_dcb d (\<lambda>b. b\<lparr>io_head := next_iocb (iocbs s mark_head), operation := IDLE\<rparr>) s
                  in run_then (unblock_pcb (curr_proc (iocbs s mark_head)) s) (\<lambda>s.
                     run_then (sys_free_mem mark_head s) (\<lambda>(_, s).
                       let (mask, s) = inb (COM1 + IER) s;
                           s = outb (COM1 + IER) 0x00 s;
                           mask = mask AND NOT 0x02;
                           s = outb (COM1 + IER) mask s
                       in Some (Inr s))))"

text \<open>
  \<open>serial_port + MSR\<close> in the last two branches is pointer arithmetic on a \<open>dcb *\<close>; the port is
  the low half of that address.
\<close>

definition serial_interrupt :: "'a driver_scheme \<Rightarrow> 'a driver_scheme checked option" where
  "serial_interrupt s =
     (let d = serial_port s
      in if d = NULL then Some (Inl Null_Deref)
         else
           let (interruptID, s) = inb (curr_dev (dcbs s d) + IIR) s;
               interruptID = interruptID AND 7
           in run_then
                (if interruptID = 2 then serial_output_interrupt d s
                 else if interruptID = 4 then Some (Inr (serial_input_interrupt d s))
                 else if interruptID = 0 then Some (Inr (snd (inb (d + sizeof_dcb * MSR) s)))
                 else if interruptID = 6 then Some (Inr (snd (inb (d + sizeof_dcb * LSR) s)))
                 else Some (Inr s))
                (\<lambda>s. Some (Inr (outb 0x20 0x20 s))))"

section \<open>Lemmas\<close>

declare read_loop.simps [simp del]

definition inext :: "'a driver_scheme \<Rightarrow> u32 \<Rightarrow> u32" where
  "inext s r = next_iocb (iocbs s r)"

lemma driver_upd_simps [simp]:
  "dcbs (upd_dcb d f s) = (dcbs s)(d := f (dcbs s d))" "iocbs (upd_dcb d f s) = iocbs s"
  "bufs (upd_dcb d f s) = bufs s" "trace (upd_dcb d f s) = trace s" "serial_port (upd_dcb d f s) = serial_port s"
  "pcbs (upd_dcb d f s) = pcbs s" "initialized (upd_dcb d f s) = initialized s"
  "iocbs (upd_iocb r g s) = (iocbs s)(r := g (iocbs s r))" "dcbs (upd_iocb r g s) = dcbs s"
  "bufs (upd_iocb r g s) = bufs s" "trace (upd_iocb r g s) = trace s" "serial_port (upd_iocb r g s) = serial_port s"
  "pcbs (upd_iocb r g s) = pcbs s"
  by (simp_all add: upd_dcb_def upd_iocb_def)

lemma driver_io_simps [simp]:
  "dcbs (outb p c s) = dcbs s" "iocbs (outb p c s) = iocbs s" "bufs (outb p c s) = bufs s"
  "serial_port (outb p c s) = serial_port s" "pcbs (outb p c s) = pcbs s"
  "dcbs (snd (inb p s)) = dcbs s" "iocbs (snd (inb p s)) = iocbs s" "bufs (snd (inb p s)) = bufs s"
  "serial_port (snd (inb p s)) = serial_port s" "pcbs (snd (inb p s)) = pcbs s"
  by (simp_all add: outb_def inb_def emit_def Let_def)

lemma set_next_iocb_simps [simp]:
  "inext (set_next_iocb r q s) = (inext s)(r := q)" "dcbs (set_next_iocb r q s) = dcbs s"
  "trace (set_next_iocb r q s) = trace s" "bufs (set_next_iocb r q s) = bufs s"
  "serial_port (set_next_iocb r q s) = serial_port s"
  "buffer (iocbs (set_next_iocb r q s) x) = buffer (iocbs s x)"
  "curr_proc (iocbs (set_next_iocb r q s) x) = curr_proc (iocbs s x)"
  "curr_op (iocbs (set_next_iocb r q s) x) = curr_op (iocbs s x)"
  "buf_size (iocbs (set_next_iocb r q s) x) = buf_size (iocbs s x)"
  by (auto simp: set_next_iocb_def inext_def)

interpretation iol: pointer_list inext set_next_iocb
  by unfold_locales simp

lemma last_iocb_eq: "qlist (inext s) h (xs @ [x]) \<Longrightarrow> last_iocb h s = Some x"
proof (induction xs arbitrary: h)
  case Nil
  then show ?case by (subst last_iocb.simps) (simp add: inext_def)
next
  case (Cons y ys)
  then have "next_iocb (iocbs s y) \<noteq> NULL" by (cases ys) (auto simp: inext_def)
  then show ?case using Cons by (subst last_iocb.simps) (auto simp: inext_def)
qed

subsection \<open>The request queue\<close>

lemma heap_driver_frame:
  assumes "s' = s\<lparr>mcbs := m\<rparr>"
  shows "dcbs s' = dcbs s" "iocbs s' = iocbs s" "bufs s' = bufs s" "serial_port s' = serial_port s"
    "global_pcb s' = global_pcb s" "trace s' = trace s" "pcbs s' = pcbs s" "inext s' = inext s"
  using assms by (simp_all add: inext_def fun_eq_iff)

lemma io_scheduler_busy:
  assumes h: "heap_ok s" "malloc_function s = Some Allocate_Memory"
    and al: "allocate_memory 28 s = Some (Inr (t, s1))" "t \<noteq> NULL"
    and d: "serial_port s = d" "d \<noteq> NULL" "operation (dcbs s d) \<noteq> IDLE"
    and q: "qlist (inext s) (io_head (dcbs s d)) xs" "t \<notin> set xs" and buf: "buf \<noteq> NULL"
  shows "\<exists>s'. io_scheduler COM1 buf len oper s = Some (Inr s') \<and>
    qlist (inext s') (io_head (dcbs s' d)) (xs @ [t]) \<and> trace s' = trace s \<and>
    buffer (iocbs s' t) = buf \<and> buf_size (iocbs s' t) = sint len \<and> curr_op (iocbs s' t) = oper \<and>
    curr_proc (iocbs s' t) = global_pcb s"
proof -
  have fr: "s1 = s\<lparr>mcbs := mcbs s1\<rparr>" using h al by (intro allocate_memory_frame)
  note f = heap_driver_frame [OF fr]
  let ?s = "upd_iocb t (\<lambda>b. b\<lparr>buffer := buf, buf_size := sint len, io_device := COM1, curr_op := oper,
      curr_proc := global_pcb s1, next_iocb := NULL\<rparr>) s1"
  have n: "inext ?s = (inext s)(t := NULL)" by (auto simp: inext_def f)
  have q': "qlist (inext ?s) (io_head (dcbs s d)) xs" using q by (simp add: n)
  have start: "io_scheduler COM1 buf len oper s = (if io_head (dcbs s d) = NULL
      then Some (Inr (upd_dcb d (\<lambda>b. b\<lparr>io_head := t\<rparr>) ?s))
      else run_then (case last_iocb (io_head (dcbs s d)) ?s of None \<Rightarrow> None
             | Some iter \<Rightarrow> Some (Inr (set_next_iocb t NULL (set_next_iocb iter t ?s)))) (\<lambda>s. Some (Inr s)))"
    using h(2) al d buf f by (simp add: io_scheduler_def sys_alloc_mem_def Let_def split: option.splits)
  show ?thesis
  proof (cases xs rule: rev_cases)
    case Nil
    then show ?thesis using start q al(2) f n by (simp add: inext_def)
  next
    case (snoc ys y)
    let ?t = "set_next_iocb t NULL (set_next_iocb y t ?s)"
    have "io_head (dcbs s d) \<noteq> NULL" using q snoc by auto
    then have "io_scheduler COM1 buf len oper s = Some (Inr ?t)"
      using start last_iocb_eq [of ?s _ ys y] q' snoc by simp
    moreover have "qlist (inext ?t) (io_head (dcbs s d)) (xs @ [t])"
    proof -
      have y: "y \<noteq> t" "inext ?s y = NULL" using q q' snoc by (auto simp: qlist_append)
      have "set_next_iocb t NULL ?s = ?s" by (simp add: set_next_iocb_def upd_iocb_def)
      moreover have "set_next_iocb t NULL (set_next_iocb y t ?s) = set_next_iocb y t (set_next_iocb t NULL ?s)"
        using y(1) by (simp add: set_next_iocb_def upd_iocb_def fun_upd_twist)
      ultimately show ?thesis using iol.insert_after [of ?s _ ys y "[]" t] q' snoc q(2) al(2) y by simp
    qed
    ultimately show ?thesis using f by (intro exI [of _ ?t]) simp
  qed
qed

subsection \<open>A transfer\<close>

text \<open>A write is under way: \<open>k\<close> of \<open>n\<close> bytes of the buffer of the head request are out.\<close>

definition transferring :: "u32 \<Rightarrow> u32 \<Rightarrow> nat \<Rightarrow> nat \<Rightarrow> 'a driver_scheme \<Rightarrow> bool" where
  "transferring d buf k n s \<longleftrightarrow>
     operation (dcbs s d) = WRITE \<and> event_flag (dcbs s d) = 1 \<and> counter (dcbs s d) = int k \<and>
     io_count (dcbs s d) = int n \<and> io_head (dcbs s d) \<noteq> NULL \<and>
     buffer (iocbs s (io_head (dcbs s d))) = buf \<and> curr_dev (dcbs s d) = COM1"

lemma output_interrupt_step:
  assumes "transferring d buf k n s" "k < n" "n \<le> length (bufs s buf)" "int n \<le> INT_MAX"
  shows "\<exists>s'. serial_output_interrupt d s = Some (Inr s') \<and> transferring d buf (Suc k) n s' \<and>
    bufs s' = bufs s \<and> sent_to 0x3f8 (trace s') = sent_to 0x3f8 (trace s) @ [2, bufs s buf ! k]"
proof -
  have "wrap32 (int k + 1) = int (Suc k)" using assms(2,4) by simp
  then show ?thesis
    using assms by (simp add: serial_output_interrupt_def transferring_def Let_def COM1_def)
qed

fun output_interrupts :: "nat \<Rightarrow> u32 \<Rightarrow> 'a driver_scheme \<Rightarrow> 'a driver_scheme checked option" where
  "output_interrupts 0 d s = Some (Inr s)"
| "output_interrupts (Suc n) d s = run_then (serial_output_interrupt d s) (output_interrupts n d)"

lemma output_interrupts_transfer:
  assumes "transferring d buf k n s" "k + m \<le> n" "n \<le> length (bufs s buf)" "int n \<le> INT_MAX"
  shows "\<exists>s'. output_interrupts m d s = Some (Inr s') \<and> transferring d buf (k + m) n s' \<and> bufs s' = bufs s \<and>
    sent_to 0x3f8 (trace s') =
      sent_to 0x3f8 (trace s) @ concat (map (\<lambda>c. [2, c]) (take m (drop k (bufs s buf))))"
  using assms
proof (induction m arbitrary: k s)
  case 0
  then show ?case by simp
next
  case (Suc m)
  obtain s1 where s1: "serial_output_interrupt d s = Some (Inr s1)" "transferring d buf (Suc k) n s1"
    "bufs s1 = bufs s" "sent_to 0x3f8 (trace s1) = sent_to 0x3f8 (trace s) @ [2, bufs s buf ! k]"
    using output_interrupt_step [OF Suc.prems(1)] Suc.prems by auto
  obtain s2 where s2: "output_interrupts m d s1 = Some (Inr s2)" "transferring d buf (Suc k + m) n s2"
    "bufs s2 = bufs s1" "sent_to 0x3f8 (trace s2) =
      sent_to 0x3f8 (trace s1) @ concat (map (\<lambda>c. [2, c]) (take m (drop (Suc k) (bufs s1 buf))))"
    using Suc.IH [OF s1(2)] Suc.prems s1(3) by auto
  have "drop k (bufs s buf) = bufs s buf ! k # drop (Suc k) (bufs s buf)"
    using Suc.prems by (intro Cons_nth_drop_Suc [symmetric]) simp
  then show ?case using s1 s2 by (intro exI [of _ s2]) simp
qed

lemma serial_write_start:
  assumes "serial_port s = d" "d \<noteq> NULL" "status (dcbs s d) = AVAILABLE" "operation (dcbs s d) = IDLE"
    "initialized s 0 \<noteq> 0" "buf \<noteq> NULL" "bufs s buf \<noteq> []" "sint len = int n"
    and "io_head (dcbs s d) \<noteq> NULL" "buffer (iocbs s (io_head (dcbs s d))) = buf" "curr_dev (dcbs s d) = COM1"
  shows "\<exists>s'. serial_write COM1 buf len s = Inr (0, s') \<and> transferring d buf 1 n s' \<and> bufs s' = bufs s \<and>
    sent_to 0x3f8 (trace s') = sent_to 0x3f8 (trace s) @ [hd (bufs s buf)]"
  using assms
  by (simp add: serial_write_def transferring_def Let_def COM1_def split_beta hd_conv_nth)

subsection \<open>The line control registers\<close>

text \<open>The divisor latch of a 16550 at port \<open>b\<close>: bit 7 of the line control register opens it.\<close>

record uart =
  dlab :: bool
  dll :: u8
  dlm :: u8

fun uart_replay :: "u16 \<Rightarrow> event list \<Rightarrow> uart \<Rightarrow> uart" where
  "uart_replay b [] u = u"
| "uart_replay b (Out p v # es) u =
     uart_replay b es
       (if p = b + 3 then u\<lparr>dlab := bit v 7\<rparr>
        else if dlab u \<and> p = b then u\<lparr>dll := v\<rparr>
        else if dlab u \<and> p = b + 1 then u\<lparr>dlm := v\<rparr> else u)"
| "uart_replay b (_ # es) u = uart_replay b es u"

definition divisor :: "uart \<Rightarrow> nat" where
  "divisor u = unat (dll u) + 256 * unat (dlm u)"

section \<open>Properties\<close>

definition driver_at :: "(u32 \<Rightarrow> dcb) \<Rightarrow> (u32 \<Rightarrow> iocb) \<Rightarrow> (u32 \<Rightarrow> bytes) \<Rightarrow> driver" where
  "driver_at ds rs bs = \<lparr>env = (\<lambda>_ _. 0), reads = 0, trace = [], initialized = (\<lambda>_. 1), gdtr = None, data_segs = [],
     idt_entries = replicate 256 \<lparr>base_low = 0, sselect = 0, zero = 0, flags = 0, base_high = 0\<rparr>, idtr_size = None,
     frames = [], kdir = 0, kdir_mem = \<lparr>dir_tables = (\<lambda>_. 0), tables_phys = (\<lambda>_. 0)\<rparr>,
     page_tables = (\<lambda>_ _. zero_entry), phys_alloc_addr = 0,
     heap_is_initialized = True, heap_addr = KHEAP_BASE, cr3 = None,
     memlist = 0x1000, mcbs = (\<lambda>a. if a = 0x1000 then 5003 else 0), malloc_function = Some Allocate_Memory,
     free_function = Some Free_Memory, pcbs = (\<lambda>_. some_pcb ''aa'' 1 NULL), ready_head = NULL, blocked_head = 0x9000,
     suspended_head = NULL, resume_head = NULL, serial_port = 0x7000, dcbs = ds, iocbs = rs, bufs = bs,
     global_pcb = 0x8000\<rparr>"

definition idle_dcb :: "u32 \<Rightarrow> dcb" where
  "idle_dcb h = \<lparr>curr_dev = COM1, status = AVAILABLE, operation = IDLE, event_flag = 0, counter = 0, io_count = 0,
     ring_buffer = replicate 16 0, ring_head = 0, ring_tail = 15, io_head = h\<rparr>"

definition some_iocb :: "u32 \<Rightarrow> u32 \<Rightarrow> iocb" where
  "some_iocb b nx = \<lparr>curr_proc = 0x9000, io_device = COM1, curr_op = WRITE, buffer = b, buf_size = 3, buf_index = NULL,
     next_iocb = nx\<rparr>"

text \<open>
  C20. A write of \<open>n\<close> bytes: \<open>serial_write\<close> sends the first byte and returns 0 at once (not a number of
  bytes, as the comment in \<open>serial.h\<close> says, a copy of the one for reading), and each following output
  interrupt sends the next one, so after \<open>n - 1\<close> interrupts the whole buffer is out, in order. But
  every interrupt first writes 0x02 to the same port, the transmit register: the line carries a
  0x02 in front of every byte but the first.
\<close>

theorem serial_write_transfer:
  assumes "serial_port s = d" "d \<noteq> NULL" "status (dcbs s d) = AVAILABLE" "operation (dcbs s d) = IDLE"
    "initialized s 0 \<noteq> 0" "buf \<noteq> NULL" "sint len = int n" "0 < n" "n \<le> length (bufs s buf)"
    "io_head (dcbs s d) \<noteq> NULL" "buffer (iocbs s (io_head (dcbs s d))) = buf" "curr_dev (dcbs s d) = COM1"
  shows "\<exists>s1 s2. serial_write COM1 buf len s = Inr (0, s1) \<and> output_interrupts (n - 1) d s1 = Some (Inr s2) \<and>
    transferring d buf n n s2 \<and>
    sent_to 0x3f8 (trace s2) = sent_to 0x3f8 (trace s) @
      (hd (bufs s buf) # concat (map (\<lambda>c. [2, c]) (take (n - 1) (tl (bufs s buf)))))"
proof -
  have "sint len < 2 ^ 31" using sint_less [of len] by simp
  then have n: "int n \<le> INT_MAX" using assms(7) by simp
  have ne: "bufs s buf \<noteq> []" using assms(8,9) by auto
  obtain s1 where s1: "serial_write COM1 buf len s = Inr (0, s1)" "transferring d buf 1 n s1" "bufs s1 = bufs s"
    "sent_to 0x3f8 (trace s1) = sent_to 0x3f8 (trace s) @ [hd (bufs s buf)]"
    using serial_write_start [OF assms(1-6) ne assms(7,10-12)] by blast
  obtain s2 where "output_interrupts (n - 1) d s1 = Some (Inr s2)" "transferring d buf n n s2"
    "sent_to 0x3f8 (trace s2) =
      sent_to 0x3f8 (trace s1) @ concat (map (\<lambda>c. [2, c]) (take (n - 1) (drop 1 (bufs s1 buf))))"
    using output_interrupts_transfer [OF s1(2), of "n - 1"] assms(8,9) s1(3) n by auto
  then show ?thesis using s1 by (auto simp: drop_Suc)
qed

definition write_demo :: driver where
  "write_demo = driver_at (\<lambda>_. idle_dcb 0x7100) (\<lambda>_. some_iocb 0x7200 NULL) (\<lambda>_. [104, 105, 33])"

lemma write_demo_simps:
  "serial_port write_demo = 0x7000" "dcbs write_demo = (\<lambda>_. idle_dcb 0x7100)" "initialized write_demo 0 = 1"
  "iocbs write_demo = (\<lambda>_. some_iocb 0x7200 NULL)" "bufs write_demo = (\<lambda>_. [104, 105, 33])" "trace write_demo = []"
  by (simp_all add: write_demo_def driver_at_def)

theorem serial_write_transfer_witness:
  "\<exists>s1 s2. serial_write COM1 0x7200 3 write_demo = Inr (0, s1) \<and> output_interrupts 2 0x7000 s1 = Some (Inr s2) \<and>
     sent_to 0x3f8 (trace s2) = [104, 2, 105, 2, 33]"
proof -
  have two: "Suc (Suc 0) = 2" by simp
  show ?thesis
    using serial_write_transfer [of write_demo "0x7000" "0x7200" 3 3]
    by (auto simp: write_demo_simps idle_dcb_def some_iocb_def two)
qed

text \<open>
  While the port is busy, \<open>io_scheduler\<close> appends the request to the end of the device's queue,
  filled with the caller's buffer, length, operation and process, and does no input or output.
\<close>

theorem io_scheduler_appends:
  assumes "heap_ok s" "malloc_function s = Some Allocate_Memory"
    "allocate_memory 28 s = Some (Inr (t, s1))" "t \<noteq> NULL"
    "serial_port s = d" "d \<noteq> NULL" "operation (dcbs s d) \<noteq> IDLE"
    "qlist (inext s) (io_head (dcbs s d)) xs" "t \<notin> set xs" "buf \<noteq> NULL"
  shows "\<exists>s'. io_scheduler COM1 buf len oper s = Some (Inr s') \<and>
    qlist (inext s') (io_head (dcbs s' d)) (xs @ [t]) \<and> trace s' = trace s \<and>
    buffer (iocbs s' t) = buf \<and> buf_size (iocbs s' t) = sint len \<and> curr_op (iocbs s' t) = oper \<and>
    curr_proc (iocbs s' t) = global_pcb s"
  using io_scheduler_busy [OF assms] .

theorem io_scheduler_appends_witness:
  "\<exists>s'. io_scheduler COM1 0x7300 5 WRITE
       (write_demo\<lparr>dcbs := (\<lambda>_. (idle_dcb 0x7100)\<lparr>operation := WRITE\<rparr>)\<rparr>) = Some (Inr s') \<and>
     qlist (inext s') 0x7100 [0x7100, 0x1004]"
proof -
  let ?s = "write_demo\<lparr>dcbs := (\<lambda>_. (idle_dcb 0x7100)\<lparr>operation := WRITE\<rparr>)\<rparr>"
  have h: "heap_blocks ?s [(5000, True)]"
    by (simp add: write_demo_def driver_at_def heap_blocks_def hdr_def)
  have m: "memlist ?s = 0x1000" "malloc_function ?s = Some Allocate_Memory"
    by (simp_all add: write_demo_def driver_at_def)
  obtain s1 where al: "allocate_memory 28 ?s = Some (Inr (0x1004, s1))"
    using allocate_memory_refines [OF h, of 28] m by (auto simp: roundup_def)
  have "heap_ok ?s" using h by (auto simp: heap_ok_def)
  from io_scheduler_appends [OF this m(2) al, of "0x7000" "[0x7100]" "0x7300" 5 WRITE]
  show ?thesis by (auto simp: write_demo_simps idle_dcb_def some_iocb_def inext_def)
qed

text \<open>
  \<open>unblock_pcb\<close> does not take the process out of the blocked queue. With no process ready, it
  makes the process the ready queue and cuts the blocked queue after it: the process is in both
  queues, and every process behind it is in neither.
\<close>

theorem unblock_pcb_loses_blocked:
  assumes "pcb_queues s Q" "Q Blocked = xs @ p # ys" "Q Ready = []"
  shows "\<exists>s'. unblock_pcb p s = Some (Inr s') \<and> qlist (pnext s') (ready_head s') [p] \<and>
    qlist (pnext s') (blocked_head s') (xs @ [p]) \<and> state (pcbs s' p) = 1"
proof -
  have b: "qlist (pnext s) (blocked_head s) (xs @ p # ys)" and r: "ready_head s = NULL"
    using pcb_queuesD [OF assms(1), of Blocked] pcb_queuesD [OF assms(1), of Ready] assms(2,3) by auto
  have p: "p \<noteq> NULL" "p \<notin> set xs" using qlist_not_NULL [OF b] qlist_distinct [OF b] by auto
  let ?t = "upd_pcb p (\<lambda>b. b\<lparr>state := READY_STATE\<rparr>) s"
  let ?s = "set_head Ready p (set_next_pcb p NULL ?t)"
  have "unblock_pcb p s = Some (Inr ?s)"
    using p r by (simp add: unblock_pcb_def pcb_insert_def Let_def)
  moreover have n: "pnext ?t = pnext s" by (auto simp: pnext_def)
  moreover have "qlist (pnext ?s) (blocked_head ?s) (xs @ [p])"
    using b p n by (auto simp: qlist_append)
  ultimately show ?thesis using p by (intro exI [of _ ?s]) simp
qed

theorem unblock_pcb_loses_blocked_witness:
  "\<exists>s'. unblock_pcb 0x8000 (two_ready\<lparr>ready_head := NULL, blocked_head := 0x8000\<rparr>) = Some (Inr s') \<and>
     qlist (pnext s') (blocked_head s') [0x8000]"
proof -
  let ?s = "two_ready\<lparr>ready_head := NULL, blocked_head := 0x8000\<rparr>"
  let ?Q = "(\<lambda>_. [])(Blocked := [0x8000, 0x9000])"
  have "qlist (pnext ?s) (get_head q ?s) (?Q q)" for q
    by (cases q) (simp_all add: two_ready_simps pnext_def some_pcb_def)
  then have "pcb_queues ?s ?Q" by (auto simp: pcb_queues_def)
  from unblock_pcb_loses_blocked [OF this, of "[]" "0x8000" "[0x9000]"] show ?thesis by auto
qed

text \<open>
  \<open>serial_open\<close> of COM1 at a positive rate installs the interrupt gate 0x24 and writes
  115200 div rate (low byte) and 115200 mod rate to the two bytes of the divisor latch. So the
  line gets the rate asked for whenever the rate divides 115200 and the quotient fits in a byte;
  otherwise it gets another one. The head of the request queue is left as the allocated memory
  had it.
\<close>

theorem serial_open_divisor:
  assumes "heap_ok s" "malloc_function s = Some Allocate_Memory"
    "allocate_memory 52 s = Some (Inr (d, s1))" "d \<noteq> NULL" "length (idt_entries s) = 256" "0 < speed"
  shows "\<exists>s' es. serial_open addr COM1 speed s = Some (Inr (0, s')) \<and> trace s' = trace s @ es \<and>
    int (divisor (uart_replay 0x3f8 es u)) = (115200 div speed) mod 256 + 256 * ((115200 mod speed) mod 256) \<and>
    (speed dvd 115200 \<and> 115200 div speed < 256 \<longrightarrow> int (divisor (uart_replay 0x3f8 es u)) = 115200 div speed) \<and>
    calls (idt_entries s' ! 0x24) (addr serial_isr) \<and> serial_port s' = d \<and> io_head (dcbs s' d) = io_head (dcbs s d)"
proof -
  have fr: "s1 = s\<lparr>mcbs := mcbs s1\<rparr>" using assms by (intro allocate_memory_frame)
  note f = heap_driver_frame [OF fr]
  have i1: "idt_entries s1 = idt_entries s" using arg_cong [OF fr, of idt_entries] by simp
  define t where "t = (upd_dcb d (\<lambda>b. b\<lparr>curr_dev := COM1\<rparr>) (upd_dcb d (\<lambda>b. b\<lparr>io_count := 0, event_flag := 0,
      counter := 0, operation := IDLE, ring_head := 0, ring_tail := 15, status := AVAILABLE, curr_dev := COM1\<rparr>)
      (s1\<lparr>serial_port := d\<rparr>)))\<lparr>initialized := (initialized s1)(0 := 1)\<rparr>"
  have t: "trace t = trace s" "serial_port t = d" "io_head (dcbs t d) = io_head (dcbs s d)" "status (dcbs t d) = AVAILABLE"
    "idt_entries t = idt_entries s"
    using f i1 by (simp_all add: t_def) (simp add: upd_dcb_def i1)
  obtain e where e: "idt_set_gate 0x24 (addr serial_isr) 0x08 0x8e t = Inr (t\<lparr>idt_entries := (idt_entries t)[0x24 := e]\<rparr>)"
    "calls e (addr serial_isr)"
    by (rule idt_set_gate_calls [of "0x24" t]) (simp_all add: t assms(5))
  let ?t = "t\<lparr>idt_entries := (idt_entries t)[0x24 := e]\<rparr>"
  let ?q = "word_of_int (115200 div speed) :: u8" and ?r = "word_of_int (115200 mod speed) :: u8"
  let ?m = "env ?t 0x21 (reads ?t)"
  let ?es = "[Out 0x3f9 0, Out 0x3fb 0x80, Out 0x3f9 ?r, Out 0x3f8 ?q, Out 0x3fb 3, In 0x21 ?m,
      Out 0x21 (?m AND NOT 0x10), Out 0x3fc 0x0F, Out 0x3f9 1]"
  let ?F = "\<lambda>s. let s = outb 0x3f8 ?q (outb 0x3f9 ?r (outb 0x3fb 0x80 (outb 0x3f9 0 s)));
      (m, s) = inb 0x21 (outb 0x3fb 3 s) in outb 0x3f9 1 (outb 0x3fc 0x0F (outb 0x21 (m AND NOT 0x10) s))"
  have start: "serial_open addr COM1 speed s =
      run_then (Some (idt_install 0x24 (addr serial_isr) t)) (\<lambda>s. Some (Inr (0, ?F s)))"
    using assms(2-4,6)
    by (simp add: serial_open_def sys_alloc_mem_def Let_def split_beta t_def COM1_def upd_dcb_def)
  have s': "serial_open addr COM1 speed s = Some (Inr (0, ?F ?t))"
    using e(1) by (simp add: start idt_install_def)
  have tr: "trace (?F ?t) = trace s @ ?es" using t(1) by (simp add: Let_def split_beta)
  have fields: "idt_entries (?F ?t) = (idt_entries s)[0x24 := e]" "serial_port (?F ?t) = d"
    "io_head (dcbs (?F ?t) d) = io_head (dcbs s d)"
    using t by (simp_all add: Let_def split_beta)
  have "uart_replay 0x3f8 ?es u = u\<lparr>dlab := False, dll := ?q, dlm := ?r\<rparr>"
    by (simp add: bit_numeral_rec)
  then have d1: "int (divisor (uart_replay 0x3f8 ?es u)) = (115200 div speed) mod 256 + 256 * ((115200 mod speed) mod 256)"
    by (simp add: divisor_def uint_word_of_int)
  have "(115200 div speed) mod 256 = 115200 div speed" "115200 mod speed = 0"
    if "speed dvd 115200" "115200 div speed < 256"
    using assms(6) that by (simp_all add: pos_imp_zdiv_nonneg_iff)
  then have d2: "speed dvd 115200 \<and> 115200 div speed < 256 \<longrightarrow> int (divisor (uart_replay 0x3f8 ?es u)) = 115200 div speed"
    unfolding d1 by simp
  have g: "calls ((idt_entries s)[0x24 := e] ! 0x24) (addr serial_isr)" using assms(5) e(2) by simp
  show ?thesis
    by (rule exI [of _ "?F ?t"], rule exI [of _ ?es]) (intro conjI s' tr d1 d2 fields, simp only: fields g)
qed

theorem serial_open_divisor_witness:
  "\<exists>s' es. serial_open (\<lambda>_. 0x105000) COM1 19200 write_demo = Some (Inr (0, s')) \<and> trace s' = es \<and>
     int (divisor (uart_replay 0x3f8 es \<lparr>dlab = False, dll = 0, dlm = 0\<rparr>)) = 6"
proof -
  have h: "heap_blocks write_demo [(5000, True)]"
    by (simp add: write_demo_def driver_at_def heap_blocks_def hdr_def)
  have m: "memlist write_demo = 0x1000" "malloc_function write_demo = Some Allocate_Memory" "length (idt_entries write_demo) = 256"
    by (simp_all add: write_demo_def driver_at_def)
  obtain s1 where al: "allocate_memory 52 write_demo = Some (Inr (0x1004, s1))"
    using allocate_memory_refines [OF h, of 52] m by (auto simp: roundup_def)
  have "heap_ok write_demo" using h by (auto simp: heap_ok_def)
  from serial_open_divisor [OF this m(2) al _ m(3), of 19200 "\<lambda>_. 0x105000" "\<lparr>dlab = False, dll = 0, dlm = 0\<rparr>"]
  show ?thesis by (auto simp: write_demo_simps)
qed

end
