(* ===== verification/Sys_Call.thy ===== *)
theory Sys_Call
  imports Serial_Driver
begin

text \<open>
  \<open>src/kernel/sys_call.c\<close>: the system call handler and dispatcher, on top of the process queues
  and the serial driver.

  A saved context is a record in the store \<open>ctxs\<close>, by its address on some process's stack; the
  registers are 32-bit words. The assembly stub \<open>sys_call_isr\<close> pushes the registers, calls
  \<open>sys_call\<close> with the stack pointer and restores from the address that is returned; here the
  handler takes the address of the saved context and returns the address to resume from.
\<close>

section \<open>Model\<close>

record cpu_context =
  ds_reg :: u32
  es_reg :: u32
  fs_reg :: u32
  gs_reg :: u32
  ss_reg :: u32
  eax :: u32
  ebx :: u32
  ecx :: u32
  edx :: u32
  esp :: u32
  ebp :: u32
  esi :: u32
  edi :: u32
  eip :: u32
  cs_reg :: u32
  eflags :: u32

record kern = driver +
  initial_context :: u32
  ctxs :: "u32 \<Rightarrow> cpu_context"

text \<open>The body of the cases \<open>WRITE\<close> and \<open>READ\<close>.\<close>

definition block_caller :: "u32 \<Rightarrow> op_code \<Rightarrow> 'a kern_scheme \<Rightarrow> 'a kern_scheme checked option" where
  "block_caller cc oper s =
     (let g = global_pcb s
      in if g = NULL then Some (Inl Null_Deref)
         else
           let s = upd_pcb g (\<lambda>b. b\<lparr>stack_top := cc, state := BLOCKED_STATE\<rparr>) s
           in run_then (io_scheduler (ebx (ctxs s cc)) (ecx (ctxs s cc)) (edx (ctxs s cc)) oper s) (\<lambda>s.
                pcb_insert (global_pcb s) s))"

text \<open>The code after the \<open>switch\<close>.\<close>

definition dispatch :: "u32 \<Rightarrow> 'a kern_scheme \<Rightarrow> (u32 \<times> 'a kern_scheme) checked option" where
  "dispatch nxt s =
     (if nxt = NULL then Some (Inr (initial_context s, s))
      else
        let s = s\<lparr>global_pcb := nxt\<rparr>
        in run_then (pcb_remove nxt s) (\<lambda>(_, s).
             let s = set_next_pcb nxt NULL s;
                 s = upd_pcb (global_pcb s) (\<lambda>b. b\<lparr>state := READY_STATE\<rparr>) s
             in Some (Inr (stack_top (pcbs s (global_pcb s)), s))))"

definition idle_case :: "u32 \<Rightarrow> u32 \<Rightarrow> 'a kern_scheme \<Rightarrow> (u32 \<times> 'a kern_scheme) checked option" where
  "idle_case cc nxt s =
     (let s = (if initial_context s = NULL then s\<lparr>initial_context := cc\<rparr> else s)
      in if nxt = NULL then Some (Inr (cc, s))
         else if global_pcb s \<noteq> NULL then
           let g = global_pcb s;
               s = upd_pcb g (\<lambda>b. b\<lparr>stack_top := cc, state := READY_STATE\<rparr>) s
           in run_then (pcb_insert g s) (\<lambda>s. dispatch nxt s)
         else dispatch nxt s)"

definition exit_case :: "u32 \<Rightarrow> 'a kern_scheme \<Rightarrow> (u32 \<times> 'a kern_scheme) checked option" where
  "exit_case nxt s =
     (if global_pcb s \<noteq> NULL then
        run_then (pcb_remove (global_pcb s) s) (\<lambda>(_, s).
          if nxt = NULL then Some (Inl Null_Deref)
          else
            let s = set_next_pcb nxt NULL s
            in run_then (pcb_free (global_pcb s) s) (\<lambda>(_, s).
                 let s = s\<lparr>global_pcb := NULL\<rparr> in Some (Inr (initial_context s, s))))
      else dispatch nxt s)"

text \<open>The cases of the \<open>switch\<close> fall through from \<open>WRITE\<close> to \<open>READ\<close> to \<open>IDLE\<close>.\<close>

definition sys_call :: "u32 \<Rightarrow> 'a kern_scheme \<Rightarrow> (u32 \<times> 'a kern_scheme) checked option" where
  "sys_call cc s =
     (if cc = NULL then Some (Inl Null_Deref)
      else
        let n = sint (eax (ctxs s cc)); nxt = ready_head s
        in if n = op_num WRITE then
             run_then (block_caller cc WRITE s) (\<lambda>s. run_then (block_caller cc WRITE s) (\<lambda>s. idle_case cc nxt s))
           else if n = op_num READ then run_then (block_caller cc READ s) (\<lambda>s. idle_case cc nxt s)
           else if n = op_num IDLE then idle_case cc nxt s
           else if n = op_num EXIT then exit_case nxt s
           else Some (Inr (cc, s\<lparr>ctxs := (ctxs s)(cc := (ctxs s cc)\<lparr>eax := -1\<rparr>)\<rparr>)))"

section \<open>Lemmas\<close>

text \<open>The scheduler's view: the running process \<open>g\<close> and the queues.\<close>

definition scheduling :: "'a kern_scheme \<Rightarrow> u32 \<Rightarrow> (queue \<Rightarrow> u32 list) \<Rightarrow> bool" where
  "scheduling s g Q \<longleftrightarrow>
     pcb_queues s Q \<and> global_pcb s = g \<and> g \<noteq> NULL \<and> g \<notin> queued Q \<and>
     sorted_queue (prio_of s) (Q Ready) \<and> (\<forall>p \<in> set (Q Ready). slot_of s p = Some Ready)"

lemma kept_fields:
  assumes "kept t = kept s"
  shows "global_pcb (t :: 'a kern_scheme) = global_pcb s" "initial_context t = initial_context s" "ctxs t = ctxs s"
    "prio_of t = prio_of s" "slot_of t = slot_of s" "stack_top (pcbs t p) = stack_top (pcbs s p)"
    "state (pcbs t p) = state (pcbs s p)"
proof -
  show "global_pcb t = global_pcb s" using arg_cong [OF assms, of global_pcb] by (simp add: kept_def)
  show "initial_context t = initial_context s" using arg_cong [OF assms, of initial_context] by (simp add: kept_def)
  show "ctxs t = ctxs s" using arg_cong [OF assms, of ctxs] by (simp add: kept_def)
  show "prio_of t = prio_of s" "slot_of t = slot_of s" using assms by (metis kept_simps)+
  show "stack_top (pcbs t p) = stack_top (pcbs s p)" "state (pcbs t p) = state (pcbs s p)"
    using assms same_procs_fields [of s t] by (simp_all add: same_procs_def)
qed

lemma kept_global: "kept (s\<lparr>global_pcb := x\<rparr>) = (kept (s :: 'a kern_scheme))\<lparr>global_pcb := x\<rparr>"
  by (cases s) (simp add: kept_def)

lemma upd_pcb_kern [simp]:
  "global_pcb (upd_pcb p f s) = global_pcb s" "initial_context (upd_pcb p f s) = initial_context s"
  "ctxs (upd_pcb p f s) = ctxs s"
  "global_pcb (set_next_pcb p q s) = global_pcb s" "initial_context (set_next_pcb p q s) = initial_context s"
  "ctxs (set_next_pcb p q s) = ctxs s"
  by (simp_all add: upd_pcb_def set_next_pcb_def)

lemma slot_of_upd [simp]:
  "slot_of (upd_pcb p f s) q = (if q = p then queue_of (state (f (pcbs s p))) else slot_of s q)"
  "slot_of (set_next_pcb p r s) = slot_of s" "slot_of (s\<lparr>initial_context := i\<rparr>) = slot_of s"
  by (auto simp: slot_of_def fun_eq_iff)

text \<open>Writes to a PCB that is in no queue do not disturb the queues.\<close>

lemma pcb_queues_upd:
  "pcb_queues s Q \<Longrightarrow> p \<notin> queued Q \<Longrightarrow> pcb_queues (upd_pcb p f s) Q"
  by (rule pcb_queues_frame) auto

lemma pcb_queues_set_next:
  "pcb_queues s Q \<Longrightarrow> p \<notin> queued Q \<Longrightarrow> pcb_queues (set_next_pcb p q s) Q"
  unfolding set_next_pcb_def by (rule pcb_queues_upd)

lemma pcb_queues_same:
  assumes "pcb_queues s Q" "pcbs t = pcbs s" "ready_head t = ready_head s" "blocked_head t = blocked_head s"
    "suspended_head t = suspended_head s"
  shows "pcb_queues t Q"
proof (rule pcb_queues_frame [OF assms(1)])
  show "get_head q t = get_head q s" for q using assms by (cases q) simp_all
  show "pcbs t p = pcbs s p" for p by (simp add: assms(2))
qed

lemma scheduling_head:
  assumes sch: "scheduling s g Q" and x: "Q Ready = x # xs"
  shows "x \<noteq> NULL" "x \<noteq> g" "x \<notin> set xs" "\<And>q. q \<noteq> Ready \<Longrightarrow> x \<notin> set (Q q)" "\<And>q. g \<notin> set (Q q)"
proof -
  have Q: "pcb_queues s Q" using sch by (simp add: scheduling_def)
  have xr: "x \<in> set (Q Ready)" using x by simp
  show "x \<noteq> NULL" using pq.elem_law [OF Q xr] .
  show gq: "g \<notin> set (Q q)" for q using sch by (auto simp: scheduling_def queued_def)
  then show "x \<noteq> g" using xr by blast
  show "x \<notin> set xs" using qlist_distinct [OF pcb_queuesD [OF Q, of Ready]] x by simp
  show "x \<notin> set (Q q)" if "q \<noteq> Ready" for q using pcb_queues_other [OF Q xr that] .
qed

lemma idle_rotate:
  fixes cc :: u32 and s :: "'a kern_scheme"
  assumes sch: "scheduling s g Q" and x: "Q Ready = x # xs"
  defines "t \<equiv> upd_pcb g (\<lambda>b. b\<lparr>stack_top := cc, state := READY_STATE\<rparr>) s"
  shows "\<exists>s1 s2. pcb_insert g t = Some (Inr s1) \<and> pcb_remove x (s1\<lparr>global_pcb := x\<rparr>) = Some (Inr (0, s2)) \<and>
    pcb_queues s2 (Q(Ready := enqueue (prio_of s) g xs)) \<and> kept s2 = kept (t\<lparr>global_pcb := x\<rparr>)"
proof -
  have Q: "pcb_queues t Q" unfolding t_def using sch by (intro pcb_queues_upd) (auto simp: scheduling_def)
  note xg = scheduling_head(2) [OF sch x] and out = scheduling_head(5) [OF sch x]
  have pr: "prio_of t = prio_of s" by (auto simp: t_def prio_of_def)
  have sl: "slot_of t g = Some Ready" "slot_of t x = Some Ready"
    using sch x xg by (auto simp: t_def slot_of_def scheduling_def)
  let ?Q = "Q(Ready := enqueue (prio_of s) g (Q Ready))"
  obtain s1 where s1: "pcb_insert g t = Some (Inr s1)" "pcb_queues s1 ?Q" "kept s1 = kept t"
    using pq.insert_law [OF Q, of g Ready] sch sl(1) pr out by (auto simp: scheduling_def)
  let ?u = "s1\<lparr>global_pcb := x\<rparr>"
  have u: "pcb_queues ?u ?Q" by (rule pcb_queues_same [OF s1(2)]) simp_all
  have ku: "kept ?u = kept (t\<lparr>global_pcb := x\<rparr>)"
    by (simp add: kept_global s1(3))
  have "slot_of (kept ?u) x = Some Ready" unfolding ku kept_simps using sl(2) by (simp add: slot_of_def)
  then obtain s2 where s2: "pcb_remove x ?u = Some (Inr (0, s2))" "pcb_queues s2 (?Q(Ready := remove1 x (?Q Ready)))"
    "kept s2 = kept ?u"
    using pq.remove_law [OF u, of x Ready] x by auto
  have "remove1 x (?Q Ready) = enqueue (prio_of s) g xs"
    using rotate_enqueue [of "prio_of s" x xs g] sch x xg by (simp add: scheduling_def)
  then show ?thesis using s1(1) s2 ku by auto
qed

lemma idle_case_dispatches:
  assumes sch: "scheduling s g Q" and x: "Q Ready = x # xs"
  shows "\<exists>s'. idle_case cc x s = Some (Inr (stack_top (pcbs s x), s')) \<and>
    scheduling s' x (Q(Ready := enqueue (prio_of s) g xs)) \<and> prio_of s' = prio_of s \<and> ctxs s' = ctxs s \<and>
    stack_top (pcbs s' g) = cc \<and> (\<forall>p. p \<noteq> g \<longrightarrow> stack_top (pcbs s' p) = stack_top (pcbs s p)) \<and>
    initial_context s' = (if initial_context s = NULL then cc else initial_context s)"
proof -
  let ?i = "if initial_context s = NULL then cc else initial_context s"
  let ?s = "s\<lparr>initial_context := ?i\<rparr>"
  have si: "(if initial_context s = NULL then s\<lparr>initial_context := cc\<rparr> else s) = ?s" by simp
  have sch': "scheduling ?s g Q"
  proof -
    have "pcb_queues ?s Q" by (rule pcb_queues_same [of s]) (use sch in \<open>simp_all add: scheduling_def\<close>)
    moreover have "prio_of ?s = prio_of s" "slot_of ?s = slot_of s"
      by (simp_all add: prio_of_def slot_of_def fun_eq_iff)
    ultimately show ?thesis using sch by (simp add: scheduling_def)
  qed
  let ?t = "upd_pcb g (\<lambda>b. b\<lparr>stack_top := cc, state := READY_STATE\<rparr>) ?s"
  have g: "global_pcb s = g" "g \<noteq> NULL" using sch by (simp_all add: scheduling_def)
  note xn = scheduling_head [OF sch x]
  obtain s1 s2 where r: "pcb_insert g ?t = Some (Inr s1)" "pcb_remove x (s1\<lparr>global_pcb := x\<rparr>) = Some (Inr (0, s2))"
    "pcb_queues s2 (Q(Ready := enqueue (prio_of ?s) g xs))" "kept s2 = kept (?t\<lparr>global_pcb := x\<rparr>)"
    using idle_rotate [OF sch' x, of cc] by blast
  let ?s3 = "set_next_pcb x NULL s2"
  let ?s4 = "upd_pcb x (\<lambda>b. b\<lparr>state := READY_STATE\<rparr>) ?s3"
  have k: "global_pcb s2 = x" "initial_context s2 = ?i" "ctxs s2 = ctxs s" "prio_of s2 = prio_of s"
    "slot_of s2 = slot_of ?t" "\<And>p. stack_top (pcbs s2 p) = stack_top (pcbs ?t p)"
    using kept_fields [OF r(4)] by (auto simp: prio_of_def slot_of_def fun_eq_iff)
  have "idle_case cc x s = Some (Inr (stack_top (pcbs ?s4 x), ?s4))"
    unfolding idle_case_def si using g xn r(1,2) k(1) by (simp add: dispatch_def Let_def)
  moreover have st: "stack_top (pcbs ?s4 p) = (if p = g then cc else stack_top (pcbs s p))" for p
    using k(6) by simp
  moreover have pr: "prio_of ?s4 = prio_of s" using k(4) by (auto simp: prio_of_def fun_eq_iff)
  moreover have "scheduling ?s4 x (Q(Ready := enqueue (prio_of s) g xs))"
  proof -
    let ?Q = "Q(Ready := enqueue (prio_of s) g xs)"
    have ps: "prio_of ?s = prio_of s" by (simp add: prio_of_def fun_eq_iff)
    have out: "x \<notin> queued ?Q" using xn by (auto simp: queued_def)
    have "pcb_queues ?s4 ?Q"
      using r(3) out unfolding ps by (intro pcb_queues_upd pcb_queues_set_next)
    moreover have "sorted_queue (prio_of s) (enqueue (prio_of s) g xs)"
      using sch x by (intro sorted_enqueue) (simp add: scheduling_def sorted_queue_def)
    moreover have "slot_of ?s4 p = Some Ready" if "p \<in> insert g (set xs)" for p
      using that sch x by (auto simp: scheduling_def k(5))
    ultimately show ?thesis using k(1) xn out pr by (simp add: scheduling_def)
  qed
  ultimately show ?thesis using k xn by (intro exI [of _ ?s4]) simp
qed

lemma sys_call_idle:
  "cc \<noteq> NULL \<Longrightarrow> sint (eax (ctxs s cc)) = 1 \<Longrightarrow> sys_call cc s = idle_case cc (ready_head s) s"
  by (simp add: sys_call_def Let_def)

lemma scheduling_ready_head: "scheduling s g Q \<Longrightarrow> Q Ready = x # xs \<Longrightarrow> ready_head s = x"
  using pcb_queuesD [of s Q Ready] by (auto simp: scheduling_def)

lemma scheduling_ready_empty: "scheduling s g Q \<Longrightarrow> Q Ready = [] \<Longrightarrow> ready_head s = NULL"
  using pcb_queuesD [of s Q Ready] by (auto simp: scheduling_def)

subsection \<open>Runs of yielding processes\<close>

text \<open>
  Processes run and yield: between two system calls a process changes its own context, here any
  context (\<open>c\<close>), then calls the kernel with \<open>IDLE\<close>.
\<close>

inductive sched_run :: "'a kern_scheme \<Rightarrow> 'a kern_scheme \<Rightarrow> bool" where
  run_start: "sched_run s s"
| run_yield: "sched_run s t \<Longrightarrow> cc \<noteq> NULL \<Longrightarrow> sint (eax (c cc)) = op_num IDLE \<Longrightarrow>
    sys_call cc (t\<lparr>ctxs := c\<rparr>) = Some (Inr (r, u)) \<Longrightarrow> sched_run s u"

inductive_cases sched_runE: "sched_run s t"

lemma view_ctxs [simp]:
  "prio_of (s\<lparr>ctxs := c\<rparr>) = prio_of s" "slot_of (s\<lparr>ctxs := c\<rparr>) = slot_of s"
  "prio_of (s\<lparr>initial_context := i\<rparr>) = prio_of s"
  by (simp_all add: prio_of_def slot_of_def fun_eq_iff)

lemma scheduling_ctxs:
  assumes "scheduling s g Q"
  shows "scheduling (s\<lparr>ctxs := c\<rparr>) g Q" "scheduling (s\<lparr>initial_context := i\<rparr>) g Q"
proof -
  have "pcb_queues (s\<lparr>ctxs := c\<rparr>) Q" "pcb_queues (s\<lparr>initial_context := i\<rparr>) Q"
    by (rule pcb_queues_same [of s]; use assms in \<open>simp add: scheduling_def\<close>)+
  then show "scheduling (s\<lparr>ctxs := c\<rparr>) g Q" "scheduling (s\<lparr>initial_context := i\<rparr>) g Q"
    using assms by (simp_all add: scheduling_def)
qed

text \<open>The processes the scheduler is responsible for.\<close>

definition runnable :: "u32 \<Rightarrow> (queue \<Rightarrow> u32 list) \<Rightarrow> u32 set" where
  "runnable g Q = insert g (set (Q Ready))"

lemma idle_keeps_scheduling:
  assumes sch: "scheduling s g Q" and c: "cc \<noteq> NULL" "sint (eax (ctxs s cc)) = 1"
  shows "\<exists>r s' g' xs. sys_call cc s = Some (Inr (r, s')) \<and> scheduling s' g' (Q(Ready := xs)) \<and>
    runnable g' (Q(Ready := xs)) = runnable g Q"
proof (cases "Q Ready")
  case Nil
  let ?i = "if initial_context s = NULL then cc else initial_context s"
  have "sys_call cc s = Some (Inr (cc, s\<lparr>initial_context := ?i\<rparr>))"
    using sys_call_idle [OF c] scheduling_ready_empty [OF sch Nil] by (simp add: idle_case_def Let_def)
  moreover have "scheduling (s\<lparr>initial_context := ?i\<rparr>) g (Q(Ready := []))"
    using scheduling_ctxs(2) [OF sch] Nil by (metis fun_upd_triv)
  ultimately show ?thesis using Nil by (auto simp: runnable_def)
next
  case (Cons x xs)
  obtain s' where "idle_case cc x s = Some (Inr (stack_top (pcbs s x), s'))"
    "scheduling s' x (Q(Ready := enqueue (prio_of s) g xs))"
    using idle_case_dispatches [OF sch Cons, of cc] by blast
  moreover have "runnable x (Q(Ready := enqueue (prio_of s) g xs)) = runnable g Q"
    using Cons by (auto simp: runnable_def)
  ultimately show ?thesis
    using sys_call_idle [OF c] scheduling_ready_head [OF sch Cons] by metis
qed

lemma sched_run_inv:
  "sched_run s t \<Longrightarrow> scheduling s g Q \<Longrightarrow>
   \<exists>g' xs. scheduling t g' (Q(Ready := xs)) \<and> runnable g' (Q(Ready := xs)) = runnable g Q"
proof (induction rule: sched_run.induct)
  case (run_start s)
  then show ?case by (metis fun_upd_triv)
next
  case (run_yield s t cc c r u)
  then obtain g' xs where t: "scheduling t g' (Q(Ready := xs))" "runnable g' (Q(Ready := xs)) = runnable g Q" by blast
  have "sint (eax (ctxs (t\<lparr>ctxs := c\<rparr>) cc)) = 1" using run_yield.hyps(3) by simp
  from idle_keeps_scheduling [OF scheduling_ctxs(1) [OF t(1)] run_yield.hyps(2) this] run_yield.hyps(4)
  obtain g2 ys where "scheduling u g2 (Q(Ready := ys))" "runnable g2 (Q(Ready := ys)) = runnable g' (Q(Ready := xs))"
    by (metis fun_upd_upd option.inject prod.inject sum.inject(2))
  then show ?case using t(2) by metis
qed

subsection \<open>Round robin\<close>

text \<open>Yields from the given contexts, one after the other; the result is the last context resumed.\<close>

fun yield_all :: "u32 list \<Rightarrow> u32 \<Rightarrow> 'a kern_scheme \<Rightarrow> (u32 \<times> 'a kern_scheme) checked option" where
  "yield_all [] r s = Some (Inr (r, s))"
| "yield_all (cc # ccs) r s = run_then (sys_call cc s) (\<lambda>(r, s). yield_all ccs r s)"

lemma enqueue_last: "(\<And>y. y \<in> set xs \<Longrightarrow> key y = key x) \<Longrightarrow> enqueue key x xs = xs @ [x]"
  by (induction xs) (auto simp: enqueue_Cons)

definition equal_prio :: "'a kern_scheme \<Rightarrow> u32 set \<Rightarrow> bool" where
  "equal_prio s P \<longleftrightarrow> (\<exists>k. \<forall>p \<in> P. prio_of s p = k)"

definition yields_from :: "'a kern_scheme \<Rightarrow> u32 list \<Rightarrow> bool" where
  "yields_from s ccs \<longleftrightarrow> (\<forall>cc \<in> set ccs. cc \<noteq> NULL \<and> sint (eax (ctxs s cc)) = 1)"

lemma yield_turn:
  assumes sch: "scheduling s g Q" and x: "Q Ready = x # xs" and eq: "equal_prio s (runnable g Q)"
    and cc: "cc \<noteq> NULL" "sint (eax (ctxs s cc)) = 1"
  shows "\<exists>s'. sys_call cc s = Some (Inr (stack_top (pcbs s x), s')) \<and> scheduling s' x (Q(Ready := xs @ [g])) \<and>
    prio_of s' = prio_of s \<and> ctxs s' = ctxs s \<and>
    stack_top (pcbs s' g) = cc \<and> (\<forall>p. p \<noteq> g \<longrightarrow> stack_top (pcbs s' p) = stack_top (pcbs s p))"
proof -
  have "enqueue (prio_of s) g xs = xs @ [g]"
    using eq x by (intro enqueue_last) (auto simp: equal_prio_def runnable_def)
  moreover have "sys_call cc s = idle_case cc x s"
    using sys_call_idle [OF cc] scheduling_ready_head [OF sch x] by simp
  moreover obtain s' where "idle_case cc x s = Some (Inr (stack_top (pcbs s x), s'))"
    "scheduling s' x (Q(Ready := enqueue (prio_of s) g xs))" "prio_of s' = prio_of s" "ctxs s' = ctxs s"
    "stack_top (pcbs s' g) = cc" "\<forall>p. p \<noteq> g \<longrightarrow> stack_top (pcbs s' p) = stack_top (pcbs s p)"
    using idle_case_dispatches [OF sch x, of cc] by blast
  ultimately show ?thesis by (intro exI [of _ s']) simp
qed

lemma yield_round:
  assumes "scheduling s g Q" "Q Ready = xs" "equal_prio s (runnable g Q)" "yields_from s ccs" "length ccs \<le> length xs"
  shows "\<exists>r' s'. yield_all ccs r s = Some (Inr (r', s')) \<and>
    scheduling s' ((g # xs) ! length ccs) (Q(Ready := drop (length ccs) xs @ take (length ccs) (g # xs))) \<and>
    prio_of s' = prio_of s \<and> ctxs s' = ctxs s \<and>
    (\<forall>i<length ccs. stack_top (pcbs s' ((g # xs) ! i)) = ccs ! i) \<and>
    (\<forall>p. p \<notin> set (take (length ccs) (g # xs)) \<longrightarrow> stack_top (pcbs s' p) = stack_top (pcbs s p)) \<and>
    (ccs \<noteq> [] \<longrightarrow> r' = stack_top (pcbs s ((g # xs) ! length ccs)))"
  using assms
proof (induction ccs arbitrary: s g xs Q r)
  case Nil
  then show ?case by (auto simp: fun_upd_idem)
next
  case (Cons cc ccs)
  let ?m = "length ccs"
  obtain x ys where xs: "xs = x # ys" using Cons.prems by (cases xs) auto
  have y: "yields_from s ccs" "cc \<noteq> NULL" "sint (eax (ctxs s cc)) = 1" using Cons.prems by (auto simp: yields_from_def)
  have qr: "Q Ready = x # ys" using Cons.prems xs by simp
  have gx: "g \<notin> set (x # ys)" using scheduling_head(5) [OF Cons.prems(1) qr, of Ready] qr by simp
  obtain s1 where s1: "sys_call cc s = Some (Inr (stack_top (pcbs s x), s1))"
    "scheduling s1 x (Q(Ready := ys @ [g]))" "prio_of s1 = prio_of s" "ctxs s1 = ctxs s"
    "stack_top (pcbs s1 g) = cc" "\<And>p. p \<noteq> g \<Longrightarrow> stack_top (pcbs s1 p) = stack_top (pcbs s p)"
    using yield_turn [OF Cons.prems(1) qr Cons.prems(3) y(2,3)] by blast
  let ?Q = "Q(Ready := ys @ [g])"
  have "runnable x ?Q = runnable g Q" using qr by (auto simp: runnable_def)
  then have eq: "equal_prio s1 (runnable x ?Q)"
    using Cons.prems(3) by (simp add: equal_prio_def s1(3))
  have len: "?m \<le> length ys" using Cons.prems(5) xs by simp
  have "?Q Ready = ys @ [g]" "yields_from s1 ccs" "?m \<le> length (ys @ [g])" using y(1) len s1(4) by (auto simp: yields_from_def)
  from Cons.IH [OF s1(2) this(1) eq this(2,3), of "stack_top (pcbs s x)"]
  obtain r' s2 where s2: "yield_all ccs (stack_top (pcbs s x)) s1 = Some (Inr (r', s2))"
    "scheduling s2 ((x # ys @ [g]) ! ?m) (?Q(Ready := drop ?m (ys @ [g]) @ take ?m (x # ys @ [g])))"
    "prio_of s2 = prio_of s1" "ctxs s2 = ctxs s1"
    "\<forall>i<?m. stack_top (pcbs s2 ((x # ys @ [g]) ! i)) = ccs ! i"
    "\<forall>p. p \<notin> set (take ?m (x # ys @ [g])) \<longrightarrow> stack_top (pcbs s2 p) = stack_top (pcbs s1 p)"
    "ccs \<noteq> [] \<longrightarrow> r' = stack_top (pcbs s1 ((x # ys @ [g]) ! ?m))" by blast
  have nth: "(x # ys @ [g]) ! i = (g # xs) ! Suc i" if "i \<le> ?m" for i
    using that len xs by (cases i) (auto simp: nth_append)
  have tk: "take ?m (x # ys @ [g]) = take ?m (x # ys)" using len by (cases ?m) auto
  have rot: "drop ?m (ys @ [g]) @ take ?m (x # ys @ [g]) = drop (Suc ?m) xs @ take (Suc ?m) (g # xs)"
    unfolding tk using len xs by simp
  have gt: "g \<notin> set (take ?m (x # ys))" using gx by (auto dest: in_set_takeD)
  have last_ne: "(g # xs) ! Suc ?m \<noteq> g" using gx xs len nth_mem [of ?m xs] by auto
  have saved: "stack_top (pcbs s2 ((g # xs) ! i)) = (cc # ccs) ! i" if "i < Suc ?m" for i
  proof (cases i)
    case 0
    then show ?thesis using s2(6) gt s1(5) by (simp add: tk)
  next
    case (Suc j)
    then show ?thesis using s2(5) [rule_format, of j] nth [of j] that by simp
  qed
  have res: "r' = stack_top (pcbs s ((g # xs) ! Suc ?m))"
    using s2(1,7) s1(6) [OF last_ne] nth [of ?m] xs by (cases ccs) auto
  have others: "stack_top (pcbs s2 p) = stack_top (pcbs s p)" if "p \<notin> set (take (Suc ?m) (g # xs))" for p
    using that s2(6) s1(6) by (simp add: tk xs)
  have fin: "scheduling s2 ((g # xs) ! Suc ?m) (Q(Ready := drop (Suc ?m) xs @ take (Suc ?m) (g # xs)))"
    using s2(2) unfolding rot nth [OF order_refl] fun_upd_upd .
  have run: "yield_all (cc # ccs) r s = Some (Inr (r', s2))" using s1(1) s2(1) by simp
  have keeps: "prio_of s2 = prio_of s" "ctxs s2 = ctxs s" using s1(3,4) s2(3,4) by simp_all
  show ?case
    unfolding length_Cons
    using fin run keeps saved res others by blast
qed

subsection \<open>What the serial driver does to processes: nothing\<close>

text \<open>The part of the state the queue operations and the dispatcher work on.\<close>

definition proc_part where
  "proc_part s = (pcbs s, ready_head s, blocked_head s, suspended_head s, global_pcb s, initial_context s, ctxs s)"

lemma proc_part_driver [simp]:
  "proc_part (upd_dcb d f s) = proc_part s" "proc_part (upd_iocb r g s) = proc_part s"
  "proc_part (set_next_iocb r q s) = proc_part s" "proc_part (outb p c s) = proc_part s"
  "proc_part (snd (inb p s)) = proc_part s" "proc_part (s\<lparr>bufs := b\<rparr>) = proc_part s"
  "proc_part (s\<lparr>mcbs := m\<rparr>) = proc_part s" "proc_part (s\<lparr>heap_addr := a\<rparr>) = proc_part s"
  "proc_part (s\<lparr>phys_alloc_addr := a\<rparr>) = proc_part s"
  by (simp_all add: proc_part_def upd_dcb_def upd_iocb_def set_next_iocb_def outb_def inb_def emit_def Let_def)

lemma take_block_frame: "\<exists>m. take_block sz a s = s\<lparr>mcbs := m\<rparr>"
  by (simp add: take_block_def put_mcb_def Let_def) auto

lemma allocate_loop_frame:
  "allocate_loop sz a s = Some r \<Longrightarrow> (\<forall>p s'. r = Inr (p, s') \<longrightarrow> (\<exists>m. s' = s\<lparr>mcbs := m\<rparr>))"
proof (rule allocate_loop.raw_induct [rotated], assumption)
  fix f sz a r and s :: "'a heap_scheme"
  assume "\<And>sz a s r. f sz a s = Some r \<Longrightarrow> \<forall>p s'. r = Inr (p, s') \<longrightarrow> (\<exists>m. s' = s\<lparr>mcbs := m\<rparr>)"
    and "(if a = NULL then Some (Inr (NULL, s))
          else if sz \<le> mcb_size (mcbs s a) \<and> mcb_isfree (mcbs s a) then Some (Inr (mcb_start a, take_block sz a s))
          else case mcb_next a s of Inl e \<Rightarrow> Some (Inl e) | Inr a' \<Rightarrow> f sz a' s) = Some r"
  then show "\<forall>p s'. r = Inr (p, s') \<longrightarrow> (\<exists>m. s' = s\<lparr>mcbs := m\<rparr>)"
    using take_block_frame [of sz a s] by (auto split: if_splits sum.splits intro: exI [of _ "mcbs s"])
qed

lemma sys_alloc_mem_procs: "sys_alloc_mem sz s = Some (Inr (p, s')) \<Longrightarrow> proc_part s' = proc_part s"
  using allocate_loop_frame [of "roundup sz" "memlist s" s]
  by (auto simp: sys_alloc_mem_def allocate_memory_def kmalloc_def alloc_def Let_def split: option.splits alloc_fn.splits
      if_splits)

lemma yield_all_append:
  "yield_all (as @ bs) r s = run_then (yield_all as r s) (\<lambda>(r, s). yield_all bs r s)"
proof (induction as arbitrary: r s)
  case (Cons a as)
  show ?case by (simp add: run_then_assoc Cons.IH split_def)
qed simp

lemma yield_circle:
  assumes sch: "scheduling s g Q" and xs: "Q Ready = xs" "xs \<noteq> []" and eq: "equal_prio s (runnable g Q)"
    and y: "yields_from s ccs" "length ccs = Suc (length xs)"
  shows "\<exists>s'. yield_all ccs r s = Some (Inr (hd ccs, s')) \<and> scheduling s' g Q \<and>
    (\<forall>i<length ccs. stack_top (pcbs s' ((g # xs) ! i)) = ccs ! i)"
proof -
  let ?n = "length xs"
  obtain cs c where ccs: "ccs = cs @ [c]" "length cs = ?n" using y(2) by (cases ccs rule: rev_cases) auto
  obtain ys x where xy: "xs = ys @ [x]" using xs(2) by (cases xs rule: rev_cases) auto
  have ne: "cs \<noteq> []" using ccs(2) xs(2) by auto
  have yc: "yields_from s cs" "c \<noteq> NULL" "sint (eax (ctxs s c)) = 1" using y(1) ccs by (auto simp: yields_from_def)
  have last: "(g # xs) ! ?n = x" "take ?n (g # xs) = g # ys" "(g # xs) ! 0 = g" by (simp_all add: xy nth_append)
  let ?Q = "Q(Ready := g # ys)"
  obtain r1 s1 where s1: "yield_all cs r s = Some (Inr (r1, s1))" "scheduling s1 x ?Q"
    "prio_of s1 = prio_of s" "ctxs s1 = ctxs s" "\<And>i. i < ?n \<Longrightarrow> stack_top (pcbs s1 ((g # xs) ! i)) = cs ! i"
    using yield_round [OF sch xs(1) eq yc(1), of r] ccs(2) last(1,2) by auto
  have "runnable x ?Q = runnable g Q" using xs(1) xy by (auto simp: runnable_def)
  then have e1: "equal_prio s1 (runnable x ?Q)" using eq s1(3) by (simp add: equal_prio_def)
  have "sint (eax (ctxs s1 c)) = 1" using yc(3) s1(4) by simp
  from yield_turn [OF s1(2) _ e1 yc(2) this, of g ys]
  obtain s2 where s2: "sys_call c s1 = Some (Inr (stack_top (pcbs s1 g), s2))" "scheduling s2 g (?Q(Ready := ys @ [x]))"
    "stack_top (pcbs s2 x) = c" "\<And>p. p \<noteq> x \<Longrightarrow> stack_top (pcbs s2 p) = stack_top (pcbs s1 p)" by auto
  have "?Q(Ready := ys @ [x]) = Q" using xs(1) xy by (simp add: fun_upd_idem)
  moreover have "stack_top (pcbs s1 g) = hd ccs" using s1(5) [of 0] ne ccs last(3) xs(2) by (simp add: hd_conv_nth nth_append)
  moreover have "stack_top (pcbs s2 ((g # xs) ! i)) = ccs ! i" if "i < length ccs" for i
  proof (cases "i = ?n")
    case True
    then show ?thesis using s2(3) last(1) ccs by (simp add: nth_append)
  next
    case False
    then have i: "i < ?n" using that ccs by simp
    have "distinct (g # xs)"
      using sch xs(1) qlist_distinct [OF pcb_queuesD, of s Q Ready] by (auto simp: scheduling_def queued_def)
    then have "(g # xs) ! i \<noteq> x" using i last(1) nth_eq_iff_index_eq [of "g # xs" i ?n] by auto
    then show ?thesis using s2(4) s1(5) [OF i] i ccs by (simp add: nth_append)
  qed
  ultimately show ?thesis using s1(1) s2(1,2) by (auto simp: ccs(1) yield_all_append)
qed

lemma scheduling_remove_running:
  assumes "scheduling s g Q"
  shows "pcb_remove g s = Some (Inr (PCB_ERROR, s))"
  using assms by (intro pcb_remove_missing) (auto simp: scheduling_def queued_def)

lemma heap_set_next [simp]: "heap_ok (set_next_pcb p q s) = heap_ok s" "heap_live (set_next_pcb p q s) = heap_live s"
  by (simp_all add: heap_ok_def heap_live_def heap_blocks_def set_next_pcb_def upd_pcb_def)

lemma sys_call_exit:
  assumes sch: "scheduling s g Q" and cc: "cc \<noteq> NULL" "eax (ctxs s cc) = 0"
    and h: "heap_ok s" "free_function s = Some Free_Memory" "unat g \<in> fst ` heap_live s"
    and nm: "name (pcbs s g) \<noteq> []" "name (pcbs s g) ! 0 \<noteq> 0"
  shows "sys_call cc s = Some (Inl Null_Deref)"
proof -
  have g: "global_pcb s = g" "g \<noteq> NULL" using sch by (simp_all add: scheduling_def)
  let ?t = "set_next_pcb (ready_head s) NULL s"
  have "free_function ?t = Some Free_Memory" using h(2) by (simp add: set_next_pcb_def upd_pcb_def)
  then have "pcb_free g ?t = Some (Inl Null_Deref)"
    using h nm g(2) by (intro pcb_free_double) simp_all
  then show ?thesis
    using cc g scheduling_remove_running [OF sch] by (simp add: sys_call_def exit_case_def Let_def)
qed

lemma run_then_Some_Inr_E:
  assumes "run_then m f = Some (Inr y)" obtains x where "m = Some (Inr x)" "f x = Some (Inr y)"
  using assms by (auto simp: run_then_Some_Inr_iff)

lemma serial_write_procs:
  assumes "serial_write dev buf len s = Inr (r, t)"
  shows "proc_part t = proc_part s"
proof -
  have "\<exists>f g. t = upd_dcb (serial_port s) f (outb dev (bufs s buf ! 0) (outb (dev + IER) g (outb (dev + IER) 0
      (snd (inb (dev + IER) (upd_dcb (serial_port s) (\<lambda>b. b\<lparr>operation := WRITE, event_flag := 1, counter := 0,
        io_count := sint len\<rparr>) s)))))) \<or> t = s"
    using assms by (auto simp: serial_write_def Let_def split_beta arr_get_def split: if_splits)
  then show ?thesis by auto
qed

lemma serial_read_procs:
  assumes "serial_read dev buf len s = Inr (r, t)"
  shows "proc_part t = proc_part s"
proof (cases "read_loop (ring_buffer (dcbs s (serial_port s))) (bufs s buf) (unat len) 0 0")
  case (Inl e)
  then show ?thesis using assms by (simp add: serial_read_def Let_def split: if_splits)
next
  case (Inr q)
  then show ?thesis using assms by (cases q) (auto simp: serial_read_def Let_def split: if_splits)
qed

lemmas serial_rw_procs = serial_write_procs serial_read_procs

lemma io_scheduler_procs:
  assumes "io_scheduler dev buf len oper s = Some (Inr t)"
  shows "proc_part t = proc_part s"
proof (cases "dev \<noteq> COM1 \<or> buf = NULL")
  case True
  then show ?thesis using assms by (simp add: io_scheduler_def)
next
  case False
  let ?d = "serial_port s"
  obtain a s1 where a: "sys_alloc_mem sizeof_iocb s = Some (Inr (a, s1))"
    using assms False by (auto simp: io_scheduler_def checked_simps)
  have p1: "proc_part s1 = proc_part s" using sys_alloc_mem_procs [OF a] .
  show ?thesis
    using assms False a p1
    by (auto simp: io_scheduler_def checked_simps Let_def serial_rw_procs split: if_splits option.splits)
qed

text \<open>One pass through the body of \<open>WRITE\<close> or \<open>READ\<close> with the caller alone in the blocked queue, or nobody.\<close>

definition blocked_by :: "u32 \<Rightarrow> 'a kern_scheme \<Rightarrow> 'a kern_scheme \<Rightarrow> bool" where
  "blocked_by g s t \<longleftrightarrow> blocked_head t = g \<and> ready_head t = ready_head s \<and> global_pcb t = g \<and> ctxs t = ctxs s \<and>
     (\<forall>p. p \<noteq> g \<longrightarrow> pcbs t p = pcbs s p) \<and> prio_of t = prio_of s"

lemma block_caller_blocks:
  assumes "block_caller cc oper s = Some (Inr t)" "global_pcb s = g"
    and "blocked_head s = NULL \<or> blocked_head s = g \<and> pnext s g = NULL"
  shows "blocked_by g s t" "blocked_head s = NULL \<Longrightarrow> pnext t g = NULL"
proof -
  let ?s1 = "upd_pcb g (\<lambda>b. b\<lparr>stack_top := cc, state := BLOCKED_STATE\<rparr>) s"
  have g: "g \<noteq> NULL" using assms by (auto simp: block_caller_def)
  obtain s2 where s2: "io_scheduler (ebx (ctxs s cc)) (ecx (ctxs s cc)) (edx (ctxs s cc)) oper ?s1 = Some (Inr s2)"
    "pcb_insert (global_pcb s2) s2 = Some (Inr t)"
    using assms(1,2) g by (auto simp: block_caller_def Let_def checked_simps)
  have p: "pcbs s2 = pcbs ?s1" "ready_head s2 = ready_head s" "blocked_head s2 = blocked_head s" "global_pcb s2 = g"
    "ctxs s2 = ctxs s"
    using io_scheduler_procs [OF s2(1)] assms(2) by (auto simp: proc_part_def)
  have pr: "prio_of s2 = prio_of s" using p(1) by (auto simp: prio_of_def fun_eq_iff)
  have "t = set_head Blocked g (set_next_pcb g NULL s2) \<and> blocked_head s = NULL \<or>
        t = set_next_pcb g g (set_next_pcb g NULL s2) \<and> blocked_head s = g"
  proof (cases "blocked_head s = NULL")
    case True
    then show ?thesis using s2(2) p g by (simp add: pcb_insert_def Let_def)
  next
    case False
    then have b: "blocked_head s = g" "pnext s2 g = NULL" using assms(3) p(1) by (auto simp: pnext_def)
    then have "insert_position (priority (pcbs s2 g)) g s2 = Some g" using g insert_position_eq [of s2 g "[]"] by simp
    then show ?thesis using s2(2) p g b by (simp add: pcb_insert_def Let_def pnext_def)
  qed
  then show "blocked_by g s t" "blocked_head s = NULL \<Longrightarrow> pnext t g = NULL"
    using p pr g by (auto simp: blocked_by_def set_next_pcb_def prio_of_def pnext_def fun_eq_iff)
qed

text \<open>A yield looks at nothing but the ready queue.\<close>

lemma idle_ready:
  assumes q: "qlist (pnext s) (ready_head s) (x # xs)" and g: "global_pcb s = g" "g \<noteq> NULL" "g \<notin> set (x # xs)"
    and so: "sorted_queue (prio_of s) (x # xs)" and sl: "slot_of s x = Some Ready"
  shows "\<exists>s'. idle_case cc x s = Some (Inr (stack_top (pcbs s x), s')) \<and> global_pcb s' = x \<and>
    blocked_head s' = blocked_head s \<and> state (pcbs s' g) = READY_STATE \<and>
    qlist (pnext s') (ready_head s') (enqueue (prio_of s) g xs)"
proof -
  let ?i = "if initial_context s = NULL then cc else initial_context s"
  let ?s = "s\<lparr>initial_context := ?i\<rparr>"
  let ?t = "upd_pcb g (\<lambda>b. b\<lparr>stack_top := cc, state := READY_STATE\<rparr>) ?s"
  have si: "(if initial_context s = NULL then s\<lparr>initial_context := cc\<rparr> else s) = ?s" by simp
  have x: "x \<noteq> NULL" "x \<noteq> g" "ready_head s = x" using q g by auto
  have t: "pnext ?t = pnext s" "prio_of ?t = prio_of s" by (auto simp: pnext_def prio_of_def)
  have "qlist (pnext ?t) (get_head Ready ?t) (x # xs)" unfolding t using q by simp
  from pcb_insert_step [OF this g(2,3)] t
  obtain s1 where s1: "pcb_insert g ?t = Some (Inr s1)" "qlist (pnext s1) (get_head Ready s1) (enqueue (prio_of s) g (x # xs))"
    "\<And>q. q \<noteq> Ready \<Longrightarrow> get_head q s1 = get_head q ?t" "same_procs ?t s1" by auto
  let ?u = "s1\<lparr>global_pcb := x\<rparr>"
  have nu: "pnext ?u = pnext s1" by (simp add: pnext_def fun_eq_iff)
  have "qlist (pnext ?u) (get_head Ready ?u) (enqueue (prio_of s) g (x # xs))" using s1(2) nu by simp
  from remove_from_in [OF this, of x]
  obtain s2 where s2: "remove_from Ready x ?u = Some (Inr (PCB_SUCCESS, s2))"
    "qlist (pnext s2) (get_head Ready s2) (remove1 x (enqueue (prio_of s) g (x # xs)))"
    "\<And>q. q \<noteq> Ready \<Longrightarrow> get_head q s2 = get_head q ?u" "same_procs ?u s2" by auto
  have rot: "remove1 x (enqueue (prio_of s) g (x # xs)) = enqueue (prio_of s) g xs"
    using rotate_enqueue [OF so] x(2) by simp
  note k1 = kept_fields [OF s1(4) [unfolded same_procs_def]] and k2 = kept_fields [OF s2(4) [unfolded same_procs_def]]
  have st: "removes_from (state (pcbs ?u x)) = Some Ready"
    using k1(7) [of x] sl x(2) by (simp add: removes_from_def slot_of_def)
  then have rm: "pcb_remove x ?u = Some (Inr (PCB_SUCCESS, s2))" using s2(1) x(1) by (simp add: pcb_remove_eq)
  let ?s4 = "upd_pcb x (\<lambda>b. b\<lparr>state := READY_STATE\<rparr>) (set_next_pcb x NULL s2)"
  have "global_pcb s2 = x" using k2(1) by simp
  then have run: "idle_case cc x s = Some (Inr (stack_top (pcbs ?s4 x), ?s4))"
    unfolding idle_case_def si using g x s1(1) rm by (simp add: dispatch_def Let_def)
  have "stack_top (pcbs ?s4 x) = stack_top (pcbs s x)" using k1(6) [of x] k2(6) [of x] x(2) by simp
  moreover have "blocked_head ?s4 = blocked_head s" using s1(3) [of Blocked] s2(3) [of Blocked] by simp
  moreover have "state (pcbs ?s4 g) = READY_STATE" using k1(7) [of g] k2(7) [of g] by simp
  moreover have "qlist (pnext ?s4) (ready_head ?s4) (enqueue (prio_of s) g xs)"
  proof -
    have "x \<notin> set (enqueue (prio_of s) g xs)" using qlist_distinct [OF q] x(2) by simp
    moreover have "pnext ?s4 = (pnext s2)(x := NULL)" by (auto simp: pnext_def set_next_pcb_def)
    ultimately show ?thesis using s2(2) rot by simp
  qed
  ultimately show ?thesis using run \<open>global_pcb s2 = x\<close> by (intro exI [of _ ?s4]) simp
qed

section \<open>Properties\<close>

text \<open>
  A kernel for examples: \<open>aa\<close> at 0x8000 runs, \<open>bb\<close> at 0x9000 and \<open>cc\<close> at 0xa000 are ready, all of
  priority 1; the saved contexts of \<open>bb\<close> and \<open>cc\<close> are at 0x9400 and 0xa400, and every context asks for
  the operation \<open>n\<close>.
\<close>

definition kern_demo :: "u32 \<Rightarrow> kern" where
  "kern_demo n = driver.extend (write_demo\<lparr>ready_head := 0x9000, blocked_head := NULL, global_pcb := 0x8000,
     pcbs := (\<lambda>p. if p = 0x8000 then some_pcb ''aa'' 1 NULL
                  else if p = 0x9000 then (some_pcb ''bb'' 1 0xa000)\<lparr>stack_top := 0x9400\<rparr>
                  else (some_pcb ''cc'' 1 NULL)\<lparr>stack_top := 0xa400\<rparr>)\<rparr>)
     \<lparr>initial_context = 0x100, ctxs = (\<lambda>_. \<lparr>ds_reg = 0, es_reg = 0, fs_reg = 0, gs_reg = 0, ss_reg = 0, eax = n,
        ebx = 0x3f8, ecx = 0x7200, edx = 3, esp = 0, ebp = 0, esi = 0, edi = 0, eip = 0, cs_reg = 0, eflags = 0\<rparr>)\<rparr>"

definition demo_Q :: "queue \<Rightarrow> u32 list" where
  "demo_Q = (\<lambda>_. [])(Ready := [0x9000, 0xa000])"

lemma kern_demo_simps:
  "ready_head (kern_demo n) = 0x9000" "suspended_head (kern_demo n) = NULL" "blocked_head (kern_demo n) = NULL"
  "global_pcb (kern_demo n) = 0x8000" "eax (ctxs (kern_demo n) c) = n" "ebx (ctxs (kern_demo n) c) = 0x3f8"
  "ecx (ctxs (kern_demo n) c) = 0x7200" "edx (ctxs (kern_demo n) c) = 3"
  "pcbs (kern_demo n) 0x8000 = some_pcb ''aa'' 1 NULL"
  "pcbs (kern_demo n) 0x9000 = (some_pcb ''bb'' 1 0xa000)\<lparr>stack_top := 0x9400\<rparr>"
  "pcbs (kern_demo n) 0xa000 = (some_pcb ''cc'' 1 NULL)\<lparr>stack_top := 0xa400\<rparr>"
  "serial_port (kern_demo n) = 0x7000" "dcbs (kern_demo n) = (\<lambda>_. idle_dcb 0x7100)"
  "iocbs (kern_demo n) = (\<lambda>_. some_iocb 0x7200 NULL)" "bufs (kern_demo n) = (\<lambda>_. [104, 105, 33])"
  "memlist (kern_demo n) = 0x1000" "mcbs (kern_demo n) = (\<lambda>a. if a = 0x1000 then 5003 else 0)"
  "malloc_function (kern_demo n) = Some Allocate_Memory" "free_function (kern_demo n) = Some Free_Memory"
  "initialized (kern_demo n) 0 = 1"
  by (simp_all add: kern_demo_def driver.extend_def write_demo_def driver_at_def)

lemma kern_demo_scheduling: "scheduling (kern_demo n) 0x8000 demo_Q"
proof -
  have "qlist (pnext (kern_demo n)) (get_head q (kern_demo n)) (demo_Q q)" for q
    by (cases q) (simp_all add: demo_Q_def kern_demo_simps pnext_def some_pcb_def)
  then have "pcb_queues (kern_demo n) demo_Q" by (auto simp: pcb_queues_def demo_Q_def)
  then show ?thesis
    by (auto simp: scheduling_def demo_Q_def queued_def kern_demo_simps sorted_queue_def prio_of_def slot_of_def some_pcb_def
        split: if_splits)
qed

lemma kern_demo_prio: "equal_prio (kern_demo n) (runnable 0x8000 demo_Q)"
  by (auto simp: equal_prio_def runnable_def demo_Q_def prio_of_def kern_demo_simps some_pcb_def)

text \<open>
  C4. The system call \<open>IDLE\<close> is a yield: the running process is stored as ready with the
  context it was interrupted in and queued behind every process of the same or a smaller
  priority number, the first ready process becomes the running one, and the kernel resumes
  it from exactly the context it was last saved with. No saved context is modified and no other
  queue changes.
\<close>

theorem sys_call_yields:
  assumes "scheduling s g Q" "Q Ready = x # xs" "cc \<noteq> NULL" "sint (eax (ctxs s cc)) = op_num IDLE"
  shows "\<exists>s'. sys_call cc s = Some (Inr (stack_top (pcbs s x), s')) \<and>
    scheduling s' x (Q(Ready := enqueue (prio_of s) g xs)) \<and> prio_of s' = prio_of s \<and> ctxs s' = ctxs s \<and>
    stack_top (pcbs s' g) = cc \<and> (\<forall>p. p \<noteq> g \<longrightarrow> stack_top (pcbs s' p) = stack_top (pcbs s p))"
proof -
  have "sys_call cc s = idle_case cc x s"
    using sys_call_idle [OF assms(3), of s] assms(4) scheduling_ready_head [OF assms(1,2)] by simp
  then show ?thesis using idle_case_dispatches [OF assms(1,2), of cc] by auto
qed

theorem sys_call_yields_witness:
  "\<exists>s'. sys_call 0x8400 (kern_demo 1) = Some (Inr (0x9400, s')) \<and>
     scheduling s' 0x9000 (demo_Q(Ready := [0xa000, 0x8000])) \<and> stack_top (pcbs s' 0x8000) = 0x8400"
proof -
  have "enqueue (prio_of (kern_demo 1)) 0x8000 [0xa000] = [0xa000, 0x8000]"
    by (simp add: enqueue_Cons prio_of_def kern_demo_simps some_pcb_def)
  then show ?thesis
    using sys_call_yields [OF kern_demo_scheduling [of 1], where x = "0x9000" and xs = "[0xa000]" and cc = "0x8400"]
    by (auto simp: demo_Q_def kern_demo_simps some_pcb_def)
qed

text \<open>
  C6. However long processes run and yield, whatever they do to their registers, the scheduler
  neither loses nor duplicates a process: the running process and the ready queue stay
  well-formed, in priority order and together hold the same processes as at the start, and the
  next yield again returns.
\<close>

theorem yields_conserve_processes:
  assumes "scheduling s g Q" "sched_run s t" "cc \<noteq> NULL" "sint (eax (ctxs t cc)) = op_num IDLE"
  shows "\<exists>g' xs. scheduling t g' (Q(Ready := xs)) \<and> distinct (g' # xs) \<and> set (g' # xs) = set (g # Q Ready) \<and>
    (\<exists>r u. sys_call cc t = Some (Inr (r, u)))"
proof -
  obtain g' xs where t: "scheduling t g' (Q(Ready := xs))" "runnable g' (Q(Ready := xs)) = runnable g Q"
    using sched_run_inv [OF assms(2,1)] by blast
  have "pcb_queues t (Q(Ready := xs))" "g' \<notin> set xs"
    using t(1) unfolding scheduling_def queued_def by (metis, metis UN_I UNIV_I fun_upd_same)
  moreover have "distinct xs" using qlist_distinct [OF pcb_queuesD [OF calculation(1), of Ready]] by simp
  moreover have "\<exists>r u. sys_call cc t = Some (Inr (r, u))"
    using idle_keeps_scheduling [OF t(1) assms(3)] assms(4) by auto
  ultimately show ?thesis using t by (auto simp: runnable_def)
qed

theorem yields_conserve_processes_witness:
  "\<exists>r t g' xs. sys_call 0x8400 (kern_demo 1) = Some (Inr (r, t)) \<and> distinct (g' # xs) \<and>
     set (g' # xs) = {0x8000, 0x9000, 0xa000} \<and> scheduling t g' (demo_Q(Ready := xs))"
proof -
  have y: "(0x8400 :: u32) \<noteq> NULL" "sint (eax (ctxs (kern_demo 1) 0x8400)) = 1" by (simp_all add: kern_demo_simps)
  have c: "(kern_demo 1)\<lparr>ctxs := ctxs (kern_demo 1)\<rparr> = kern_demo 1" by simp
  have e: "demo_Q Ready = 0x9000 # [0xa000]" by (simp add: demo_Q_def)
  obtain t where t: "sys_call 0x8400 (kern_demo 1) = Some (Inr (0x9400, t))" "ctxs t = ctxs (kern_demo 1)"
    using yield_turn [OF kern_demo_scheduling e kern_demo_prio y] by (auto simp: kern_demo_simps)
  have "sched_run (kern_demo 1) t"
    using run_yield [OF run_start, of "0x8400" "ctxs (kern_demo 1)" "kern_demo 1"] t(1) c by (simp add: kern_demo_simps)
  from yields_conserve_processes [OF kern_demo_scheduling this, of "0x8400"] t show ?thesis
    by (auto simp: kern_demo_simps demo_Q_def)
qed

text \<open>
  C9. Round robin: when all runnable processes have the same priority and each of them yields
  when it gets the processor, then with \<open>n\<close> processes ready the \<open>k\<close>-th yield hands the processor to the \<open>k\<close>-th
  of them, and yield \<open>n + 1\<close> resumes the first process from the context it had saved, with the
  ready queue back as it was. No process is passed over or starves.
\<close>

theorem round_robin:
  assumes "scheduling s g Q" "Q Ready = xs" "xs \<noteq> []" "equal_prio s (runnable g Q)"
    "yields_from s ccs" "length ccs = Suc (length xs)"
  shows "(\<forall>k\<le>length xs. \<exists>r' s'. yield_all (take k ccs) r s = Some (Inr (r', s')) \<and> global_pcb s' = (g # xs) ! k) \<and>
    (\<exists>s'. yield_all ccs r s = Some (Inr (hd ccs, s')) \<and> scheduling s' g Q)"
proof -
  have "\<exists>r' s'. yield_all (take k ccs) r s = Some (Inr (r', s')) \<and> global_pcb s' = (g # xs) ! k" if "k \<le> length xs" for k
  proof -
    have k: "length (take k ccs) = k" "yields_from s (take k ccs)"
      using that assms(5,6) by (auto simp: yields_from_def dest: in_set_takeD)
    from yield_round [OF assms(1,2,4) k(2), of r] show ?thesis
      unfolding k(1) scheduling_def using that by blast
  qed
  then show ?thesis using yield_circle [OF assms, of r] by blast
qed

theorem round_robin_witness:
  "\<exists>s'. yield_all [0x8400, 0x9300, 0xa300] 0 (kern_demo 1) = Some (Inr (0x8400, s')) \<and> scheduling s' 0x8000 demo_Q"
  using round_robin [OF kern_demo_scheduling [of 1] _ _ kern_demo_prio, where xs = "[0x9000, 0xa000]"
      and ccs = "[0x8400, 0x9300, 0xa300]" and r = 0]
  by (auto simp: demo_Q_def kern_demo_simps yields_from_def)

text \<open>
  C38. \<open>EXIT\<close> never works: for a running process whose PCB is an allocated block with a name,
  the handler faults before it returns. With nothing ready it writes through the NULL
  \<open>next_pcb\<close>; otherwise \<open>pcb_free\<close> releases the PCB twice.
\<close>

theorem sys_call_exit_faults:
  assumes "scheduling s g Q" "cc \<noteq> NULL" "sint (eax (ctxs s cc)) = op_num EXIT"
    and "heap_ok s" "free_function s = Some Free_Memory" "unat g \<in> fst ` heap_live s"
    and "name (pcbs s g) \<noteq> []" "name (pcbs s g) ! 0 \<noteq> 0"
  shows "sys_call cc s = Some (Inl Null_Deref)"
proof -
  have "eax (ctxs s cc) = 0" using assms(3) by (metis op_num.simps(1) signed_eq_0_iff)
  then show ?thesis using sys_call_exit [OF assms(1,2) _ assms(4-)] by simp
qed

theorem sys_call_exit_faults_witness:
  "sys_call 0x8400 ((kern_demo 0)\<lparr>memlist := 0x7ffc, mcbs := (\<lambda>a. if a = 0x7ffc then 1102 else 0)\<rparr>) = Some (Inl Null_Deref)"
proof -
  let ?s = "(kern_demo 0)\<lparr>memlist := 0x7ffc, mcbs := (\<lambda>a. if a = 0x7ffc then 1102 else 0)\<rparr>"
  have h: "heap_blocks ?s [(1100, False)]" by (simp add: heap_blocks_def hdr_def)
  have "pcb_queues ?s demo_Q"
    by (rule pcb_queues_same [of "kern_demo 0"]) (use kern_demo_scheduling [of 0] in \<open>simp_all add: scheduling_def\<close>)
  moreover have "prio_of ?s = prio_of (kern_demo 0)" "slot_of ?s = slot_of (kern_demo 0)"
    by (simp_all add: prio_of_def slot_of_def fun_eq_iff)
  ultimately have "scheduling ?s 0x8000 demo_Q" using kern_demo_scheduling [of 0] by (simp add: scheduling_def)
  then show ?thesis
  proof (rule sys_call_exit_faults)
    show "heap_ok ?s" using h by (auto simp: heap_ok_def)
    show "unat (0x8000 :: u32) \<in> fst ` heap_live ?s" unfolding heap_live_eq [OF h] by simp
  qed (simp_all add: kern_demo_simps some_pcb_def)
qed

text \<open>
  C35. A process that asks for \<open>READ\<close> or \<open>WRITE\<close>, while no process is blocked and another one is ready, is not
  blocked: the cases of the handler fall through into \<open>IDLE\<close>, so once its request is queued the caller is ready
  again and stands in the ready queue, where the scheduler will run it before the device is done; at the same time it
  stays at the head of the blocked queue, whose link now runs into the ready queue. The case is that of an empty blocked
  queue and a non-empty ready queue: when nothing is ready the caller stays \<open>BLOCKED\<close> and is resumed at once,
  and in a blocked queue that has elements its place depends on the priorities (and inserting a process that is
  there already makes the queue cyclic).
\<close>

theorem io_caller_stays_ready:
  assumes "scheduling s g Q" "Q Ready = x # xs" "Q Blocked = []" "cc \<noteq> NULL"
    and "sint (eax (ctxs s cc)) = op_num oper" "oper \<in> {READ, WRITE}"
    and "run_then (block_caller cc oper s) (\<lambda>s. if oper = WRITE then block_caller cc oper s else Some (Inr s)) = Some (Inr u)"
  shows "\<exists>s'. sys_call cc s = Some (Inr (stack_top (pcbs s x), s')) \<and> global_pcb s' = x \<and> blocked_head s' = g \<and>
    state (pcbs s' g) = READY_STATE \<and> qlist (pnext s') (ready_head s') (enqueue (prio_of s) g xs)"
proof -
  have g: "global_pcb s = g" "g \<noteq> NULL" "g \<notin> set (x # xs)" "sorted_queue (prio_of s) (x # xs)" "slot_of s x = Some Ready"
    and q: "qlist (pnext s) (ready_head s) (x # xs)" and b: "blocked_head s = NULL"
    using assms(1-3) scheduling_head(5) [OF assms(1,2), of Ready] pcb_queuesD [of s Q Ready] pcb_queuesD [of s Q Blocked]
    by (auto simp: scheduling_def)
  obtain t where t: "block_caller cc oper s = Some (Inr t)"
    "(if oper = WRITE then block_caller cc oper t else Some (Inr t)) = Some (Inr u)"
    using assms(7) by (rule run_then_Some_Inr_E)
  have bt: "blocked_by g s t" "pnext t g = NULL" using block_caller_blocks [OF t(1) g(1)] b by simp_all
  have "blocked_by g s u"
  proof (cases "oper = WRITE")
    case True
    then have "blocked_by g t u" using block_caller_blocks(1) [of cc oper t u g] t(2) bt by (simp add: blocked_by_def)
    then show ?thesis using bt(1) by (simp add: blocked_by_def)
  qed (use bt t(2) in simp)
  then have u: "blocked_head u = g" "ready_head u = ready_head s" "global_pcb u = g" "\<And>p. p \<noteq> g \<Longrightarrow> pcbs u p = pcbs s p"
    "prio_of u = prio_of s" by (simp_all add: blocked_by_def)
  have "pnext u y = pnext s y" if "y \<in> set (x # xs)" for y
  proof -
    have "y \<noteq> g" using that g(3) by metis
    then show ?thesis using u(4) by (simp add: pnext_def)
  qed
  then have "qlist (pnext u) (ready_head u) (x # xs) = qlist (pnext s) (ready_head s) (x # xs)"
    unfolding u(2) by (rule qlist_cong)
  then have qu: "qlist (pnext u) (ready_head u) (x # xs)" using q by simp
  have "x \<noteq> g" using g(3) by auto
  then have ux: "slot_of u x = Some Ready" "stack_top (pcbs u x) = stack_top (pcbs s x)"
    using u(4) g(5) by (simp_all add: slot_of_def)
  have "sys_call cc s = idle_case cc x u"
    using assms(4-6) t q by (auto simp: sys_call_def Let_def)
  then show ?thesis
    using idle_ready [OF qu u(3) g(2,3) _ ux(1), of cc] g(4) unfolding u(1,5) ux(2) by auto
qed

theorem io_caller_stays_ready_witness:
  "\<exists>s'. sys_call 0x8400 ((kern_demo 2)\<lparr>dcbs := (\<lambda>_. (idle_dcb 0x7100)\<lparr>operation := WRITE\<rparr>)\<rparr>) = Some (Inr (0x9400, s')) \<and>
     blocked_head s' = 0x8000 \<and> qlist (pnext s') (ready_head s') [0xa000, 0x8000]"
proof -
  let ?s = "(kern_demo 2)\<lparr>dcbs := (\<lambda>_. (idle_dcb 0x7100)\<lparr>operation := WRITE\<rparr>)\<rparr>"
  let ?t = "upd_pcb 0x8000 (\<lambda>b. b\<lparr>stack_top := 0x8400, state := BLOCKED_STATE\<rparr>) ?s"
  have f: "prio_of ?s = prio_of (kern_demo 2)" "slot_of ?s = slot_of (kern_demo 2)"
    by (simp_all add: prio_of_def slot_of_def fun_eq_iff)
  have "pcb_queues ?s demo_Q"
    by (rule pcb_queues_same [of "kern_demo 2"]) (use kern_demo_scheduling [of 2] in \<open>simp_all add: scheduling_def\<close>)
  then have sch: "scheduling ?s 0x8000 demo_Q" using kern_demo_scheduling [of 2] f by (simp add: scheduling_def)
  have h: "heap_blocks ?t [(5000, True)]" by (simp add: heap_blocks_def hdr_def upd_pcb_def kern_demo_simps)
  have ok: "heap_ok ?t" using h by (auto simp: heap_ok_def)
  have m: "memlist ?t = 0x1000" "malloc_function ?t = Some Allocate_Memory" "serial_port ?t = 0x7000"
    by (simp_all add: upd_pcb_def kern_demo_simps)
  obtain s1 where al: "allocate_memory 28 ?t = Some (Inr (0x1004, s1))"
    using allocate_memory_refines [OF h, of 28] m by (auto simp: roundup_def)
  have "operation (dcbs ?t 0x7000) \<noteq> IDLE" "qlist (inext ?t) (io_head (dcbs ?t 0x7000)) [0x7100]"
    by (simp_all add: upd_pcb_def idle_dcb_def inext_def some_iocb_def kern_demo_simps)
  from io_scheduler_busy [OF ok m(2) al _ m(3) _ this, of "0x7200" 3 READ]
  obtain s2 where s2: "io_scheduler COM1 0x7200 3 READ ?t = Some (Inr s2)" by auto
  have p: "blocked_head s2 = NULL" "global_pcb s2 = 0x8000" "state (pcbs s2 0x8000) = BLOCKED_STATE"
    using io_scheduler_procs [OF s2] by (auto simp: proc_part_def kern_demo_simps upd_pcb_def)
  let ?u = "set_head Blocked 0x8000 (set_next_pcb 0x8000 NULL s2)"
  have "block_caller 0x8400 READ ?s = Some (Inr ?u)"
    using s2 p by (simp add: block_caller_def Let_def kern_demo_simps COM1_def pcb_insert_def)
  from io_caller_stays_ready [OF sch, of "0x9000" "[0xa000]" "0x8400" READ ?u] this
  show ?thesis
    by (auto simp: demo_Q_def kern_demo_simps some_pcb_def f enqueue_Cons prio_of_def)
qed

end
