(* ===== verification/Sys_Req.thy ===== *)
theory Sys_Req
  imports Sys_Call
begin

text \<open>
  \<open>src/user/core.c\<close>: \<open>sys_req\<close>, the processes of module R3 and the idle process.

  What happens between the trap instruction \<open>int $0x60\<close> and the moment the caller runs again (the
  assembly stub, \<open>sys_call\<close>, and whatever the other processes and the interrupt handlers do until the
  caller is dispatched) is the parameter \<open>trap\<close> of every definition: it takes the operation,
  device, buffer and length the caller has put into its registers and gives the value of \<open>eax\<close>,
  the contents of the buffer and the state the caller finds. \<open>trap\<close> may fault, and it may never come back
  (\<^const>\<open>None\<close>). Two concrete ones are used below: \<open>console\<close> serves every request at once
  and records it, \<open>no_service\<close> answers -1 as \<open>sys_call\<close> does for an unknown number.
\<close>

section \<open>Model\<close>

type_synonym 's trap = "op_code \<Rightarrow> device \<Rightarrow> bytes \<Rightarrow> u32 \<Rightarrow> 's \<Rightarrow> (int \<times> bytes \<times> 's) checked option"

subsection \<open>sys_req\<close>

definition sys_req ::
  "'a serial_line_scheme trap \<Rightarrow> op_code \<Rightarrow> device \<Rightarrow> bytes \<Rightarrow> u32 \<Rightarrow> 'a serial_line_scheme \<Rightarrow>
     (int \<times> bytes \<times> 'a serial_line_scheme) checked option" where
  "sys_req trap oper arg_dev arg_buffer arg_len s =
     (let (dev, buffer, len) = (if oper = READ \<or> oper = WRITE then (arg_dev, arg_buffer, arg_len) else (0, [], 0))
      in run_then (trap oper dev buffer len s) (\<lambda>(ret, buffer, s).
           if ret = -1 \<and> (oper = READ \<or> oper = WRITE) then
             if oper = READ then serial_poll dev buffer len s
             else run_then (Some (serial_out dev buffer (unat len) s)) (\<lambda>(r, s). Some (Inr (r, buffer, s)))
           else Some (Inr (ret, buffer, s))))"

text \<open>
  A request whose result is not used: \<open>write_bytes\<close> writes the first \<open>len\<close> bytes of a buffer to COM1, \<open>say\<close>
  a string with its \<open>strlen\<close>, \<open>say_nul\<close> an array with its \<open>sizeof\<close>, \<open>idle\<close> and \<open>exit_proc\<close> take
  no arguments.
\<close>

definition write_bytes ::
  "'a serial_line_scheme trap \<Rightarrow> bytes \<Rightarrow> nat \<Rightarrow> 'a serial_line_scheme \<Rightarrow> 'a serial_line_scheme checked option" where
  "write_bytes trap buf len s = run_then (sys_req trap WRITE COM1 buf (of_nat len) s) (\<lambda>(_, _, s). Some (Inr s))"

definition say :: "'a serial_line_scheme trap \<Rightarrow> string \<Rightarrow> 'a serial_line_scheme \<Rightarrow> 'a serial_line_scheme checked option" where
  "say trap msg s = write_bytes trap (c_str msg) (length msg) s"

definition say_nul :: "'a serial_line_scheme trap \<Rightarrow> string \<Rightarrow> 'a serial_line_scheme \<Rightarrow> 'a serial_line_scheme checked option" where
  "say_nul trap msg s = write_bytes trap (c_str msg) (length msg + 1) s"

definition say_str :: "'a serial_line_scheme trap \<Rightarrow> bytes \<Rightarrow> 'a serial_line_scheme \<Rightarrow> 'a serial_line_scheme checked option" where
  "say_str trap buf s = run_then (Some (strlen buf)) (\<lambda>n. write_bytes trap buf n s)"

definition idle :: "'a serial_line_scheme trap \<Rightarrow> 'a serial_line_scheme \<Rightarrow> 'a serial_line_scheme checked option" where
  "idle trap s = run_then (sys_req trap IDLE 0 [] 0 s) (\<lambda>(_, _, s). Some (Inr s))"

definition exit_proc :: "'a serial_line_scheme trap \<Rightarrow> 'a serial_line_scheme \<Rightarrow> 'a serial_line_scheme checked option" where
  "exit_proc trap s = run_then (sys_req trap EXIT 0 [] 0 s) (\<lambda>(_, _, s). Some (Inr s))"

subsection \<open>The R3 processes\<close>

text \<open>\<open>memcpy(output + strlen(output), s, strlen(s) + 1)\<close>\<close>

definition append_str :: "bytes \<Rightarrow> bytes \<Rightarrow> bytes checked" where
  "append_str output str =
     and_then (strlen output) (\<lambda>k.
     and_then (strlen str) (\<lambda>n.
     and_then (memcpy (drop k output) str (n + 1)) (\<lambda>rest. Inr (take k output @ rest))))"

text \<open>The three copies that build a message: what, \<open>procname\<close>, end of line.\<close>

definition r3_message :: "bytes \<Rightarrow> string \<Rightarrow> string \<Rightarrow> bytes checked" where
  "r3_message output what procname =
     and_then (memcpy output (c_str what) (length what + 1)) (\<lambda>output.
     and_then (append_str output (c_str procname)) (\<lambda>output.
       append_str output (c_str [CHR 0x0D, CHR 0x0A])))"

fun r3_rounds ::
  "'a serial_line_scheme trap \<Rightarrow> bytes \<Rightarrow> nat \<Rightarrow> 'a serial_line_scheme \<Rightarrow> 'a serial_line_scheme checked option" where
  "r3_rounds trap output 0 s = Some (Inr s)"
| "r3_rounds trap output (Suc i) s =
     run_then (say_str trap output s) (\<lambda>s. run_then (idle trap s) (\<lambda>s. r3_rounds trap output i s))"

partial_function (option) r3_failed ::
  "'a serial_line_scheme trap \<Rightarrow> bytes \<Rightarrow> 'a serial_line_scheme \<Rightarrow> 'a serial_line_scheme checked option" where
  "r3_failed trap output s =
     run_then (say_str trap output s) (\<lambda>s. run_then (exit_proc trap s) (\<lambda>s. r3_failed trap output s))"

text \<open>\<open>r3_work\<close> is the function up to the request \<open>EXIT\<close>; \<open>output\<close> is the local array as the stack has it.\<close>

definition r3_work ::
  "'a serial_line_scheme trap \<Rightarrow> nat \<Rightarrow> string \<Rightarrow> bytes \<Rightarrow> 'a serial_line_scheme \<Rightarrow> (bytes \<times> 'a serial_line_scheme) checked option" where
  "r3_work trap iterations procname output s =
     run_then (Some (r3_message output ''dispatched '' procname)) (\<lambda>output.
     run_then (r3_rounds trap output iterations s) (\<lambda>s.
     run_then (Some (r3_message output ''exiting '' procname)) (\<lambda>output.
     run_then (say_str trap output s) (\<lambda>s. Some (Inr (output, s))))))"

definition r3_proc ::
  "'a serial_line_scheme trap \<Rightarrow> nat \<Rightarrow> string \<Rightarrow> bytes \<Rightarrow> 'a serial_line_scheme \<Rightarrow> 'a serial_line_scheme checked option" where
  "r3_proc trap iterations procname output s =
     run_then (r3_work trap iterations procname output s) (\<lambda>(output, s).
     run_then (exit_proc trap s) (\<lambda>s.
     run_then (Some (r3_message output ''FAILURE TO EXIT: '' procname)) (\<lambda>output.
       r3_failed trap output s)))"

definition proc1 where "proc1 trap output s = r3_proc trap 1 ''proc1'' output s"
definition proc2 where "proc2 trap output s = r3_proc trap 2 ''proc2'' output s"
definition proc3 where "proc3 trap output s = r3_proc trap 3 ''proc3'' output s"
definition proc4 where "proc4 trap output s = r3_proc trap 4 ''proc4'' output s"
definition proc5 where "proc5 trap output s = r3_proc trap 5 ''proc5'' output s"

partial_function (option) sys_idle_process ::
  "'a serial_line_scheme trap \<Rightarrow> 'a serial_line_scheme \<Rightarrow> 'a serial_line_scheme checked option" where
  "sys_idle_process trap s = run_then (idle trap s) (\<lambda>s. sys_idle_process trap s)"

section \<open>Lemmas\<close>

subsection \<open>Two traps\<close>

text \<open>A kernel that serves every request at once, records it and answers with the operation number.\<close>

definition console :: "'a machine_scheme trap" where
  "console oper dev buf len s = Some (Inr (op_num oper, buf, emit (Request oper dev (take (unat len) buf)) s))"

definition no_service :: "'s trap" where
  "no_service oper dev buf len s = Some (Inr (-1, buf, s))"

lemma console_requests [simp]:
  "n < 2 ^ 32 \<Longrightarrow> write_bytes console buf n s = Some (Inr (emit (Request WRITE COM1 (take n buf)) s))"
  "idle console s = Some (Inr (emit (Request IDLE 0 []) s))"
  "exit_proc console s = Some (Inr (emit (Request EXIT 0 []) s))"
  by (simp_all add: write_bytes_def idle_def exit_proc_def sys_req_def console_def unat_of_nat32)

lemma console_say [simp]:
  "length m < 2 ^ 32 \<Longrightarrow> say console m s = Some (Inr (emit (Request WRITE COM1 (map of_char m)) s))"
  "length m + 1 < 2 ^ 32 \<Longrightarrow> say_nul console m s = Some (Inr (emit (Request WRITE COM1 (c_str m)) s))"
  by (simp_all add: say_def say_nul_def) (simp_all add: c_str_def)

lemma console_say_str [simp]:
  assumes "0 \<in> set buf" "length buf < 2 ^ 32"
  shows "say_str console buf s = Some (Inr (emit (Request WRITE COM1 (cstring buf)) s))"
proof -
  have "take (length (cstring buf)) buf = cstring buf" unfolding cstring_def by (metis takeWhile_eq_take)
  then show ?thesis using assms cstring_length_less [OF assms(1)] by (simp add: say_str_def)
qed

subsection \<open>Messages\<close>

lemma append_str_eq:
  assumes "0 \<in> set output" "0 \<in> set str" "length (cstring output) + length (cstring str) < length output"
  shows "\<exists>out. append_str output str = Inr out \<and> cstring out = cstring output @ cstring str \<and> 0 \<in> set out \<and>
    length out = length output"
proof -
  let ?k = "length (cstring output)" and ?n = "length (cstring str)"
  have ns: "?n < length str" using cstring_length_less [OF assms(2)] .
  have "memcpy (drop ?k output) str (?n + 1) = Inr (take (?n + 1) str @ drop (?n + 1) (drop ?k output))"
    using ns assms(3) by (simp add: memcpy_def memcpy_loop_eq)
  moreover have "take (?n + 1) str = cstring str @ [0]"
    using ns nth_after_cstring [OF assms(2)] by (simp add: take_Suc_conv_app_nth) (simp add: cstring_def takeWhile_eq_take [symmetric])
  moreover have "take ?k output = cstring output" unfolding cstring_def by (metis takeWhile_eq_take)
  ultimately show ?thesis using assms(1,2,3) cstring_append_nul [of "cstring output @ cstring str"]
    by (auto simp: append_str_def)
qed

lemma r3_message_eq:
  assumes "0 \<notin> set (map of_char what :: bytes)" "0 \<notin> set (map of_char procname :: bytes)"
    "length what + length procname + 2 < length output"
  shows "\<exists>out. r3_message output what procname = Inr out \<and>
    cstring out = map of_char (what @ procname @ [CHR 0x0D, CHR 0x0A]) \<and> 0 \<in> set out \<and> length out = length output"
proof -
  let ?o = "c_str what @ drop (length what + 1) output"
  have o: "memcpy output (c_str what) (length what + 1) = Inr ?o"
    using assms(3) by (simp add: memcpy_def memcpy_loop_eq c_str_def)
  have c: "cstring ?o = map of_char what" "0 \<in> set ?o" "length ?o = length output"
    using assms(1,3) by (simp_all add: c_str_def)
  obtain o2 where o2: "append_str ?o (c_str procname) = Inr o2" "cstring o2 = map of_char (what @ procname)"
    "0 \<in> set o2" "length o2 = length output"
    using append_str_eq [OF c(2), of "c_str procname"] c assms(2,3) by auto
  have "cstring (c_str [CHR 0x0D, CHR 0x0A]) = map of_char [CHR 0x0D, CHR 0x0A]" by simp
  then obtain o3 where "append_str o2 (c_str [CHR 0x0D, CHR 0x0A]) = Inr o3"
    "cstring o3 = map of_char (what @ procname @ [CHR 0x0D, CHR 0x0A])" "0 \<in> set o3" "length o3 = length output"
    using append_str_eq [OF o2(3), of "c_str [CHR 0x0D, CHR 0x0A]"] o2(2,4) assms(3) by auto
  then show ?thesis using o o2(1) by (simp add: r3_message_def)
qed

lemma r3_rounds_console:
  "0 \<in> set output \<Longrightarrow> length output < 2 ^ 32 \<Longrightarrow>
   r3_rounds console output n s = Some (Inr (s\<lparr>trace := trace s @
     concat (replicate n [Request WRITE COM1 (cstring output), Request IDLE 0 []])\<rparr>))"
  by (induction n arbitrary: s) (simp_all add: emit_def)

subsection \<open>Processes never return\<close>

text \<open>A loop without exit has no result: it runs forever, or a request faults or does not come back.\<close>

lemma r3_failed_never: "r3_failed trap output s \<noteq> Some (Inr t)"
proof
  assume "r3_failed trap output s = Some (Inr t)"
  then have "\<forall>t'. Inr t \<noteq> (Inr t' :: fault + 'a serial_line_scheme)"
    by (rule r3_failed.raw_induct [rotated]) (auto simp: checked_simps, blast)
  then show False by blast
qed

lemma sys_idle_process_never: "sys_idle_process trap s \<noteq> Some (Inr t)"
proof
  assume "sys_idle_process trap s = Some (Inr t)"
  then have "\<forall>t'. Inr t \<noteq> (Inr t' :: fault + 'a serial_line_scheme)"
    by (rule sys_idle_process.raw_induct [rotated]) (auto simp: checked_simps, blast)
  then show False by blast
qed

lemma sys_req_fallback:
  assumes "initialized s 0 \<noteq> 0" "n \<le> length buf" "n < 2 ^ 31"
  shows "sys_req no_service WRITE COM1 buf (of_nat n) s =
    Some (Inr (int n, buf, s\<lparr>trace := trace s @ map (Out 0x3f8) (take n buf)\<rparr>))"
proof -
  have "int n < 2 ^ 31" using assms(3) by (metis of_nat_less_iff of_nat_numeral of_nat_power)
  moreover have "serial_devno COM1 = 0" "ucast COM1 = (0x3f8 :: u16)" by (simp_all add: serial_devno_def COM1_def)
  moreover have "unat (of_nat n :: u32) = n" using assms(3) by (intro unat_of_nat32) simp
  ultimately show ?thesis
    using assms serial_out_eq [of COM1 s n buf] by (simp add: sys_req_def no_service_def)
qed

section \<open>Properties\<close>

text \<open>
  An R3 process makes exactly these requests, in this order, while the kernel serves them:
  as many rounds of its message followed by a yield as its number says, then its farewell; after
  that only \<open>EXIT\<close> is left. And whatever the kernel does, the function itself never returns.
\<close>

theorem r3_proc_requests:
  assumes "0 \<notin> set (map of_char procname :: bytes)" "length procname < 87" "length output = 100"
  shows "(\<exists>out s'. r3_work console n procname output s = Some (Inr (out, s')) \<and>
      trace s' = trace s @
        concat (replicate n [Request WRITE COM1 (map of_char (''dispatched '' @ procname @ [CHR 0x0D, CHR 0x0A])),
                             Request IDLE 0 []]) @
        [Request WRITE COM1 (map of_char (''exiting '' @ procname @ [CHR 0x0D, CHR 0x0A]))]) \<and>
    (\<forall>trap t. r3_proc trap n procname output s \<noteq> Some (Inr t))"
proof -
  obtain o1 where o1: "r3_message output ''dispatched '' procname = Inr o1" "0 \<in> set o1" "length o1 = 100"
    "cstring o1 = map of_char (''dispatched '' @ procname @ [CHR 0x0D, CHR 0x0A])"
    using r3_message_eq [of "''dispatched ''" procname "output"] assms by auto
  obtain o2 where o2: "r3_message o1 ''exiting '' procname = Inr o2" "0 \<in> set o2" "length o2 = 100"
    "cstring o2 = map of_char (''exiting '' @ procname @ [CHR 0x0D, CHR 0x0A])"
    using r3_message_eq [of "''exiting ''" procname o1] assms o1(3) by auto
  have "r3_work console n procname output s = Some (Inr (o2, emit (Request WRITE COM1 (cstring o2))
      (s\<lparr>trace := trace s @ concat (replicate n [Request WRITE COM1 (cstring o1), Request IDLE 0 []])\<rparr>)))"
    using o1(1-3) o2(1-3) by (simp add: r3_work_def r3_rounds_console)
  moreover have "r3_proc trap n procname output s \<noteq> Some (Inr t)" for trap t
    using r3_failed_never by (auto simp: r3_proc_def checked_simps)
  ultimately show ?thesis by (simp add: o1(4) o2(4) emit_def)
qed

theorem r3_proc_requests_witness:
  "\<exists>out s'. r3_work console 1 ''proc1'' (replicate 100 0) (typing []) = Some (Inr (out, s')) \<and>
     trace s' = [Request WRITE COM1 (map of_char (''dispatched proc1'' @ [CHR 0x0D, CHR 0x0A])), Request IDLE 0 [],
                 Request WRITE COM1 (map of_char (''exiting proc1'' @ [CHR 0x0D, CHR 0x0A]))]"
proof -
  have "\<exists>out s'. r3_work console 1 ''proc1'' (replicate 100 0) (typing []) = Some (Inr (out, s')) \<and>
      trace s' = trace (typing []) @
        concat (replicate 1 [Request WRITE COM1 (map of_char (''dispatched '' @ ''proc1'' @ [CHR 0x0D, CHR 0x0A])),
                             Request IDLE 0 []]) @
        [Request WRITE COM1 (map of_char (''exiting '' @ ''proc1'' @ [CHR 0x0D, CHR 0x0A]))]"
    using r3_proc_requests [of "''proc1''" "replicate 100 0" 1 "typing []"] by simp
  then show ?thesis by (simp add: typing_def)
qed

end
