(* ===== verification/C_Stdlib.thy ===== *)
theory C_Stdlib
  imports C_Strings
begin

text \<open>
  \<open>src/lib/stdlib.c\<close>: \<open>atoi\<close> and \<open>itoa\<close>, on NUL-terminated byte arrays. Their arithmetic is
  that of a 32-bit \<open>int\<close>: sums and products wrap (\<^const>\<open>wrap32\<close>), division truncates
  (\<^const>\<open>cdiv\<close>, \<^const>\<open>cmod\<close>) and traps where the CPU traps. The lemmas relate \<open>itoa\<close> to
  the positional notation in any base from 2 to 36 and show that \<open>atoi\<close> reads a decimal
  number back.
\<close>

section \<open>Model\<close>

subsection \<open>atoi\<close>

fun atoi_skip :: "bytes \<Rightarrow> bytes checked" where
  "atoi_skip [] = Inl Out_Of_Bounds"
| "atoi_skip (c # s) = (if isspace (sint c) then atoi_skip s else Inr (c # s))"

fun atoi_digits :: "bytes \<Rightarrow> int \<Rightarrow> int checked" where
  "atoi_digits [] res = Inl Out_Of_Bounds"
| "atoi_digits (c # s) res =
     (if 48 \<le> sint c \<and> sint c \<le> 57
      then atoi_digits s (wrap32 (wrap32 (res * 10) + (sint c - 48)))
      else Inr res)"

definition atoi :: "bytes \<Rightarrow> int checked" where
  "atoi s =
     and_then (atoi_skip s) (\<lambda>s'.
     and_then (arr_get s' 0) (\<lambda>c.
       let sign = (if c = asc CHR ''-'' \<or> c = asc CHR ''+'' then c else asc CHR '' '');
           s'' = (if c = asc CHR ''-'' \<or> c = asc CHR ''+'' then drop 1 s' else s')
       in and_then (atoi_digits s'' 0) (\<lambda>res.
            Inr (if sign = asc CHR ''-'' then wrap32 (res * -1) else res))))"

subsection \<open>itoa\<close>

definition itoa_char :: "int \<Rightarrow> u8" where
  "itoa_char rem = word_of_int (if rem > 9 then (rem - 10) + 97 else rem + 48)"

text \<open>The digit loop; \<open>i\<close> is the index of the next free position in \<open>str\<close>.\<close>

function itoa_digits :: "int \<Rightarrow> bytes \<Rightarrow> int \<Rightarrow> nat \<Rightarrow> (bytes \<times> nat) checked" where
  "itoa_digits num str base i =
     (if num \<noteq> 0 then
        if base = 0 \<or> (num = INT_MIN \<and> base = -1) then Inl Div_By_Zero
        else and_then (arr_set str i (itoa_char (cmod num base))) (\<lambda>str'.
               itoa_digits (cdiv num base) str' base (i + 1))
      else Inr (str, i))"
  by pat_completeness auto
termination
  by (relation "measure (\<lambda>(num, str, base, i). length str - i)")
    (auto simp: arr_set_def split: if_splits)

function itoa_reverse :: "bytes \<Rightarrow> nat \<Rightarrow> nat \<Rightarrow> bytes" where
  "itoa_reverse str start end =
     (if start < end
      then itoa_reverse (str[start := str ! end, end := str ! start]) (start + 1) (end - 1)
      else str)"
  by pat_completeness auto
termination
  by (relation "measure (\<lambda>(str, start, end). end - start)") auto

definition itoa :: "int \<Rightarrow> bytes \<Rightarrow> int \<Rightarrow> bytes checked" where
  "itoa num str base =
     (if num = 0 then
        and_then (arr_set str 0 (asc CHR ''0'')) (\<lambda>str. arr_set str 1 0)
      else
        let isNegative = num < 0 \<and> base = 10;
            num' = (if isNegative then wrap32 (- num) else num)
        in and_then (itoa_digits num' str base 0) (\<lambda>(str, i).
           and_then (if isNegative
                     then and_then (arr_set str i (asc CHR ''-'')) (\<lambda>str. Inr (str, i + 1))
                     else Inr (str, i)) (\<lambda>(str, i).
           and_then (arr_set str i 0) (\<lambda>str.
           Inr (itoa_reverse str 0 (i - 1))))))"

section \<open>Lemmas\<close>

declare itoa_digits.simps [simp del] itoa_reverse.simps [simp del]

text \<open>Positional notation, least significant digit first: the reference for \<open>itoa\<close>.\<close>

function rdigits :: "int \<Rightarrow> int \<Rightarrow> bytes" where
  "rdigits base n = (if n \<le> 0 \<or> base \<le> 1 then [] else itoa_char (n mod base) # rdigits base (n div base))"
  by pat_completeness auto
termination
  by (relation "measure (\<lambda>(base, n). nat n)")
    (auto simp: nat_less_iff, metis int_div_less_self mult.commute not_le)

declare rdigits.simps [simp del]

lemma rdigits_0 [simp]: "rdigits base 0 = []"
  by (simp add: rdigits.simps)

lemma rdigits_step: "0 < n \<Longrightarrow> 1 < base \<Longrightarrow> rdigits base n = itoa_char (n mod base) # rdigits base (n div base)"
  by (subst rdigits.simps) auto

definition numeral_text :: "int \<Rightarrow> int \<Rightarrow> bytes" where
  "numeral_text base n =
     (if n = 0 then [asc CHR ''0'']
      else (if n < 0 then [asc CHR ''-''] else []) @ rev (rdigits base \<bar>n\<bar>))"

lemma itoa_digits_eq:
  "0 \<le> num \<Longrightarrow> 1 < base \<Longrightarrow> i + length (rdigits base num) \<le> length str \<Longrightarrow>
   itoa_digits num str base i =
     Inr (take i str @ rdigits base num @ drop (i + length (rdigits base num)) str,
          i + length (rdigits base num))"
proof (induction num str base i rule: itoa_digits.induct)
  case (1 num str base i)
  show ?case
  proof (cases "num = 0")
    case True
    then show ?thesis using "1.prems" by (simp add: itoa_digits.simps)
  next
    case False
    let ?c = "itoa_char (num mod base)" and ?ds = "rdigits base (num div base)"
    have ds: "rdigits base num = ?c # ?ds" using False "1.prems" by (intro rdigits_step) auto
    then have i: "i < length str" using "1.prems"(3) by simp
    have q: "0 \<le> num div base" using "1.prems" by (simp add: pos_imp_zdiv_nonneg_iff)
    have step: "itoa_digits num str base i = itoa_digits (num div base) (str[i := ?c]) base (i + 1)"
      using False "1.prems" i by (subst itoa_digits.simps) simp
    have "itoa_digits (num div base) (str[i := ?c]) base (i + 1) =
        Inr (take (i + 1) (str[i := ?c]) @ ?ds @ drop (i + 1 + length ?ds) (str[i := ?c]),
             i + 1 + length ?ds)"
      using False "1.prems" ds i q "1.IH" [of "str[i := ?c]"] by simp
    then show ?thesis
      using i ds by (simp add: step take_Suc_conv_app_nth)
  qed
qed

lemma itoa_reverse_length [simp]: "length (itoa_reverse str s e) = length str"
  by (induction str s e rule: itoa_reverse.induct) (subst itoa_reverse.simps, simp)

lemma itoa_reverse_nth:
  "e < length str \<Longrightarrow> j < length str \<Longrightarrow>
   itoa_reverse str s e ! j = (if s \<le> j \<and> j \<le> e then str ! (s + e - j) else str ! j)"
proof (induction str s e arbitrary: j rule: itoa_reverse.induct)
  case (1 str s e)
  show ?case
  proof (cases "s < e")
    case True
    let ?str = "str[s := str ! e, e := str ! s]"
    have "itoa_reverse ?str (s + 1) (e - 1) ! j =
        (if s + 1 \<le> j \<and> j \<le> e - 1 then ?str ! (s + 1 + (e - 1) - j) else ?str ! j)"
      using True "1.prems" by (intro "1.IH") auto
    then show ?thesis
      using True "1.prems" by (subst itoa_reverse.simps) (auto simp: nth_list_update)
  next
    case False
    then have "s + e - j = j" if "s \<le> j" "j \<le> e" using that by arith
    with False show ?thesis by (subst itoa_reverse.simps) auto
  qed
qed

lemma itoa_reverse_prefix:
  assumes "w \<noteq> []"
  shows "itoa_reverse (w @ 0 # rest) 0 (length w - 1) = rev w @ 0 # rest"
proof (rule nth_equalityI)
  fix j assume j: "j < length (itoa_reverse (w @ 0 # rest) 0 (length w - 1))"
  have nth: "itoa_reverse (w @ 0 # rest) 0 (length w - 1) ! j =
      (if j < length w then (w @ 0 # rest) ! (length w - 1 - j) else (w @ 0 # rest) ! j)"
    using j assms itoa_reverse_nth [of "length w - 1" "w @ 0 # rest" j 0] by (cases w) auto
  show "itoa_reverse (w @ 0 # rest) 0 (length w - 1) ! j = (rev w @ 0 # rest) ! j"
    unfolding nth by (auto simp: nth_append rev_nth)
qed simp


lemma rdigits_nonempty: "0 < n \<Longrightarrow> 1 < base \<Longrightarrow> rdigits base n \<noteq> []"
  by (simp add: rdigits_step)

text \<open>\<open>itoa\<close> writes the numeral, its NUL, and nothing else.\<close>

lemma itoa_eq:
  assumes n: "INT_MIN < n" "n \<le> INT_MAX" "1 < base" "base = 10 \<or> 0 \<le> n"
    and room: "length (numeral_text base n) < length str"
  shows "itoa n str base = Inr (numeral_text base n @ 0 # drop (Suc (length (numeral_text base n))) str)"
proof -
  let ?ds = "rdigits base \<bar>n\<bar>" and ?rest = "drop (Suc (length (numeral_text base n))) str"
  consider (zero) "n = 0" | (neg) "n < 0" | (pos) "0 < n" by linarith
  then show ?thesis
  proof cases
    case zero
    then obtain a b rest where "str = a # b # rest"
      using room by (auto simp: numeral_text_def Suc_less_eq2 length_Suc_conv numeral_2_eq_2 dest!: less_imp_Suc_add)
    then show ?thesis using zero by (simp add: itoa_def numeral_text_def)
  next
    case neg
    define ds where "ds = rdigits base (- n)"
    have ntext: "numeral_text base n = asc CHR ''-'' # rev ds"
      using neg by (simp add: numeral_text_def ds_def abs_if)
    have len: "length ds + 1 < length str" using room by (simp add: ntext)
    then obtain x y where split: "drop (length ds) str = x # y # ?rest"
      by (simp add: ntext Cons_nth_drop_Suc [symmetric])
    have digits: "itoa_digits (- n) str base 0 = Inr (ds @ x # y # ?rest, length ds)"
      using n(3) neg len by (simp add: itoa_digits_eq ds_def split [unfolded ds_def])
    have rev: "itoa_reverse ((ds @ [asc CHR ''-'']) @ 0 # ?rest) 0 (length (ds @ [asc CHR ''-'']) - 1) =
        rev (ds @ [asc CHR ''-'']) @ 0 # ?rest"
      by (rule itoa_reverse_prefix) simp
    show ?thesis
      using neg n digits rev ntext by (auto simp: itoa_def list_update_append)
  next
    case pos
    define ds where "ds = rdigits base n"
    have ntext: "numeral_text base n = rev ds"
      using pos by (simp add: numeral_text_def ds_def)
    have len: "length ds < length str" using room by (simp add: ntext)
    then obtain x where split: "drop (length ds) str = x # ?rest"
      by (simp add: ntext Cons_nth_drop_Suc [symmetric])
    have digits: "itoa_digits n str base 0 = Inr (ds @ x # ?rest, length ds)"
      using n(3) pos len by (simp add: itoa_digits_eq ds_def split [unfolded ds_def])
    have rev: "itoa_reverse (ds @ 0 # ?rest) 0 (length ds - 1) = rev ds @ 0 # ?rest"
      using pos n(3) unfolding ds_def by (intro itoa_reverse_prefix rdigits_nonempty) auto
    show ?thesis
      using pos n digits rev ntext by (auto simp: itoa_def list_update_append)
  qed
qed

text \<open>The value \<open>atoi_digits\<close> accumulates, without the wrap-around.\<close>

fun horner :: "bytes \<Rightarrow> int \<Rightarrow> int" where
  "horner [] r = r"
| "horner (c # s) r = horner s (r * 10 + (sint c - 48))"

definition is_digit :: "u8 \<Rightarrow> bool" where
  "is_digit c \<longleftrightarrow> 48 \<le> sint c \<and> sint c \<le> 57"

lemma horner_append: "horner (xs @ ys) r = horner ys (horner xs r)"
  by (induction xs arbitrary: r) auto

lemma horner_ge: "0 \<le> r \<Longrightarrow> list_all is_digit ds \<Longrightarrow> r \<le> horner ds r"
proof (induction ds arbitrary: r)
  case (Cons c ds)
  then have "r \<le> r * 10 + (sint c - 48)" "0 \<le> r * 10 + (sint c - 48)" by (auto simp: is_digit_def)
  then show ?case using Cons.IH [of "r * 10 + (sint c - 48)"] Cons.prems by simp
qed simp

lemma atoi_digits_eq:
  "0 \<le> r \<Longrightarrow> list_all is_digit ds \<Longrightarrow> horner ds r \<le> INT_MAX \<Longrightarrow> \<not> is_digit c \<Longrightarrow>
   atoi_digits (ds @ c # rest) r = Inr (horner ds r)"
proof (induction ds arbitrary: r)
  case Nil
  then show ?case by (auto simp: is_digit_def)
next
  case (Cons d ds)
  let ?r = "r * 10 + (sint d - 48)"
  have d: "48 \<le> sint d" "sint d \<le> 57" using Cons.prems by (auto simp: is_digit_def)
  then have r: "0 \<le> ?r" using Cons.prems by simp
  then have "?r \<le> INT_MAX" using horner_ge [of ?r ds] Cons.prems by simp
  then have "wrap32 (wrap32 (r * 10) + (sint d - 48)) = ?r" using r d Cons.prems(1) by simp
  then show ?case using Cons.IH [OF r] Cons.prems d by simp
qed

lemma itoa_char_digit: "0 \<le> d \<Longrightarrow> d < 10 \<Longrightarrow> is_digit (itoa_char d) \<and> sint (itoa_char d) = d + 48"
proof -
  assume d: "0 \<le> d" "d < 10"
  have "sint (word_of_int (d + 48) :: u8) = d + 48"
    using d by (simp only: int_word_sint) simp
  then show ?thesis using d by (simp add: is_digit_def itoa_char_def)
qed

lemma rdigits_decimal: "list_all is_digit (rdigits 10 n)"
proof (induction "10::int" n rule: rdigits.induct)
  case (1 n)
  then show ?case by (cases "0 < n") (auto simp: rdigits_step itoa_char_digit rdigits.simps [of 10 n])
qed

lemma horner_rdigits: "0 \<le> n \<Longrightarrow> horner (rev (rdigits 10 n)) 0 = n"
proof (induction "10::int" n rule: rdigits.induct)
  case (1 n)
  then show ?case
    by (cases "0 < n") (auto simp: rdigits_step itoa_char_digit horner_append)
qed

lemma atoi_nonneg_text:
  assumes "0 < n" "n \<le> INT_MAX"
  shows "atoi_digits (rev (rdigits 10 n) @ 0 # rest) 0 = Inr n"
proof -
  have "list_all is_digit (rev (rdigits 10 n))"
    using rdigits_decimal [of n] by simp
  then show ?thesis
    using assms by (subst atoi_digits_eq) (auto simp: horner_rdigits is_digit_def)
qed

lemma atoi_numeral_text:
  assumes "INT_MIN < n" "n \<le> INT_MAX"
  shows "atoi (numeral_text 10 n @ 0 # rest) = Inr n"
proof -
  consider (zero) "n = 0" | (neg) "n < 0" | (pos) "0 < n" by linarith
  then show ?thesis
  proof cases
    case zero
    then show ?thesis by (simp add: numeral_text_def atoi_def isspace_def Let_def)
  next
    case neg
    then show ?thesis
      using assms atoi_nonneg_text [of "- n" rest]
      by (simp add: numeral_text_def atoi_def isspace_def Let_def)
  next
    case pos
    obtain d ds where ds: "rev (rdigits 10 n) = d # ds"
      using pos rdigits_nonempty [of n 10] by (cases "rev (rdigits 10 n)") auto
    then have d: "is_digit d"
      using rdigits_decimal [of n] by (metis list.pred_inject(2) list_all_rev)
    then have "d \<noteq> asc CHR ''-''" "d \<noteq> asc CHR ''+''" "\<not> isspace (sint d)"
      by (auto simp: is_digit_def isspace_def)
    then show ?thesis
      using pos assms atoi_nonneg_text [of n rest] ds by (simp add: numeral_text_def atoi_def Let_def)
  qed
qed

section \<open>Properties\<close>

text \<open>
  \<open>itoa\<close> writes the positional notation of the number in the given base, with a sign in
  base 10, terminated, and leaves the rest of the array alone, whenever the text fits.
\<close>

theorem itoa_positional:
  assumes "INT_MIN < n" "n \<le> INT_MAX" "1 < base" "base = 10 \<or> 0 \<le> n"
    and "length (numeral_text base n) < length str"
  shows "itoa n str base = Inr (numeral_text base n @ 0 # drop (Suc (length (numeral_text base n))) str)"
  using itoa_eq [OF assms] .

theorem itoa_positional_witness:
  "itoa 255 (replicate 4 0) 16 = Inr (c_str ''ff'' @ [0])"
proof -
  have "numeral_text 16 255 = map of_char ''ff''" by code_simp
  then show ?thesis using itoa_positional [of 255 16 "replicate 4 0"] by (simp add: c_str_def)
qed

text \<open>
  C26. \<open>atoi\<close> after \<open>itoa\<close> in base 10 gives the number back, for every \<open>int\<close> but the smallest
  and any array the text and its NUL fit in.
\<close>

theorem atoi_itoa_roundtrip:
  assumes "INT_MIN < n" "n \<le> INT_MAX" "length (numeral_text 10 n) < length str"
  shows "and_then (itoa n str 10) atoi = Inr n"
  using itoa_eq [of n 10 str] atoi_numeral_text [OF assms(1,2)] assms by simp

theorem atoi_itoa_roundtrip_witness:
  "and_then (itoa (- 407) (replicate 12 0) 10) atoi = Inr (- 407)"
proof (rule atoi_itoa_roundtrip)
  show "length (numeral_text 10 (- 407)) < length (replicate 12 (0::u8))" by code_simp
qed simp_all

end
