(* ===== verification/Clock_Commands.thy ===== *)
theory Clock_Commands
  imports Sys_Req C_Stdlib
begin

text \<open>
  The clock commands of \<open>src/user/commhand.c\<close>: \<open>get_date\<close>, \<open>get_time\<close>, \<open>set_date\<close> and \<open>set_time\<close>, on
  the real-time clock behind the ports 0x70 (register number) and 0x71 (register contents).

  Local arrays that the code does not initialise are arguments (\<open>buf\<close>, \<open>seconds\<close>): the stack holds
  anything there. Every call of \<open>strtok\<close> in this file starts a new string, so its static pointer is
  never read and is not kept. The string \<open>get_time\<close> allocates is stored in \<open>bufs\<close> at its address.
\<close>

section \<open>Model\<close>

abbreviation (input) RTC_ADDR_PORT :: u32 where "RTC_ADDR_PORT \<equiv> 0x70"
abbreviation (input) RTC_DATA_PORT :: u32 where "RTC_DATA_PORT \<equiv> 0x71"
abbreviation (input) SECONDS :: u8 where "SECONDS \<equiv> 0"
abbreviation (input) MINUTES :: u8 where "MINUTES \<equiv> 2"
abbreviation (input) HOURS :: u8 where "HOURS \<equiv> 4"
abbreviation (input) DAY :: u8 where "DAY \<equiv> 7"
abbreviation (input) MONTH :: u8 where "MONTH \<equiv> 8"
abbreviation (input) YEAR :: u8 where "YEAR \<equiv> 9"

abbreviation (input) NL :: char where "NL \<equiv> CHR 0x0A"

text \<open>\<open>strtok(buf, "\n\r\t ")\<close>: the token as a suffix of the array, or \<^const>\<open>None\<close> for \<open>NULL\<close>, and the array.\<close>

definition first_token :: "bytes \<Rightarrow> (bytes option \<times> bytes) checked" where
  "first_token buf =
     and_then (strtok buf (Some 0) (c_str [CHR 0x0A, CHR 0x0D, CHR 0x09, CHR '' '']) None) (\<lambda>(r, buf, _).
       Inr (map_option (\<lambda>k. drop k buf) r, buf))"

definition write_rtc :: "u8 \<Rightarrow> u8 \<Rightarrow> 'a machine_scheme \<Rightarrow> 'a machine_scheme" where
  "write_rtc reg v s = outb RTC_DATA_PORT v (outb RTC_ADDR_PORT reg s)"

definition read_rtc :: "u8 \<Rightarrow> 'a machine_scheme \<Rightarrow> u8 \<times> 'a machine_scheme" where
  "read_rtc reg s = inb RTC_DATA_PORT (outb RTC_ADDR_PORT reg s)"

subsection \<open>get_date and get_time\<close>

definition get_date :: "'a kern_scheme trap \<Rightarrow> 'a kern_scheme \<Rightarrow> 'a kern_scheme checked option" where
  "get_date trap s =
     (let (day, s) = read_rtc DAY s;
          (month, s) = read_rtc MONTH s;
          (year, s) = read_rtc YEAR s;
          dateStr = [10,
            (drop_bit 4 day AND 0x0F) + 48, (day AND 0x0F) + 48, 47,
            (drop_bit 4 month AND 0x0F) + 48, (month AND 0x0F) + 48, 47,
            (drop_bit 4 year AND 0x0F) + 48, (year AND 0x0F) + 48, 10, 0]
      in say_str trap dateStr s)"

text \<open>\<open>hours\<close> is a \<open>uint8_t\<close>: the subtraction wraps and the test \<open>hours < 0\<close> is on its value.\<close>

definition get_time :: "'a kern_scheme trap \<Rightarrow> 'a kern_scheme \<Rightarrow> (u32 \<times> 'a kern_scheme) checked option" where
  "get_time trap s =
     (let (hours, s) = read_rtc HOURS s;
          (minutes, s) = read_rtc MINUTES s;
          (seconds, s) = read_rtc SECONDS s;
          hours = (hours AND 0x0F) + drop_bit 4 hours * 10;
          minutes = (minutes AND 0x0F) + drop_bit 4 minutes * 10;
          seconds = (seconds AND 0x0F) + drop_bit 4 seconds * 10;
          hours = hours - 4;
          hours = (if uint hours < 0 then hours + 24 else hours)
      in run_then (sys_alloc_mem 12 s) (\<lambda>(timeStr, s).
           if timeStr = NULL then Some (Inr (NULL, s))
           else
             let str = [10, 48 + hours div 10, 48 + hours mod 10, 58, 48 + minutes div 10, 48 + minutes mod 10, 58,
                        48 + seconds div 10, 48 + seconds mod 10, 10, 0] @ drop 11 (bufs s timeStr);
                 s = s\<lparr>bufs := (bufs s)(timeStr := str)\<rparr>
             in run_then (say_str trap str s) (\<lambda>s. Some (Inr (timeStr, s)))))"

subsection \<open>set_date\<close>

definition two_chars :: "bytes \<Rightarrow> nat \<Rightarrow> nat \<Rightarrow> bytes checked" where
  "two_chars b i j = and_then (arr_get b i) (\<lambda>x. and_then (arr_get b j) (\<lambda>y. Inr [x, y, 0]))"

definition to_bcd :: "int \<Rightarrow> u8" where
  "to_bcd n = word_of_int (push_bit 4 (cdiv n 10) OR cmod n 10)"

text \<open>The format check and the three numbers: \<^const>\<open>None\<close> when the format is wrong.\<close>

definition parse_date :: "bytes \<Rightarrow> (int \<times> int \<times> int) option checked" where
  "parse_date trimmed_input =
     and_then (strlen trimmed_input) (\<lambda>n.
       if n \<noteq> 8 then Inr None
       else and_then (arr_get trimmed_input 2) (\<lambda>c. if c \<noteq> 47 then Inr None
       else and_then (arr_get trimmed_input 5) (\<lambda>c. if c \<noteq> 47 then Inr None
       else and_then (two_chars trimmed_input 0 1) (\<lambda>day_str.
            and_then (two_chars trimmed_input 3 4) (\<lambda>month_str.
            and_then (two_chars trimmed_input 6 7) (\<lambda>year_str.
            and_then (atoi day_str) (\<lambda>day.
            and_then (atoi month_str) (\<lambda>month.
            and_then (atoi year_str) (\<lambda>year. Inr (Some (day, month, year)))))))))))"

definition set_date :: "'a kern_scheme trap \<Rightarrow> bytes \<Rightarrow> 'a kern_scheme \<Rightarrow> 'a kern_scheme checked option" where
  "set_date trap buf s =
     run_then (say trap (NL # ''Enter date (DD/MM/YY): '') (cli s)) (\<lambda>s.
     run_then (serial_poll COM1 buf 12 s) (\<lambda>(nread, buf, s).
       if nread = BUFFER_OVERFLOW then
         run_then (say trap (NL # ''Input buffer overflow. '' @ [NL]) s) (\<lambda>s. Some (Inr (sti s)))
       else if nread < 0 then Some (Inl Out_Of_Bounds)
       else run_then (Some (arr_set buf (nat nread) 0)) (\<lambda>buf.
       run_then (Some (first_token buf)) (\<lambda>(tok, _).
         case tok of None \<Rightarrow> Some (Inl Null_Deref)
         | Some trimmed_input \<Rightarrow>
             run_then (Some (parse_date trimmed_input)) (\<lambda>date.
               case date of None \<Rightarrow>
                 run_then (say trap (NL # ''Invalid date format. Please use DD/MM/YY. '' @ [NL]) s) (\<lambda>s. Some (Inr (sti s)))
               | Some (day, month, year) \<Rightarrow>
                   if day < 1 \<or> day > 31 \<or> month < 1 \<or> month > 12 \<or> year < 0 \<or> year > 99 then
                     run_then (say trap (NL # ''Invalid date. Please check the values. '' @ [NL]) s) (\<lambda>s. Some (Inr (sti s)))
                   else
                     let s = write_rtc DAY (to_bcd day) s;
                         s = write_rtc MONTH (to_bcd month) s;
                         s = write_rtc YEAR (to_bcd year) s
                     in say trap (NL # ''Date set successfully. '' @ [NL]) (sti s))))))"

subsection \<open>set_time\<close>

text \<open>
  The fields of a time as the code picks them: \<open>minutes[1]\<close> is written twice, \<open>seconds[1]\<close> and
  \<open>seconds[2]\<close> never.
\<close>

definition time_fields :: "bytes \<Rightarrow> bytes \<Rightarrow> (int \<times> int \<times> int) checked" where
  "time_fields buf seconds =
     and_then (two_chars buf 0 1) (\<lambda>hour.
     and_then (arr_get buf 3) (\<lambda>m0. and_then (arr_get buf 4) (\<lambda>m1.
     and_then (arr_get buf 6) (\<lambda>s0. and_then (arr_set seconds 0 s0) (\<lambda>seconds.
     and_then (arr_get buf 7) (\<lambda>m1.
       let minutes = [m0, m1, 0]
       in and_then (atoi hour) (\<lambda>h. and_then (atoi minutes) (\<lambda>m. and_then (atoi seconds) (\<lambda>sc.
            Inr (h, m, sc))))))))))"

definition time_invalid :: "int \<times> int \<times> int \<Rightarrow> bool" where
  "time_invalid t = (case t of (h, m, sc) \<Rightarrow> h < 0 \<or> h > 23 \<or> m < 0 \<or> m > 59 \<or> sc < 0 \<or> sc > 59)"

definition set_time :: "'a kern_scheme trap \<Rightarrow> bytes \<Rightarrow> bytes \<Rightarrow> 'a kern_scheme \<Rightarrow> 'a kern_scheme checked option" where
  "set_time trap buf seconds s =
     run_then (write_bytes trap (c_str (NL # ''Enter time (HH:MM:SS): '')) (length (NL # ''Enter time (HH:MMSs): '')) s) (\<lambda>s.
     run_then (serial_poll COM1 buf 20 s) (\<lambda>(nread, buf, s).
       if nread = BUFFER_OVERFLOW then say trap (NL # ''Input buffer overflow. '' @ [NL]) s
       else if nread < 5 then say trap (NL # ''Invalid input format. '' @ [NL]) s
       else run_then (Some (time_fields buf seconds)) (\<lambda>(h, m, sc).
         if time_invalid (h, m, sc) then say trap (NL # ''Invalid time input. '' @ [NL]) s
         else
           let s = cli s;
               s = write_rtc HOURS (word_of_int h) s;
               s = write_rtc MINUTES (word_of_int m) s;
               s = write_rtc SECONDS (word_of_int sc) s;
               s = sti s
           in say trap (NL # ''Time set successfully. '' @ [NL]) s)))"

section \<open>Lemmas\<close>

subsection \<open>What polling leaves alone\<close>

text \<open>Polling the line changes nothing but the trace, with events of COM1, and the count of reads.\<close>

fun on_line :: "event \<Rightarrow> bool" where
  "on_line (Out p _) \<longleftrightarrow> p = 0x3f8"
| "on_line (In p _) \<longleftrightarrow> p = 0x3f8 \<or> p = 0x3fd"
| "on_line _ \<longleftrightarrow> False"

definition line_only :: "'a machine_scheme \<Rightarrow> 'a machine_scheme \<Rightarrow> bool" where
  "line_only s t \<longleftrightarrow> (\<exists>es k. t = s\<lparr>trace := trace s @ es, reads := k\<rparr> \<and> (\<forall>e \<in> set es. on_line e))"

lemma line_only_refl [simp]: "line_only s s"
  unfolding line_only_def by (rule exI [of _ "[]"], rule exI [of _ "reads s"]) simp

lemma line_only_trans:
  assumes "line_only s t" "line_only t u" shows "line_only s u"
proof -
  obtain es k where t: "t = s\<lparr>trace := trace s @ es, reads := k\<rparr>" "\<forall>e \<in> set es. on_line e"
    using assms(1) unfolding line_only_def by blast
  obtain es' k' where u: "u = t\<lparr>trace := trace t @ es', reads := k'\<rparr>" "\<forall>e \<in> set es'. on_line e"
    using assms(2) unfolding line_only_def by blast
  have "u = s\<lparr>trace := trace s @ es @ es', reads := k'\<rparr>" unfolding u(1) t(1) by simp
  moreover have "\<forall>e \<in> set (es @ es'). on_line e" using t(2) u(2) by auto
  ultimately show ?thesis unfolding line_only_def by blast
qed

lemma line_only_io:
  "line_only s (outb COM1 c s)" "line_only s (snd (inb COM1 s))" "line_only s (snd (inb (COM1 + LSR) s))"
proof -
  show "line_only s (outb COM1 c s)"
    unfolding line_only_def by (rule exI [of _ "[Out 0x3f8 c]"], rule exI [of _ "reads s"]) (simp add: outb_def emit_def COM1_def)
  show "line_only s (snd (inb COM1 s))"
    unfolding line_only_def
    by (rule exI [of _ "[In 0x3f8 (env s 0x3f8 (reads s))]"], rule exI [of _ "Suc (reads s)"])
      (simp add: inb_def emit_def COM1_def Let_def)
  show "line_only s (snd (inb (COM1 + LSR) s))"
    unfolding line_only_def
    by (rule exI [of _ "[In 0x3fd (env s 0x3fd (reads s))]"], rule exI [of _ "Suc (reads s)"])
      (simp add: inb_def emit_def COM1_def Let_def)
qed

lemma poll_char_line:
  assumes "poll_char c b n s = Inr (d, b', n', s')" shows "line_only s s'"
proof -
  have o: "line_only s t \<Longrightarrow> line_only s (outb COM1 x t)" for t x using line_only_io(1) line_only_trans by blast
  show ?thesis using assms o [OF line_only_refl]
    by (auto simp: poll_char_def checked_simps Let_def split: if_splits intro!: o)
qed

lemma poll_loop_line_only:
  "poll_loop b len n s = Some r \<Longrightarrow> \<forall>k b' s'. r = Inr (k, b', s') \<longrightarrow> line_only s s'"
proof (rule poll_loop.raw_induct [rotated], assumption)
  fix f b len n r and s :: "'a serial_line_scheme"
  let ?s1 = "snd (inb (COM1 + LSR) s)" let ?s2 = "snd (inb COM1 ?s1)"
  assume IH: "\<And>b len n s r. f b len n s = Some r \<Longrightarrow> \<forall>k b' s'. r = Inr (k, b', s') \<longrightarrow> line_only s s'"
    and r: "(if n < len then let (lsr, s) = inb (COM1 + LSR) s
        in if lsr AND 1 \<noteq> 0 then let (c, s) = inb COM1 s
             in case poll_char c b n s of Inl e \<Rightarrow> Some (Inl e)
                | Inr (done, b, n, s) \<Rightarrow>
                    if done then Some (Inr (sint n, b, s))
                    else if n > len then Some (Inr (BUFFER_OVERFLOW, b, s)) else f b len n s
           else if n > len then Some (Inr (BUFFER_OVERFLOW, b, s)) else f b len n s
      else Some (Inr (sint n, b, s))) = Some r"
  have l: "line_only s ?s1" "line_only s ?s2" using line_only_io line_only_trans by blast+
  have c: "line_only s t" if "poll_char x b n ?s2 = Inr (d, b', n', t)" for x d b' n' t
    using poll_char_line [OF that] l(2) line_only_trans by blast
  show "\<forall>k b' s'. r = Inr (k, b', s') \<longrightarrow> line_only s s'"
    using r l(1) c by (auto simp: split_beta split: if_splits sum.splits dest!: IH intro: line_only_trans)
      (blast intro: line_only_trans)
qed

lemma serial_poll_line_only: "serial_poll dev b len s = Some (Inr (k, b', s')) \<Longrightarrow> line_only s s'"
  using poll_loop_line_only [of b len 0 s] by (simp add: serial_poll_def)

lemma feeds_cong: "env t = env s \<Longrightarrow> reads t = reads s \<Longrightarrow> feeds t xs = feeds s xs"
  by (simp add: feeds_def)

subsection \<open>Tokens\<close>

lemma token_delims: "delims (c_str [CHR 0x0A, CHR 0x0D, CHR 0x09, CHR '' '']) = {10, 13, 9, 32}"
  by (auto simp: c_str_def)

text \<open>A typed line without blanks is one token: the line without its return.\<close>

lemma first_token_line:
  assumes "take (length xs + 2) b = xs @ [e, 0]" "is_eol e" "xs \<noteq> []" "set xs \<inter> {0, 10, 13, 9, 32} = {}"
  shows "first_token b = Inr (Some (b[length xs := 0]), b[length xs := 0])"
    "cstring (b[length xs := 0]) = xs" "0 \<in> set (b[length xs := 0])"
proof -
  let ?D = "{10, 13, 9, 32} :: u8 set" and ?s2 = "c_str [CHR 0x0A, CHR 0x0D, CHR 0x09, CHR '' '']"
  let ?ys = "drop (length xs + 2) b"
  have b: "b = xs @ e # 0 # ?ys" using assms(1) append_take_drop_id [of "length xs + 2" b] by simp
  have e: "e \<noteq> 0" "e \<in> ?D" using assms(2) by (auto simp: is_eol_def)
  have n0: "0 \<notin> set (xs @ [e])" using assms(4) e by auto
  then have "cstring ((xs @ [e]) @ 0 # ?ys) = xs @ [e]" by (rule cstring_append_nul)
  then have cs: "cstring (drop 0 b) = xs @ [e]" using b by simp
  have nD: "x \<notin> ?D" if "x \<in> set xs" for x using that assms(4) by auto
  then have tw: "takeWhile (\<lambda>c. c \<in> ?D) (xs @ [e]) = []" "dropWhile (\<lambda>c. c \<in> ?D) (xs @ [e]) = xs @ [e]"
    using assms(3) by (cases xs; auto)+
  have tk: "takeWhile (\<lambda>c. c \<notin> ?D) (xs @ [e]) = xs" using nD e(2) by (intro takeWhile_append_stop) auto
  have nul: "0 \<in> set (drop 0 b)" by (subst b) simp
  have be: "b ! length xs = e" by (subst b) simp
  have "strtok b (Some 0) ?s2 None = Inr (Some 0, b[length xs := 0], Some (length xs + 1))"
    using strtok_eq [OF nul, of ?s2 "Some 0" None] assms(3) be e(1) unfolding token_delims cs tw tk by simp
  then show "first_token b = Inr (Some (b[length xs := 0]), b[length xs := 0])" by (simp add: first_token_def)
  have u: "b[length xs := 0] = xs @ 0 # 0 # ?ys" by (subst b) simp
  show "cstring (b[length xs := 0]) = xs" "0 \<in> set (b[length xs := 0])"
    unfolding u using n0 by simp_all
qed

subsection \<open>Two-digit numbers\<close>

definition two_digits :: "nat \<Rightarrow> bytes" where
  "two_digits n = [48 + of_nat (n div 10), 48 + of_nat (n mod 10)]"

definition bcd_text :: "u8 \<Rightarrow> bytes" where
  "bcd_text w = [(drop_bit 4 w AND 0x0F) + 48, (w AND 0x0F) + 48]"

definition bcd_value :: "u8 \<Rightarrow> u8" where
  "bcd_value w = (w AND 0x0F) + drop_bit 4 w * 10"

lemma below_100: "n < 100 \<Longrightarrow> n \<in> set [0..<100]"
  by simp

lemma bcd_all:
  "list_all (\<lambda>n. bcd_text (to_bcd (int n)) = two_digits n \<and> bcd_value (to_bcd (int n)) = of_nat n) [0..<100]"
  by code_simp

lemma bcd_text_to_bcd [simp]: "n < 100 \<Longrightarrow> bcd_text (to_bcd (int n)) = two_digits n"
  and bcd_value_to_bcd [simp]: "n < 100 \<Longrightarrow> bcd_value (to_bcd (int n)) = of_nat n"
  using bcd_all below_100 by (auto simp: list_all_iff simp del: set_upt)

lemma atoi_all: "list_all (\<lambda>n. atoi (two_digits n @ [0]) = Inr (int n)) [0..<100]"
  by code_simp

lemma atoi_two_digits [simp]: "n < 100 \<Longrightarrow> atoi (two_digits n @ [0]) = Inr (int n)"
  using atoi_all below_100 by (auto simp: list_all_iff simp del: set_upt)

lemma two_digits_all: "list_all (\<lambda>n. list_all (\<lambda>c. 48 \<le> c \<and> c \<le> 57) (two_digits n)) [0..<100]"
  by code_simp

lemma two_digits_range: "n < 100 \<Longrightarrow> c \<in> set (two_digits n) \<Longrightarrow> 48 \<le> c \<and> c \<le> 57"
  using two_digits_all below_100 by (auto simp: list_all_iff simp del: set_upt)

subsection \<open>The clock as the programs write it\<close>

text \<open>The selected register and the registers of the clock after a list of events.\<close>

fun rtc_replay :: "event list \<Rightarrow> u8 \<times> (u8 \<Rightarrow> u8) \<Rightarrow> u8 \<times> (u8 \<Rightarrow> u8)" where
  "rtc_replay [] r = r"
| "rtc_replay (Out p v # es) (sel, regs) =
     rtc_replay es (if p = 0x70 then (v, regs) else if p = 0x71 then (sel, regs(sel := v)) else (sel, regs))"
| "rtc_replay (_ # es) r = rtc_replay es r"

lemma rtc_replay_append: "rtc_replay (xs @ ys) r = rtc_replay ys (rtc_replay xs r)"
  by (induction xs r rule: rtc_replay.induct) auto

lemma rtc_replay_line: "\<forall>e \<in> set es. on_line e \<Longrightarrow> rtc_replay es r = r"
  by (induction es r rule: rtc_replay.induct) auto

lemma write_rtc_trace: "trace (write_rtc g v s) = trace s @ [Out 0x70 g, Out 0x71 v]"
  by (simp add: write_rtc_def)

lemma read_rtc_simps [simp]:
  "fst (read_rtc g s) = env s 0x71 (reads s)" "env (snd (read_rtc g s)) = env s"
  "reads (snd (read_rtc g s)) = Suc (reads s)"
  by (simp_all add: read_rtc_def)

text \<open>
  The answers in a list of events are those of the clock: what is read from the data port is the content of the
  register that was selected last, whoever selected it.
\<close>

fun clock_answers :: "event list \<Rightarrow> u8 \<times> (u8 \<Rightarrow> u8) \<Rightarrow> bool" where
  "clock_answers [] r = True"
| "clock_answers (e # es) r =
     ((case e of In p v \<Rightarrow> p = 0x71 \<longrightarrow> v = snd r (fst r) | _ \<Rightarrow> True) \<and> clock_answers es (rtc_replay [e] r))"

text \<open>Between two states of the machine the clock has answered, from the registers \<open>r\<close> on.\<close>

definition clock_answered :: "'a machine_scheme \<Rightarrow> 'a machine_scheme \<Rightarrow> u8 \<times> (u8 \<Rightarrow> u8) \<Rightarrow> bool" where
  "clock_answered s t r \<longleftrightarrow> (\<exists>es. trace t = trace s @ es \<and> clock_answers es r)"

lemma clock_answered_trace: "trace t = trace s @ es \<Longrightarrow> clock_answered s t r = clock_answers es r"
  by (simp add: clock_answered_def)

lemma read_rtc_trace: "trace (snd (read_rtc g s)) = trace s @ [Out 0x70 g, In 0x71 (env s 0x71 (reads s))]"
  by (simp add: read_rtc_def)

text \<open>Three reads in a row are of the registers selected.\<close>

lemma clock_answers_3:
  "clock_answers (Out 0x70 a # In 0x71 x # Out 0x70 b # In 0x71 y # Out 0x70 c # In 0x71 z # es) r \<Longrightarrow>
   x = snd r a \<and> y = snd r b \<and> z = snd r c"
  by (cases r) simp

subsection \<open>Dates\<close>

definition date_text :: "nat \<Rightarrow> nat \<Rightarrow> nat \<Rightarrow> bytes" where
  "date_text d m y = two_digits d @ 47 # two_digits m @ 47 # two_digits y"

lemma length_two_digits [simp]: "length (two_digits n) = 2"
  by (simp add: two_digits_def)

lemma length_date_text [simp]: "length (date_text d m y) = 8"
  by (simp add: date_text_def)

lemma parse_date_text:
  assumes "d < 100" "m < 100" "y < 100" "cstring t = date_text d m y" "0 \<in> set t"
  shows "parse_date t = Inr (Some (int d, int m, int y))"
proof -
  have l: "8 < length t" using cstring_length_less [OF assms(5)] assms(4) by simp
  have n: "t ! i = date_text d m y ! i" if "i < 8" for i
  proof -
    have "take 8 t = date_text d m y" using assms(4) takeWhile_eq_take [of "\<lambda>c. c \<noteq> 0" t] by (simp add: cstring_def)
    then show ?thesis using that by (metis nth_take)
  qed
  have c: "t ! 2 = 47" "t ! 5 = 47" using n [of 2] n [of 5] by (simp_all add: date_text_def two_digits_def)
  have "arr_get t 0 = Inr (t ! 0)" using l by (intro arr_get_in) linarith
  then have f: "two_chars t 0 1 = Inr (two_digits d @ [0])" "two_chars t 3 4 = Inr (two_digits m @ [0])"
    "two_chars t 6 7 = Inr (two_digits y @ [0])"
    using l n [of 0] n [of 1] n [of 3] n [of 4] n [of 6] n [of 7]
    by (simp_all add: two_chars_def date_text_def two_digits_def)
  show ?thesis using assms c f l by (simp add: parse_date_def)
qed

lemma edit_plain: "(\<And>c. c \<in> set xs \<Longrightarrow> \<not> is_bs c) \<Longrightarrow> edit line xs = line @ xs"
  by (induction xs arbitrary: line) auto

lemma edit_ok_plain:
  "(\<And>c. c \<in> set xs \<Longrightarrow> \<not> is_bs c \<and> \<not> is_eol c) \<Longrightarrow> length line + length xs + 1 < len \<Longrightarrow> edit_ok len line xs"
  by (induction xs arbitrary: line) auto

text \<open>A typed line of ordinary characters arrives in the buffer as it is.\<close>

lemma serial_poll_plain:
  assumes "\<And>c. c \<in> set xs \<Longrightarrow> \<not> is_bs c \<and> \<not> is_eol c" "is_eol e" "length xs + 1 < unat len"
    "unat len \<le> length b" "unat len < 2 ^ 31" "feeds s (xs @ [e])"
  obtains b' s' where "serial_poll dev b len s = Some (Inr (int (length xs) + 1, b', s'))"
    "length b' = length b" "take (length xs + 2) b' = xs @ [e, 0]" "line_only s s'"
proof -
  have "edit [] xs = xs" using edit_plain [of xs "[]"] assms(1) by auto
  moreover have "edit_ok (unat len) [] xs" using assms(1,3) by (intro edit_ok_plain) auto
  ultimately obtain b' s' where "serial_poll dev b len s = Some (Inr (int (length xs) + 1, b', s'))"
    "length b' = length b" "take (length xs + 2) b' = xs @ [e, 0]"
    using poll_loop_line [OF _ assms(2,4,5,6), of "[]" 0] by (auto simp: serial_poll_def)
  then show ?thesis using that serial_poll_line_only by blast
qed

lemma line_chars: "48 \<le> (c::u8) \<Longrightarrow> c \<le> 58 \<Longrightarrow> \<not> is_bs c \<and> \<not> is_eol c \<and> c \<noteq> 0 \<and> c \<noteq> 9 \<and> c \<noteq> 32"
  by (auto simp: is_bs_def is_eol_def word_le_nat_alt)

lemma date_chars:
  assumes "d < 100" "m < 100" "y < 100" "c \<in> set (date_text d m y)"
  shows "\<not> is_bs c \<and> \<not> is_eol c \<and> c \<notin> {0, 9, 10, 13, 32}"
proof (cases "c = 47")
  case False
  then have "48 \<le> c" "c \<le> 57" using assms two_digits_range by (auto simp: date_text_def)
  moreover have "c \<le> 58" using order_trans [OF calculation(2), of 58] by simp
  ultimately show ?thesis using line_chars [of c] by (auto simp: is_eol_def)
qed (simp add: is_bs_def is_eol_def)

subsection \<open>The commands\<close>

lemma emit_line_env [simp]: "env (emit e s) = env s" "reads (emit e s) = reads s"
  by simp_all

lemma line_only_trace:
  assumes "line_only s t" obtains es where "trace t = trace s @ es" "\<forall>e \<in> set es. on_line e"
  using assms by (auto simp: line_only_def)

lemma set_date_writes:
  assumes dmy: "1 \<le> d" "d \<le> 31" "1 \<le> m" "m \<le> 12" "y \<le> 99" and buf: "length buf = 12" and e: "is_eol e"
    and f: "feeds s (date_text d m y @ [e])"
  shows "\<exists>s' es. set_date console buf s = Some (Inr s') \<and> trace s' = trace s @ es \<and>
    (\<forall>r. snd (rtc_replay es r) = (snd r)(7 := to_bcd (int d), 8 := to_bcd (int m), 9 := to_bcd (int y)))"
proof -
  let ?xs = "date_text d m y" and ?p = "NL # ''Enter date (DD/MM/YY): ''"
  let ?s1 = "emit (Request WRITE COM1 (map of_char ?p)) (cli s)"
  have lt: "d < 100" "m < 100" "y < 100" using dmy by simp_all
  note ch = date_chars [OF lt]
  have f1: "feeds ?s1 (?xs @ [e])" using f by (subst feeds_cong [of _ s]) simp_all
  obtain b s2 where "serial_poll COM1 buf 12 ?s1 = Some (Inr (int (length ?xs) + 1, b, s2))" "length b = length buf"
    "take (length ?xs + 2) b = ?xs @ [e, 0]" "line_only ?s1 s2"
    by (rule serial_poll_plain [OF _ e _ _ _ f1, of 12 buf COM1]) (use ch buf in auto)
  then have p: "serial_poll COM1 buf 12 ?s1 = Some (Inr (9, b, s2))" "length b = 12" "take 10 b = ?xs @ [e, 0]"
    "line_only ?s1 s2" using buf by simp_all
  have b9: "b ! 9 = 0" "take 10 (b[9 := 0]) = ?xs @ [e, 0]"
  proof -
    have "take 10 b ! 9 = 0" unfolding p(3) by (simp add: nth_append)
    then show "b ! 9 = 0" by simp
    then show "take 10 (b[9 := 0]) = ?xs @ [e, 0]" using p(3) by (metis list_update_id)
  qed
  have ne: "?xs \<noteq> []" using length_date_text [of d m y] by force
  let ?t = "b[9 := 0, 8 := 0]"
  have tok: "first_token (b[9 := 0]) = Inr (Some ?t, ?t)" "cstring ?t = ?xs" "0 \<in> set ?t"
    using first_token_line [of ?xs "b[9 := 0]" e] b9(2) e ne ch by auto
  have pd: "parse_date ?t = Inr (Some (int d, int m, int y))" using parse_date_text [OF lt tok(2,3)] .
  let ?s3 = "write_rtc YEAR (to_bcd (int y)) (write_rtc MONTH (to_bcd (int m)) (write_rtc DAY (to_bcd (int d)) s2))"
  let ?s4 = "emit (Request WRITE COM1 (map of_char (NL # ''Date set successfully. '' @ [NL]))) (sti ?s3)"
  have run: "set_date console buf s = Some (Inr ?s4)"
    using p(1,2) tok(1) pd dmy by (simp add: set_date_def Let_def)
  obtain es where es: "trace s2 = trace ?s1 @ es" "\<forall>e \<in> set es. on_line e" using p(4) by (rule line_only_trace)
  let ?es = "[Cli, Request WRITE COM1 (map of_char ?p)] @ es @ [Out 0x70 7, Out 0x71 (to_bcd (int d)), Out 0x70 8,
      Out 0x71 (to_bcd (int m)), Out 0x70 9, Out 0x71 (to_bcd (int y)), Sti,
      Request WRITE COM1 (map of_char (NL # ''Date set successfully. '' @ [NL]))]"
  have "trace ?s4 = trace s @ ?es" using es(1) by (simp add: write_rtc_trace)
  moreover have "snd (rtc_replay ?es r) = (snd r)(7 := to_bcd (int d), 8 := to_bcd (int m), 9 := to_bcd (int y))" for r
    by (cases r) (simp add: rtc_replay_append rtc_replay_line [OF es(2)])
  ultimately show ?thesis using run by blast
qed

lemma bcd_text_nonzero: "0 \<notin> set (bcd_text w)"
proof -
  have "(x AND 0x0F) + 48 \<noteq> (0 :: u8)" for x
  proof -
    have "(x AND 0x0F) \<le> 0x0F" by (rule word_and_le1)
    then have "unat (x AND 0x0F) \<le> 15" by (simp add: word_le_nat_alt)
    then have "unat ((x AND 0x0F) + 48) = unat (x AND 0x0F) + 48" by (subst unat_add_lem [THEN iffD1]) simp_all
    then show ?thesis by (metis add_is_0 unat_0 numeral_neq_zero)
  qed
  then show ?thesis by (auto simp: bcd_text_def dest: sym)
qed

text \<open>\<open>get_date\<close> on any machine: it reads three bytes and shows their digits.\<close>

lemma get_date_events:
  fixes s :: "'a kern_scheme"
  defines "x \<equiv> env s 0x71 (reads s)" and "y \<equiv> env s 0x71 (Suc (reads s))" and "z \<equiv> env s 0x71 (Suc (Suc (reads s)))"
  shows "\<exists>s'. get_date console s = Some (Inr s') \<and>
    trace s' = trace s @ [Out 0x70 7, In 0x71 x, Out 0x70 8, In 0x71 y, Out 0x70 9, In 0x71 z,
      Request WRITE COM1 (10 # bcd_text x @ 47 # bcd_text y @ 47 # bcd_text z @ [10])]"
proof -
  let ?t = "10 # bcd_text x @ 47 # bcd_text y @ 47 # bcd_text z @ [10]"
  let ?s3 = "snd (read_rtc YEAR (snd (read_rtc MONTH (snd (read_rtc DAY s)))))"
  have n0: "0 \<notin> set ?t" using bcd_text_nonzero by simp
  have "get_date console s = say_str console (?t @ [0]) ?s3"
    by (simp add: get_date_def Let_def split_beta bcd_text_def x_def y_def z_def)
  moreover have "cstring (?t @ [0]) = ?t" using cstring_append_nul [OF n0, of "[]"] by simp
  moreover have "0 \<in> set (?t @ [0])" "length (?t @ [0]) < 2 ^ 32" by (simp_all add: bcd_text_def)
  ultimately have "get_date console s = Some (Inr (emit (Request WRITE COM1 ?t) ?s3))" by (metis console_say_str)
  then show ?thesis by (simp add: read_rtc_trace x_def y_def z_def)
qed

lemma get_date_shows:
  assumes "d < 100" "m < 100" "y < 100"
  shows "\<exists>s'. get_date console s = Some (Inr s') \<and>
    (clock_answered s s' (sel, regs(7 := to_bcd (int d), 8 := to_bcd (int m), 9 := to_bcd (int y))) \<longrightarrow>
       last (trace s') = Request WRITE COM1 (10 # date_text d m y @ [10]))"
proof -
  obtain s' where s': "get_date console s = Some (Inr s')"
    "trace s' = trace s @ [Out 0x70 7, In 0x71 (env s 0x71 (reads s)), Out 0x70 8, In 0x71 (env s 0x71 (Suc (reads s))),
      Out 0x70 9, In 0x71 (env s 0x71 (Suc (Suc (reads s)))),
      Request WRITE COM1 (10 # bcd_text (env s 0x71 (reads s)) @ 47 # bcd_text (env s 0x71 (Suc (reads s))) @
        47 # bcd_text (env s 0x71 (Suc (Suc (reads s)))) @ [10])]" using get_date_events [of s] by blast
  then show ?thesis using assms by (auto simp: clock_answered_trace [OF s'(2)] date_text_def dest!: clock_answers_3)
qed

text \<open>What the hour looks like after the shift by four hours in a \<open>uint8_t\<close>.\<close>

definition hour_text :: "nat \<Rightarrow> bytes" where
  "hour_text h = (if 4 \<le> h then two_digits (h - 4) else [73, 48 + of_nat ((252 + h) mod 10)])"

lemma hour_all:
  "list_all (\<lambda>h. [48 + (of_nat h - 4 :: u8) div 10, 48 + (of_nat h - 4 :: u8) mod 10] = hour_text h \<and>
     list_all (\<lambda>c. c \<noteq> 0) (hour_text h)) [0..<24]"
  by code_simp

lemma digits_all: "list_all (\<lambda>n. [48 + (of_nat n :: u8) div 10, 48 + (of_nat n :: u8) mod 10] = two_digits n) [0..<100]"
  by code_simp

lemma hour_text_eq:
  assumes "h < 24"
  shows "[48 + (of_nat h - 4 :: u8) div 10, 48 + (of_nat h - 4 :: u8) mod 10] = hour_text h" "0 \<notin> set (hour_text h)"
proof -
  have "h \<in> set [0..<24]" using assms by simp
  then show "[48 + (of_nat h - 4 :: u8) div 10, 48 + (of_nat h - 4 :: u8) mod 10] = hour_text h" "0 \<notin> set (hour_text h)"
    using hour_all by (auto simp: list_all_iff simp del: set_upt)
qed

lemma digits_eq: "n < 100 \<Longrightarrow> [48 + (of_nat n :: u8) div 10, 48 + (of_nat n :: u8) mod 10] = two_digits n"
  using digits_all below_100 by (auto simp: list_all_iff simp del: set_upt)

definition after_clock :: "'a kern_scheme \<Rightarrow> 'a kern_scheme" where
  "after_clock s = snd (read_rtc SECONDS (snd (read_rtc MINUTES (snd (read_rtc HOURS s)))))"

lemma after_clock_trace:
  "trace (after_clock s) = trace s @ [Out 0x70 4, In 0x71 (env s 0x71 (reads s)), Out 0x70 2, In 0x71 (env s 0x71 (Suc (reads s))),
     Out 0x70 0, In 0x71 (env s 0x71 (Suc (Suc (reads s))))]"
  by (simp add: after_clock_def read_rtc_trace)

lemma get_time_shows:
  assumes a: "clock_answered s (after_clock s) r" "snd r 4 = to_bcd (int h)" "snd r 2 = to_bcd (int m)" "snd r 0 = to_bcd (int sc)"
    and l: "h < 24" "m < 60" "sc < 60"
    and p: "sys_alloc_mem 12 (after_clock s) = Some (Inr (p, s1))" "p \<noteq> NULL" "length (bufs s1 p) < 2 ^ 31"
  shows "\<exists>s'. get_time console s = Some (Inr (p, s')) \<and>
    last (trace s') = Request WRITE COM1 (10 # hour_text h @ 58 # two_digits m @ 58 # two_digits sc @ [10]) \<and>
    cstring (bufs s' p) = 10 # hour_text h @ 58 # two_digits m @ 58 # two_digits sc @ [10]"
proof -
  let ?t = "10 # hour_text h @ 58 # two_digits m @ 58 # two_digits sc @ [10]"
  let ?b = "?t @ 0 # drop 11 (bufs s1 p)"
  let ?r1 = "snd (read_rtc HOURS s)" let ?r2 = "snd (read_rtc MINUTES ?r1)"
  have rd: "fst (read_rtc HOURS s) = to_bcd (int h)" "fst (read_rtc MINUTES ?r1) = to_bcd (int m)"
    "fst (read_rtc SECONDS ?r2) = to_bcd (int sc)"
  proof -
    note a(1) [unfolded clock_answered_trace [OF after_clock_trace]]
    from clock_answers_3 [OF this] show "fst (read_rtc HOURS s) = to_bcd (int h)" "fst (read_rtc MINUTES ?r1) = to_bcd (int m)"
      "fst (read_rtc SECONDS ?r2) = to_bcd (int sc)" using a(2-4) by simp_all
  qed
  have v: "(to_bcd (int n) AND 15) + drop_bit 4 (to_bcd (int n)) * 10 = of_nat n" if "n < 100" for n
    using bcd_value_to_bcd [OF that] by (simp add: bcd_value_def)
  have lt: "h < 100" "m < 100" "sc < 100" using l by simp_all
  have b: "10 # (48 + (of_nat h - 4 :: u8) div 10) # (48 + (of_nat h - 4) mod 10) # 58 # (48 + of_nat m div 10) #
      (48 + of_nat m mod 10) # 58 # (48 + of_nat sc div 10) # (48 + of_nat sc mod 10) # 10 # 0 # drop 11 (bufs s1 p) = ?b"
    using hour_text_eq(1) [OF l(1)] digits_eq [OF lt(2)] digits_eq [OF lt(3)]
    by (metis append.simps(1,2))
  let ?s2 = "s1\<lparr>bufs := (bufs s1)(p := ?b)\<rparr>"
  have "get_time console s = run_then (say_str console ?b ?s2) (\<lambda>s. Some (Inr (p, s)))"
    using p(1,2) rd unfolding b [symmetric] get_time_def
    by (simp add: Let_def split_beta after_clock_def v [OF lt(1)] v [OF lt(2)] v [OF lt(3)])
  moreover have n0: "0 \<notin> set ?t"
    using hour_text_eq(2) [OF l(1)] two_digits_range [OF lt(2), of 0] two_digits_range [OF lt(3), of 0] by auto
  moreover have cs: "cstring ?b = ?t" using cstring_append_nul [OF n0] by simp
  moreover have "length ?b < 2 ^ 32" using p(3) by (simp add: hour_text_def)
  moreover have "0 \<in> set ?b" by simp
  ultimately have "get_time console s = Some (Inr (p, emit (Request WRITE COM1 ?t) ?s2))"
    by (metis console_say_str run_then.simps(3))
  then show ?thesis using cs by (simp add: emit_def)
qed

lemma atoi_one_all: "list_all (\<lambda>k. atoi [48 + of_nat k, 0, 0] = Inr (int k)) [0..<10]"
  by code_simp

lemma atoi_one: "k < 10 \<Longrightarrow> atoi [48 + of_nat k, 0, c] = Inr (int k)"
proof -
  assume "k < 10"
  then have "k \<in> set [0..<10]" by simp
  then have "atoi [48 + of_nat k, 0, 0] = Inr (int k)" using atoi_one_all by (auto simp: list_all_iff simp del: set_upt)
  then show ?thesis by (auto simp: atoi_def split: if_splits)
qed

definition time_text :: "nat \<Rightarrow> nat \<Rightarrow> nat \<Rightarrow> bytes" where
  "time_text h m sc = two_digits h @ 58 # two_digits m @ 58 # two_digits sc"

lemma time_fields_text:
  assumes "h < 100" "m < 100" "sc < 100" "take 8 b = time_text h m sc" "8 \<le> length b"
  shows "time_fields b [a, 0, c] = Inr (int h, int (10 * (m div 10) + sc mod 10), int (sc div 10))"
proof -
  let ?q = "10 * (m div 10) + sc mod 10"
  have n: "b ! i = time_text h m sc ! i" if "i < 8" for i using assms(4) that by (metis nth_take)
  have q: "?q < 100" "?q div 10 = m div 10" "?q mod 10 = sc mod 10"
  proof -
    have "m div 10 < 10" "sc mod 10 < 10" using assms(2) by simp_all
    then show "?q < 100" by linarith
  qed auto
  have a0: "arr_get b 0 = Inr (b ! 0)" using assms(5) by (intro arr_get_in) linarith
  have f: "[b ! 0, b ! 1, 0] = two_digits h @ [0]" "[b ! 3, b ! 7, 0] = two_digits ?q @ [0]" "b ! 6 = 48 + of_nat (sc div 10)"
    using n [of 0] n [of 1] n [of 3] n [of 6] n [of 7] q by (simp_all add: time_text_def two_digits_def)
  have v: "atoi [b ! 0, b ! 1, 0] = Inr (int h)" "atoi [b ! 3, b ! 7, 0] = Inr (int ?q)"
    unfolding f using assms(1) q(1) by (simp_all only: atoi_two_digits)
  have w: "atoi [b ! 6, 0, c] = Inr (int (sc div 10))" unfolding f(3) using assms(3) by (intro atoi_one) simp
  show ?thesis using assms(5) a0 v w by (simp add: time_fields_def two_chars_def)
qed

lemma time_chars:
  assumes "h < 100" "m < 100" "sc < 100" "c \<in> set (time_text h m sc)"
  shows "\<not> is_bs c \<and> \<not> is_eol c \<and> c \<notin> {0, 9, 10, 13, 32}"
proof -
  have "48 \<le> c \<and> c \<le> 58"
  proof (cases "c = 58")
    case False
    then have "48 \<le> c" "c \<le> 57" using assms two_digits_range by (auto simp: time_text_def)
    then show ?thesis using order_trans [of c 57 58] by simp
  qed simp
  then show ?thesis using line_chars [of c] by (auto simp: is_eol_def)
qed

lemma length_time_text [simp]: "length (time_text h m sc) = 8"
  by (simp add: time_text_def)

lemma set_time_writes:
  assumes t: "h \<le> 23" "m \<le> 59" "sc \<le> 59" and buf: "length buf = 20" and e: "is_eol e"
    and f: "feeds s (time_text h m sc @ [e])"
  shows "\<exists>s' es. set_time console buf [a, 0, c] s = Some (Inr s') \<and> trace s' = trace s @ es \<and>
    (\<forall>r. snd (rtc_replay es r) =
       (snd r)(4 := of_nat h, 2 := of_nat (10 * (m div 10) + sc mod 10), 0 := of_nat (sc div 10)))"
proof -
  let ?xs = "time_text h m sc" and ?p = "NL # ''Enter time (HH:MM:SS):''" and ?q = "10 * (m div 10) + sc mod 10"
  let ?s1 = "emit (Request WRITE COM1 (map of_char ?p)) s"
  have lt: "h < 100" "m < 100" "sc < 100" using t by simp_all
  note ch = time_chars [OF lt]
  have f1: "feeds ?s1 (?xs @ [e])" using f by (subst feeds_cong [of _ s]) simp_all
  obtain b s2 where "serial_poll COM1 buf 20 ?s1 = Some (Inr (int (length ?xs) + 1, b, s2))" "length b = length buf"
    "take (length ?xs + 2) b = ?xs @ [e, 0]" "line_only ?s1 s2"
    by (rule serial_poll_plain [OF _ e _ _ _ f1, of 20 buf COM1]) (use ch buf in auto)
  then have p: "serial_poll COM1 buf 20 ?s1 = Some (Inr (9, b, s2))" "length b = 20" "take 10 b = ?xs @ [e, 0]"
    "line_only ?s1 s2" using buf by simp_all
  have "take 8 b = take 8 (take 10 b)" by simp
  then have "take 8 b = ?xs" unfolding p(3) by simp
  then have tf: "time_fields b [a, 0, c] = Inr (int h, int ?q, int (sc div 10))" using time_fields_text [OF lt, of b a c] p(2) by simp
  have "m div 10 \<le> 5" "sc mod 10 \<le> 9" using t(2) by simp_all
  then have q: "?q \<le> 59" by linarith
  have ok: "\<not> time_invalid (int h, int ?q, int (sc div 10))" using t q by (simp add: time_invalid_def)
  let ?s3 = "write_rtc SECONDS (of_nat (sc div 10)) (write_rtc MINUTES (of_nat ?q) (write_rtc HOURS (of_nat h) (cli s2)))"
  let ?s4 = "emit (Request WRITE COM1 (map of_char (NL # ''Time set successfully. '' @ [NL]))) (sti ?s3)"
  have sy: "write_bytes console (c_str (NL # ''Enter time (HH:MM:SS): '')) (length (NL # ''Enter time (HH:MMSs): '')) s = Some (Inr ?s1)"
    by (simp add: c_str_def)
  have run: "set_time console buf [a, 0, c] s = Some (Inr ?s4)"
    unfolding set_time_def sy using p(1) tf ok by (simp add: Let_def del: of_nat_add of_nat_mult)
  obtain es where es: "trace s2 = trace ?s1 @ es" "\<forall>e \<in> set es. on_line e" using p(4) by (rule line_only_trace)
  let ?es = "[Request WRITE COM1 (map of_char ?p)] @ es @ [Cli, Out 0x70 4, Out 0x71 (of_nat h), Out 0x70 2,
      Out 0x71 (of_nat ?q), Out 0x70 0, Out 0x71 (of_nat (sc div 10)), Sti,
      Request WRITE COM1 (map of_char (NL # ''Time set successfully. '' @ [NL]))]"
  have "trace ?s4 = trace s @ ?es" using es(1) by (simp add: write_rtc_trace del: of_nat_add of_nat_mult)
  moreover have "snd (rtc_replay ?es r) = (snd r)(4 := of_nat h, 2 := of_nat ?q, 0 := of_nat (sc div 10))" for r
    by (cases r) (simp add: rtc_replay_append rtc_replay_line [OF es(2)] del: of_nat_add of_nat_mult)
  ultimately show ?thesis using run by blast
qed

section \<open>Properties\<close>

text \<open>A kernel whose user types \<open>xs\<close>.\<close>

definition keyboard :: "bytes \<Rightarrow> kern" where
  "keyboard xs = (kern_demo 1)\<lparr>env := env (typing xs)\<rparr>"

lemma keyboard_feeds: "feeds (keyboard xs) xs"
proof -
  have "reads (keyboard xs) = 0" "env (keyboard xs) = env (typing xs)"
    by (simp_all add: keyboard_def kern_demo_def driver.extend_def write_demo_def driver_at_def)
  then show ?thesis using typing_feeds [of xs] by (simp add: feeds_def typing_def)
qed

text \<open>
  C17. Setting the date and reading it back: when the user types a valid date, \<open>set_date\<close> stores it in
  the day, month and year registers of the clock and in no other. And \<open>get_date\<close>, on any machine, returns,
  and if every byte it reads from the data port is the content of the register it has selected, in a clock with the
  registers as \<open>set_date\<close> left them, it displays exactly the text that was typed.
\<close>

theorem set_date_get_date:
  assumes "1 \<le> d" "d \<le> 31" "1 \<le> m" "m \<le> 12" "y \<le> 99" "length buf = 12" "is_eol e"
    and "feeds s (date_text d m y @ [e])"
  shows "\<exists>s' es. set_date console buf s = Some (Inr s') \<and> trace s' = trace s @ es \<and>
    (\<forall>r g. g \<notin> {7, 8, 9} \<longrightarrow> snd (rtc_replay es r) g = snd r g) \<and>
    (\<forall>r t. \<exists>t'. get_date console t = Some (Inr t') \<and>
       (clock_answered t t' (rtc_replay es r) \<longrightarrow> last (trace t') = Request WRITE COM1 (10 # date_text d m y @ [10])))"
proof -
  obtain s' es where s': "set_date console buf s = Some (Inr s')" "trace s' = trace s @ es"
    "\<And>r. snd (rtc_replay es r) = (snd r)(7 := to_bcd (int d), 8 := to_bcd (int m), 9 := to_bcd (int y))"
    using set_date_writes [OF assms] by blast
  have l: "d < 100" "m < 100" "y < 100" using assms(1-5) by simp_all
  have "rtc_replay es r = (fst (rtc_replay es r), (snd r)(7 := to_bcd (int d), 8 := to_bcd (int m), 9 := to_bcd (int y)))" for r
    using s'(3) [of r] by (metis prod.collapse)
  then have "\<exists>t'. get_date console t = Some (Inr t') \<and>
      (clock_answered t t' (rtc_replay es r) \<longrightarrow> last (trace t') = Request WRITE COM1 (10 # date_text d m y @ [10]))" for r t
    using get_date_shows [OF l, of t "fst (rtc_replay es r)" "snd r"] by simp
  moreover have "\<forall>r g. g \<notin> {7, 8, 9} \<longrightarrow> snd (rtc_replay es r) g = snd r g" using s'(3) by simp
  ultimately show ?thesis using s'(1,2) by blast
qed

theorem set_date_get_date_witness:
  "(\<exists>s' es. set_date console (replicate 12 0) (keyboard (date_text 24 12 23 @ [13])) = Some (Inr s') \<and>
     trace s' = trace (keyboard (date_text 24 12 23 @ [13])) @ es \<and> snd (rtc_replay es (0, \<lambda>_. 5)) 4 = 5) \<and>
   (\<exists>t'. get_date console ((kern_demo 1)\<lparr>env := (\<lambda>_ k. [0x24, 0x12, 0x23] ! k)\<rparr>) = Some (Inr t') \<and>
     last (trace t') = Request WRITE COM1 (10 # date_text 24 12 23 @ [10]))"
proof -
  let ?k = "keyboard (date_text 24 12 23 @ [13])" and ?t = "(kern_demo 1)\<lparr>env := (\<lambda>_ k. [0x24, 0x12, 0x23] ! k)\<rparr>"
  have n: "(1 :: nat) \<le> 24" "(24 :: nat) \<le> 31" "(1 :: nat) \<le> 12" "(12 :: nat) \<le> 12" "(23 :: nat) \<le> 99"
    "length (replicate 12 (0 :: u8)) = 12" "is_eol 13" by (simp_all add: is_eol_def)
  obtain s' es where s': "set_date console (replicate 12 0) ?k = Some (Inr s')" "trace s' = trace ?k @ es"
    "\<And>r g. g \<notin> {7, 8, 9} \<Longrightarrow> snd (rtc_replay es r) g = snd r g"
    "\<And>r (t :: kern). \<exists>t'. get_date console t = Some (Inr t') \<and>
       (clock_answered t t' (rtc_replay es r) \<longrightarrow> last (trace t') = Request WRITE COM1 (10 # date_text 24 12 23 @ [10]))"
    using set_date_get_date [OF n keyboard_feeds] by blast
  have four: "snd (rtc_replay es (0, \<lambda>_. 5)) 4 = 5" using s'(3) [of 4] by simp
  obtain u fs where u: "trace u = trace ?k @ fs" "set_date console (replicate 12 0) ?k = Some (Inr u)"
    "\<And>r. snd (rtc_replay fs r) = (snd r)(7 := to_bcd (int 24), 8 := to_bcd (int 12), 9 := to_bcd (int 23))"
    using set_date_writes [OF n keyboard_feeds] by blast
  have b: "to_bcd (int 24) = 0x24" "to_bcd (int 12) = 0x12" "to_bcd (int 23) = 0x23" by code_simp+
  have "fs = es" using s'(1,2) u(1,2) by simp
  then have regs: "snd (rtc_replay es (0, \<lambda>_. 5)) = (\<lambda>_. 5)(7 := 0x24, 8 := 0x12, 9 := 0x23)" using u(3) unfolding b by simp
  obtain t' where t': "get_date console ?t = Some (Inr t')"
    "clock_answered ?t t' (rtc_replay es (0, \<lambda>_. 5)) \<longrightarrow> last (trace t') = Request WRITE COM1 (10 # date_text 24 12 23 @ [10])"
    using s'(4) by blast
  have r: "reads (kern_demo 1) = 0" by (simp add: kern_demo_def driver.extend_def write_demo_def driver_at_def)
  obtain v where v: "get_date console ?t = Some (Inr v)" "trace v = trace ?t @
      [Out 0x70 7, In 0x71 0x24, Out 0x70 8, In 0x71 0x12, Out 0x70 9, In 0x71 0x23,
       Request WRITE COM1 (10 # bcd_text 0x24 @ 47 # bcd_text 0x12 @ 47 # bcd_text 0x23 @ [10])]"
    using get_date_events [of ?t] r by auto
  have "v = t'" using v(1) t'(1) by simp
  moreover have "clock_answered ?t v (rtc_replay es (0, \<lambda>_. 5))"
    unfolding clock_answered_trace [OF v(2)] using regs by (cases "rtc_replay es (0, \<lambda>_. 5)") simp
  ultimately show ?thesis using s'(1,2) four t' by blast
qed

text \<open>
  \<open>get_time\<close> shows the clock's minutes and seconds and its hour less four, but for the first
  four hours of the day it shows the letter I and a digit in place of the hour: the difference is
  an unsigned byte, the test for a negative hour is never true.
\<close>

theorem get_time_display:
  assumes "clock_answered s (after_clock s) r" "snd r 4 = to_bcd (int h)" "snd r 2 = to_bcd (int m)" "snd r 0 = to_bcd (int sc)"
    and "h < 24" "m < 60" "sc < 60"
    and "sys_alloc_mem 12 (after_clock s) = Some (Inr (p, s1))" "p \<noteq> NULL" "length (bufs s1 p) < 2 ^ 31"
  shows "\<exists>s'. get_time console s = Some (Inr (p, s')) \<and>
    last (trace s') = Request WRITE COM1
      (10 # (if 4 \<le> h then two_digits (h - 4) else [asc CHR ''I'', 48 + of_nat ((252 + h) mod 10)]) @
       58 # two_digits m @ 58 # two_digits sc @ [10])"
proof -
  have "(if 4 \<le> h then two_digits (h - 4) else [asc CHR ''I'', 48 + of_nat ((252 + h) mod 10)]) = hour_text h"
    by (simp add: hour_text_def)
  then show ?thesis using get_time_shows [OF assms] by (simp only:) blast
qed

theorem get_time_display_witness:
  "\<exists>s'. get_time console ((kern_demo 1)\<lparr>env := (\<lambda>_ k. if k = 1 then 0x15 else 0x02)\<rparr>) = Some (Inr (0x1004, s')) \<and>
     last (trace s') = Request WRITE COM1 (map of_char ([NL] @ ''I4:15:02'' @ [NL]))"
proof -
  let ?s = "(kern_demo 1)\<lparr>env := (\<lambda>_ k. if k = 1 then 0x15 else 0x02)\<rparr>"
  have r: "reads (kern_demo 1) = 0" by (simp add: kern_demo_def driver.extend_def write_demo_def driver_at_def)
  have b: "to_bcd (int 2) = 0x02" "to_bcd (int 15) = 0x15" by code_simp+
  let ?r = "(0, (\<lambda>g. if g = 2 then 0x15 else 0x02)) :: u8 \<times> (u8 \<Rightarrow> u8)"
  have "clock_answered ?s (after_clock ?s) ?r"
    unfolding clock_answered_trace [OF after_clock_trace] by (simp add: r)
  moreover have "snd ?r 4 = to_bcd (int 2)" "snd ?r 2 = to_bcd (int 15)" "snd ?r 0 = to_bcd (int 2)" unfolding b by simp_all
  ultimately have a: "clock_answered ?s (after_clock ?s) ?r" "snd ?r 4 = to_bcd (int 2)" "snd ?r 2 = to_bcd (int 15)"
    "snd ?r 0 = to_bcd (int 2)" by blast+
  have h: "heap_blocks (after_clock ?s) [(5000, True)]" "memlist (after_clock ?s) = 0x1000"
      "malloc_function (after_clock ?s) = Some Allocate_Memory" "bufs (after_clock ?s) = (\<lambda>_. [104, 105, 33])"
    by (simp_all add: after_clock_def read_rtc_def outb_def inb_def emit_def Let_def heap_blocks_def hdr_def kern_demo_simps)
  obtain s1 where al: "allocate_memory 12 (after_clock ?s) = Some (Inr (0x1004, s1))"
    using allocate_memory_refines [OF h(1), of 12] h(2) by (auto simp: roundup_def)
  have fr: "s1 = (after_clock ?s)\<lparr>mcbs := mcbs s1\<rparr>"
    by (rule allocate_memory_frame [OF _ al]) (use h(1) in \<open>auto simp: heap_ok_def\<close>)
  have "bufs s1 = bufs (after_clock ?s)" using arg_cong [OF fr, of bufs] by simp
  then have "length (bufs s1 0x1004) < 2 ^ 31" using h(4) by simp
  moreover have "sys_alloc_mem 12 (after_clock ?s) = Some (Inr (0x1004, s1))" using al h(3) by (simp add: sys_alloc_mem_def)
  ultimately show ?thesis
    using get_time_display [OF a, of "0x1004" s1] by (auto simp: two_digits_def)
qed

text \<open>
  C39. \<open>set_time\<close> does not set the time that was typed: it stores binary numbers where the clock and
  \<open>get_time\<close> use BCD, the units of the minutes are overwritten by the units of the seconds, and
  the seconds get the tens digit of the seconds (when the uninitialised second character of
  \<open>seconds\<close> happens to be NUL).
\<close>

theorem set_time_scrambles:
  assumes "h \<le> 23" "m \<le> 59" "sc \<le> 59" "length buf = 20" "is_eol e" "feeds s (time_text h m sc @ [e])"
  shows "\<exists>s' es. set_time console buf [a, 0, c] s = Some (Inr s') \<and> trace s' = trace s @ es \<and>
    (\<forall>r. snd (rtc_replay es r) =
       (snd r)(4 := of_nat h, 2 := of_nat (10 * (m div 10) + sc mod 10), 0 := of_nat (sc div 10)))"
  using set_time_writes [OF assms] .

theorem set_time_scrambles_witness:
  "\<exists>s' es. set_time console (replicate 20 0) [0, 0, 0] (keyboard (time_text 12 34 56 @ [13])) = Some (Inr s') \<and>
     trace s' = trace (keyboard (time_text 12 34 56 @ [13])) @ es \<and>
     snd (rtc_replay es (0, \<lambda>_. 0)) 4 = 12 \<and> snd (rtc_replay es (0, \<lambda>_. 0)) 2 = 36 \<and> snd (rtc_replay es (0, \<lambda>_. 0)) 0 = 5"
  using set_time_scrambles [of 12 34 56 "replicate 20 0" 13 "keyboard (time_text 12 34 56 @ [13])" 0 0]
    keyboard_feeds [of "time_text 12 34 56 @ [13]"]
  by (auto simp: is_eol_def)

end
