(* ===== verification/Process_Commands.thy ===== *)
theory Process_Commands
  imports Clock_Commands
begin

text \<open>
  The commands of \<open>src/user/commhand.c\<close> that work on processes: \<open>delete_pcb\<close>, \<open>suspend_pcb\<close>,
  \<open>resume_pcb\<close>, \<open>set_pcb_priority\<close>, \<open>show_pcb\<close>, \<open>show_ready\<close>, \<open>show_all\<close>, \<open>load_r3\<close> and \<open>alarm\<close>.

  The commands run as a process: they take the trap of \<open>Sys_Req\<close>, and between two requests they work on the
  process table directly. A local buffer that is cleared with \<open>memset\<close> before its first use starts as
  zeros; one that is not is an argument. The address of the code of a process is the argument
  \<open>entry\<close>.
\<close>

section \<open>Model\<close>

abbreviation (input) SUSPEND_STATE :: int where "SUSPEND_STATE \<equiv> 2"

subsection \<open>Asking for a process\<close>

text \<open>Prompt, cleared buffer of 20 bytes, \<open>serial_poll\<close>, \<open>strtok\<close>: the token and the buffer it points into.\<close>

definition ask_token ::
  "'a kern_scheme trap \<Rightarrow> string \<Rightarrow> 'a kern_scheme \<Rightarrow> (bytes option \<times> bytes \<times> 'a kern_scheme) checked option" where
  "ask_token trap prompt s =
     run_then (say_nul trap prompt s) (\<lambda>s.
     run_then (serial_poll COM1 (replicate 20 0) 20 s) (\<lambda>(_, buf, s).
     run_then (Some (first_token buf)) (\<lambda>(tok, buf). Some (Inr (tok, buf, s)))))"

definition name_prompt :: string where
  "name_prompt = ''Please enter the name of the PCB: ''"

text \<open>\<open>name == NULL || strlen(name) < MIN_NAME_LEN || strlen(name) > MAX_NAME_LEN\<close>\<close>

definition invalid_name :: "bytes option \<Rightarrow> bool checked" where
  "invalid_name nm =
     (case nm of None \<Rightarrow> Inr True
      | Some nm \<Rightarrow> and_then (strlen nm) (\<lambda>n. Inr (n < MIN_NAME_LEN \<or> n > MAX_NAME_LEN)))"

text \<open>\<open>pcb_find\<close> on a pointer: on \<open>NULL\<close> the first comparison faults, if there is one.\<close>

definition pcb_find_ptr :: "bytes option \<Rightarrow> 'a procs_scheme \<Rightarrow> (u32 \<times> 'a procs_scheme) checked option" where
  "pcb_find_ptr nm s =
     (case nm of Some nm \<Rightarrow> pcb_find nm s
      | None \<Rightarrow> if ready_head s = NULL \<and> suspended_head s = NULL then Some (Inr (NULL, s)) else Some (Inl Null_Deref))"

text \<open>
  The first part of \<open>delete_pcb\<close>, \<open>suspend_pcb\<close> and \<open>resume_pcb\<close>: the user process the user names, or
  one of three messages and \<open>NULL\<close>.
\<close>

definition find_user_pcb ::
  "'a kern_scheme trap \<Rightarrow> string \<Rightarrow> string \<Rightarrow> string \<Rightarrow> 'a kern_scheme \<Rightarrow> (u32 \<times> 'a kern_scheme) checked option" where
  "find_user_pcb trap invalid missing system s =
     run_then (ask_token trap name_prompt s) (\<lambda>(nm, _, s).
     run_then (Some (invalid_name nm)) (\<lambda>bad.
       if bad then run_then (say trap invalid s) (\<lambda>s. Some (Inr (NULL, s)))
       else run_then (pcb_find_ptr nm s) (\<lambda>(p, s).
         if p = NULL then run_then (say trap missing s) (\<lambda>s. Some (Inr (NULL, s)))
         else if proc_class (pcbs s p) = SYSTEM_PROC then run_then (say trap system s) (\<lambda>s. Some (Inr (NULL, s)))
         else Some (Inr (p, s)))))"

subsection \<open>delete_pcb, suspend_pcb, resume_pcb\<close>

definition delete_pcb :: "'a kern_scheme trap \<Rightarrow> 'a kern_scheme \<Rightarrow> 'a kern_scheme checked option" where
  "delete_pcb trap s =
     run_then (find_user_pcb trap (NL # ''Invalid PCB name. '' @ [NL]) (NL # ''PCB not found. '' @ [NL])
                 (NL # ''System processes cannot be deleted. '' @ [NL]) s) (\<lambda>(p, s).
       if p = NULL then Some (Inr s)
       else run_then (pcb_remove p s) (\<lambda>(free_result, s).
         if free_result \<noteq> 0 then say trap (NL # ''Failed to free PCB memory. '' @ [NL]) s
         else say trap (NL # ''PCB deleted successfully. '' @ [NL]) s))"

definition resume_pcb :: "'a kern_scheme trap \<Rightarrow> 'a kern_scheme \<Rightarrow> 'a kern_scheme checked option" where
  "resume_pcb trap s =
     run_then (find_user_pcb trap (''Invalid process name. '' @ [NL]) (''Process not found. '' @ [NL])
                 (NL # ''System processes cannot be deleted. '' @ [NL]) s) (\<lambda>(p, s).
       if p = NULL then Some (Inr s)
       else run_then (pcb_insert p (upd_pcb p (\<lambda>b. b\<lparr>state := RESUME_STATE\<rparr>) s)) (\<lambda>s.
         say trap (''Process resumed successfully. '' @ [NL]) s))"

definition suspend_pcb :: "'a kern_scheme trap \<Rightarrow> 'a kern_scheme \<Rightarrow> 'a kern_scheme checked option" where
  "suspend_pcb trap s =
     run_then (find_user_pcb trap (''Invalid process name. '' @ [NL]) (''Process not found. '' @ [NL])
                 (NL # ''System processes cannot be deleted. '' @ [NL]) s) (\<lambda>(p, s).
       if p = NULL then Some (Inr s)
       else run_then (pcb_insert p (upd_pcb p (\<lambda>b. b\<lparr>state := SUSPEND_STATE\<rparr>) s)) (\<lambda>s.
         say trap (''Process suspended successfully. '' @ [NL]) s))"

subsection \<open>set_pcb_priority\<close>

text \<open>
  The name is copied to a new block of \<open>strlen(buf) + 1\<close> bytes; what the block held before is not
  read, so the copy goes to zeros.
\<close>

definition set_pcb_priority :: "'a kern_scheme trap \<Rightarrow> 'a kern_scheme \<Rightarrow> 'a kern_scheme checked option" where
  "set_pcb_priority trap s =
     run_then (ask_token trap name_prompt s) (\<lambda>(copy, buf, s).
     run_then (Some (strlen buf)) (\<lambda>n.
     run_then (sys_alloc_mem (of_nat (n + 1)) s) (\<lambda>(nm, s).
       case copy of None \<Rightarrow> Some (Inl Null_Deref)
       | Some copy \<Rightarrow>
           if nm = NULL then Some (Inl Null_Deref)
           else run_then (Some (strcpy (replicate (n + 1) 0) copy)) (\<lambda>block.
             let s = s\<lparr>bufs := (bufs s)(nm := block)\<rparr>
             in run_then (Some (invalid_name (Some (bufs s nm)))) (\<lambda>bad.
                  if bad then say trap (NL # ''Invalid PCB name.'') s
                  else run_then (say_nul trap ''Please enter the new priority of the PCB: '' s) (\<lambda>s.
                       run_then (serial_poll COM1 (replicate 20 0) 20 s) (\<lambda>(_, buf, s).
                       run_then (Some (atoi buf)) (\<lambda>new_priority.
                         if new_priority < 0 \<or> new_priority > 9 then
                           say trap (NL # ''Invalid priority, please assign a priority in range 0-9.'') s
                         else run_then (pcb_find (bufs s nm) s) (\<lambda>(p, s).
                           if p = NULL then Some (Inl Null_Deref)
                           else Some (Inr (upd_pcb p (\<lambda>b. b\<lparr>priority := new_priority\<rparr>) s)))))))))))"

subsection \<open>show_pcb, show_ready, show_all\<close>

definition show_pcb ::
  "'a kern_scheme trap \<Rightarrow> bytes \<Rightarrow> bytes \<Rightarrow> bytes \<Rightarrow> 'a kern_scheme \<Rightarrow> 'a kern_scheme checked option" where
  "show_pcb trap class_str state_str priority_str s =
     run_then (ask_token trap name_prompt s) (\<lambda>(nm, _, s).
     run_then (Some (invalid_name nm)) (\<lambda>bad.
       if bad then say trap (NL # ''Invalid PCB name. '' @ [NL]) s
       else run_then (pcb_find_ptr nm s) (\<lambda>(p, s).
         if p = NULL then Some (Inl Null_Deref)
         else run_then (Some (itoa (proc_class (pcbs s p)) class_str 10)) (\<lambda>class_str.
              run_then (Some (itoa (state (pcbs s p)) state_str 10)) (\<lambda>state_str.
              run_then (Some (itoa (priority (pcbs s p)) priority_str 10)) (\<lambda>priority_str.
              run_then (say trap [NL] s) (\<lambda>s.
              run_then (say trap ''Name: '' s) (\<lambda>s.
              run_then (write_bytes trap (name (pcbs s p)) MAX_NAME_LEN s) (\<lambda>s.
              run_then (say trap [NL] s) (\<lambda>s.
              run_then (say trap ''Class: '' s) (\<lambda>s.
              run_then (say_str trap class_str s) (\<lambda>s.
              run_then (say trap [NL] s) (\<lambda>s.
              run_then (say trap ''State: '' s) (\<lambda>s.
              run_then (say_str trap state_str s) (\<lambda>s.
              run_then (say trap [NL] s) (\<lambda>s.
              run_then (say trap ''Priority: '' s) (\<lambda>s.
              run_then (say_str trap priority_str s) (\<lambda>s.
              say trap [NL] s))))))))))))))))))"

definition state_text :: "int \<Rightarrow> string option" where
  "state_text st =
     (if st = READY_STATE then Some ''READY''
      else if st = BLOCKED_STATE then Some ''BLOCKED''
      else if st = SUSPEND_STATE then Some ''SUSPENDED''
      else if st = RESUME_STATE then Some ''RESUMED''
      else None)"

text \<open>The body of the loops of \<open>show_ready\<close> and \<open>show_all\<close>.\<close>

definition show_process :: "'a kern_scheme trap \<Rightarrow> u32 \<Rightarrow> 'a kern_scheme \<Rightarrow> 'a kern_scheme checked option" where
  "show_process trap p s =
     run_then (say trap (NL # ''Name: '') s) (\<lambda>s.
     run_then (say_str trap (name (pcbs s p)) s) (\<lambda>s.
     run_then (say trap (NL # ''Class: '') s) (\<lambda>s.
     run_then (write_bytes trap (c_str (if proc_class (pcbs s p) = USER_PROC then ''User'' else ''System''))
                 (length ''User'') s) (\<lambda>s.
     run_then (say trap (NL # ''State: '') s) (\<lambda>s.
     run_then (case state_text (state (pcbs s p)) of None \<Rightarrow> Some (Inr s) | Some m \<Rightarrow> say trap m s) (\<lambda>s.
     run_then (say trap (NL # ''Priority: '') s) (\<lambda>s.
     run_then (write_bytes trap [48 + word_of_int (priority (pcbs s p))] 1 s) (\<lambda>s.
       say trap [NL] s))))))))"

partial_function (option) show_list :: "'a kern_scheme trap \<Rightarrow> u32 \<Rightarrow> 'a kern_scheme \<Rightarrow> 'a kern_scheme checked option" where
  "show_list trap p s =
     (if p = NULL then Some (Inr s)
      else run_then (show_process trap p s) (\<lambda>s. show_list trap (next_pcb (pcbs s p)) s))"

definition show_ready :: "'a kern_scheme trap \<Rightarrow> 'a kern_scheme \<Rightarrow> 'a kern_scheme checked option" where
  "show_ready trap s =
     (let current_pcb = ready_head s
      in run_then (if current_pcb = NULL then say trap (NL # ''There are no processes currently ready.'') s
                   else Some (Inr s)) (\<lambda>s. show_list trap current_pcb s))"

definition show_all :: "'a kern_scheme trap \<Rightarrow> 'a kern_scheme \<Rightarrow> 'a kern_scheme checked option" where
  "show_all trap s =
     (let (r, b, u) = (ready_head s, blocked_head s, suspended_head s)
      in run_then (show_list trap r s) (\<lambda>s. run_then (show_list trap b s) (\<lambda>s. show_list trap u s)))"

subsection \<open>Starting processes\<close>

definition zero_context :: cpu_context where
  "zero_context = \<lparr>ds_reg = 0, es_reg = 0, fs_reg = 0, gs_reg = 0, ss_reg = 0, eax = 0, ebx = 0, ecx = 0, edx = 0,
     esp = 0, ebp = 0, esi = 0, edi = 0, eip = 0, cs_reg = 0, eflags = 0\<rparr>"

text \<open>
  The first context of a process: \<open>memset(ctx, 0, sizeof(struct context))\<close>, or, where the code
  says \<open>sizeof(&ctx)\<close>, the first four bytes only (\<open>full\<close> is false), then the assignments.
\<close>

definition start_context :: "bool \<Rightarrow> u32 \<Rightarrow> u32 \<Rightarrow> 'a kern_scheme \<Rightarrow> 'a kern_scheme" where
  "start_context full p entry s =
     (let a = stack_top (pcbs s p);
          c = (if full then zero_context else (ctxs s a)\<lparr>ds_reg := 0\<rparr>);
          c = c\<lparr>cs_reg := 0x08, ds_reg := 0x10, es_reg := 0x10, fs_reg := 0x10, gs_reg := 0x10, ss_reg := 0x10,
                ebp := p + stack_offset, esp := a, eip := entry, eflags := 0x0202\<rparr>
      in s\<lparr>ctxs := (ctxs s)(a := c)\<rparr>)"

definition spawn :: "bool \<Rightarrow> bytes option \<Rightarrow> int \<Rightarrow> int \<Rightarrow> u32 \<Rightarrow> 'a kern_scheme \<Rightarrow> 'a kern_scheme checked option" where
  "spawn full nm cls prio entry s =
     run_then (pcb_setup nm cls prio s) (\<lambda>(p, s).
       if p = NULL then Some (Inl Null_Deref) else pcb_insert p (start_context full p entry s))"

definition r3_name :: "int \<Rightarrow> string" where
  "r3_name i =
     (if i = 1 then ''process1'' else if i = 2 then ''process2'' else if i = 3 then ''process3''
      else if i = 4 then ''process4'' else ''process5'')"

text \<open>The loop; the iteration with \<open>i = 0\<close> does nothing. \<open>entry i\<close> is the address of \<open>proc\<close>\<open>i\<close>.\<close>

function load_from :: "int \<Rightarrow> (int \<Rightarrow> u32) \<Rightarrow> 'a kern_scheme \<Rightarrow> 'a kern_scheme checked option" where
  "load_from i entry s =
     (if i \<le> 5 then
        run_then (if 1 \<le> i \<and> i \<le> 5 then spawn (i = 1) (Some (c_str (r3_name i))) 1 i (entry i) s else Some (Inr s)) (\<lambda>s.
          load_from (i + 1) entry s)
      else Some (Inr s))"
  by pat_completeness auto
termination
  by (relation "measure (\<lambda>(i, _, _). nat (6 - i))") auto

definition load_r3 :: "(int \<Rightarrow> u32) \<Rightarrow> 'a kern_scheme \<Rightarrow> 'a kern_scheme checked option" where
  "load_r3 entry s = load_from 0 entry s"

subsection \<open>alarm\<close>

text \<open>
  \<open>input_time\<close> points into \<open>buf\<close>, which is cleared and filled with the name before it is read; the
  hour, minutes and seconds are picked from the name too. \<open>sizeof(alarm_msg)\<close> is the size of a pointer.
\<close>

abbreviation (input) ALARM_SEC :: u8 where "ALARM_SEC \<equiv> 1"
abbreviation (input) ALARM_MIN :: u8 where "ALARM_MIN \<equiv> 3"
abbreviation (input) ALARM_HR :: u8 where "ALARM_HR \<equiv> 5"

definition alarm :: "'a kern_scheme trap \<Rightarrow> bytes \<Rightarrow> u32 \<Rightarrow> 'a kern_scheme \<Rightarrow> 'a kern_scheme checked option" where
  "alarm trap seconds entry s =
     run_then (ask_token trap (NL # ''Please enter the time of the alarm (HH:MM:SS): '') s) (\<lambda>(tok1, buf1, s).
     let input_time = map_option (\<lambda>t. length buf1 - length t) tok1
     in run_then (ask_token trap (NL # ''Please enter the name of your alarm: '') s) (\<lambda>(alarm_name, buf, s).
        run_then (pcb_find_ptr alarm_name s) (\<lambda>(q, s).
        run_then (if q \<noteq> NULL then say_nul trap (NL # ''Name already in use:'') s else Some (Inr s)) (\<lambda>s.
        run_then (get_time trap s) (\<lambda>(timeStr, s).
        run_then (if timeStr = NULL then Some (Inl Null_Deref) else Some (atoi (bufs s timeStr))) (\<lambda>get_time_int.
        run_then (case input_time of None \<Rightarrow> Some (Inl Null_Deref) | Some k \<Rightarrow> Some (atoi (drop k buf))) (\<lambda>alarm_time_int.
        run_then (Some (time_fields buf seconds)) (\<lambda>(h, m, sc).
          if time_invalid (h, m, sc) then say trap (NL # ''Invalid time input. '' @ [NL]) s
          else
            let s = write_rtc ALARM_HR (word_of_int h) s;
                s = write_rtc ALARM_MIN (word_of_int m) s;
                s = write_rtc ALARM_SEC (word_of_int sc) s
            in run_then (say trap (NL # ''Time set successfully. '' @ [NL]) s) (\<lambda>s.
               run_then (spawn True alarm_name 1 1 entry s) (\<lambda>s.
               run_then (idle trap s) (\<lambda>s.
                 if get_time_int = alarm_time_int then
                   run_then (write_bytes trap (c_str ''ALARM'') 4 s) (\<lambda>s. exit_proc trap s)
                 else Some (Inr s))))))))))))"

section \<open>Lemmas\<close>

subsection \<open>Room on the heap\<close>

text \<open>The last block of the heap is free and has at least \<open>n\<close> bytes.\<close>

definition room :: "'a heap_scheme \<Rightarrow> nat \<Rightarrow> bool" where
  "room s n \<longleftrightarrow> (\<exists>bs m. heap_blocks s (bs @ [(m, True)]) \<and> n \<le> m)"

lemma first_fit_last:
  "k \<le> m \<Longrightarrow> \<exists>p bs'. first_fit k a (bs @ [(m, True)]) = Some (p, bs') \<and> a < p \<and> p \<le> a + extent (bs @ [(m, True)]) \<and>
     (k + 4 < m \<longrightarrow> (\<exists>cs m'. bs' = cs @ [(m', True)] \<and> m - k - 4 \<le> m'))"
proof (induction bs arbitrary: a)
  case Nil
  then show ?case by auto
next
  case (Cons b bs)
  obtain n f where b: "b = (n, f)" by (cases b)
  show ?case
  proof (cases "f \<and> k \<le> n")
    case True
    let ?h = "if n > k + 4 then [(k, False), (n - k - 4, True)] else [(n, False)]"
    have "first_fit k a ((b # bs) @ [(m, True)]) = Some (a + 4, (?h @ bs) @ [(m, True)])" using True b by simp
    then show ?thesis
    proof (intro exI conjI impI)
      show "a + 4 \<le> a + extent ((b # bs) @ [(m, True)])" by (simp add: b)
      show "(?h @ bs) @ [(m, True)] = (?h @ bs) @ [(m, True)]" "m - k - 4 \<le> m" by simp_all
    qed simp_all
  next
    case False
    obtain p bs' where p: "first_fit k (a + 4 + n) (bs @ [(m, True)]) = Some (p, bs')" "a + 4 + n < p"
      "p \<le> a + 4 + n + extent (bs @ [(m, True)])"
      "k + 4 < m \<longrightarrow> (\<exists>cs m'. bs' = cs @ [(m', True)] \<and> m - k - 4 \<le> m')"
      using Cons.IH [OF Cons.prems, of "a + 4 + n"] by blast
    have "first_fit k a ((b # bs) @ [(m, True)]) = Some (p, b # bs')" using p(1) False b by auto
    moreover have "\<exists>cs m'. b # bs' = cs @ [(m', True)] \<and> m - k - 4 \<le> m'" if "k + 4 < m"
      using p(4) that by (metis append_Cons)
    ultimately show ?thesis using p(2,3) b by auto
  qed
qed

lemma allocate_room:
  assumes "room s (k + unat (roundup sz) + 4)" "0 < k"
  shows "\<exists>p m. allocate_memory sz s = Some (Inr (p, s\<lparr>mcbs := m\<rparr>)) \<and> p \<noteq> NULL \<and> room (s\<lparr>mcbs := m\<rparr>) k"
proof -
  let ?z = "unat (roundup sz)" and ?a = "unat (memlist s)"
  obtain bs m where h: "heap_blocks s (bs @ [(m, True)])" "k + ?z + 4 \<le> m" using assms(1) unfolding room_def by blast
  have "?z \<le> m" "?z + 4 < m" using h(2) assms(2) by simp_all
  then obtain p cs m' where p: "first_fit ?z ?a (bs @ [(m, True)]) = Some (p, cs @ [(m', True)])" "?a < p"
    "p \<le> ?a + extent (bs @ [(m, True)])" "m - ?z - 4 \<le> m'"
    using first_fit_last [of ?z m ?a bs] by blast
  obtain mm where mm: "allocate_memory sz s = Some (Inr (of_nat p, s\<lparr>mcbs := mm\<rparr>))"
    "heap_blocks (s\<lparr>mcbs := mm\<rparr>) (cs @ [(m', True)])"
    using allocate_memory_refines [OF h(1), of sz] p(1) by auto
  have "p < 2 ^ 32" using h(1) p(3) by (auto simp: heap_blocks_def)
  then have "(of_nat p :: u32) \<noteq> NULL" using p(2) unat_of_nat32 [of p] by auto
  moreover have "k \<le> m'" using p(4) h(2) by simp
  ultimately show ?thesis using mm unfolding room_def by blast
qed

lemma room_frame: "mcbs t = mcbs s \<Longrightarrow> memlist t = memlist s \<Longrightarrow> room t n = room s n"
  by (simp add: room_def heap_blocks_def)

lemma heap_frame:
  "mcbs t = mcbs s \<Longrightarrow> memlist t = memlist s \<Longrightarrow> heap_ok t = heap_ok s"
  "mcbs t = mcbs s \<Longrightarrow> memlist t = memlist s \<Longrightarrow> heap_live t = heap_live s"
  by (simp_all add: heap_ok_def heap_live_def heap_blocks_def)

subsection \<open>Starting a process\<close>

lemma names_ok_enqueue: "names_ok s (enqueue key p xs @ ys) \<longleftrightarrow> names_ok s (p # xs @ ys)"
  by (auto simp: names_ok_def)

text \<open>The context a process starts with when all of it has been cleared.\<close>

definition first_context :: "u32 \<Rightarrow> u32 \<Rightarrow> cpu_context" where
  "first_context p entry = zero_context\<lparr>cs_reg := 0x08, ds_reg := 0x10, es_reg := 0x10, fs_reg := 0x10, gs_reg := 0x10,
     ss_reg := 0x10, ebp := p + stack_offset, esp := p + 1024, eip := entry, eflags := 0x0202\<rparr>"

text \<open>The same over whatever general registers the stack held before.\<close>

definition context_over :: "cpu_context \<Rightarrow> u32 \<Rightarrow> u32 \<Rightarrow> cpu_context" where
  "context_over c p entry = c\<lparr>cs_reg := 0x08, ds_reg := 0x10, es_reg := 0x10, fs_reg := 0x10, gs_reg := 0x10,
     ss_reg := 0x10, ebp := p + stack_offset, esp := p + 1024, eip := entry, eflags := 0x0202\<rparr>"

lemma context_over_zero: "context_over zero_context p entry = first_context p entry"
  by (simp add: context_over_def first_context_def)

text \<open>Two PCBs that differ in their place in a queue at most.\<close>

definition same_but_next :: "pcb \<Rightarrow> pcb \<Rightarrow> bool" where
  "same_but_next b c \<longleftrightarrow> b\<lparr>next_pcb := NULL\<rparr> = c\<lparr>next_pcb := NULL\<rparr>"

lemma same_but_next_trans: "same_but_next a b \<Longrightarrow> same_but_next b c \<Longrightarrow> same_but_next a c"
  by (simp add: same_but_next_def)

lemma same_but_nextD:
  assumes "same_but_next b c"
  shows "name b = name c" "proc_class b = proc_class c" "priority b = priority c" "state b = state c" "stack_top b = stack_top c"
  using assms unfolding same_but_next_def by (cases b; cases c; simp)+

text \<open>What \<open>spawn\<close> promises: one more process in the ready queue, the table still in order.\<close>

lemma spawn_ok:
  fixes s :: "'a kern_scheme"
  assumes ok: "procs_ok s Q" and rm: "room s (k + 1104)" "0 < k"
    and arg: "0 \<le> prio" "prio \<le> 9" "cls \<in> {0, 1}"
    and nm: "0 \<in> set nm" "2 \<le> length (cstring nm)" "length (cstring nm) < 50"
    and new: "\<And>q. q \<in> set (Q Ready @ Q Suspended) \<Longrightarrow> \<not> named s nm q"
  shows "\<exists>p t. spawn full (Some nm) cls prio entry s = Some (Inr t) \<and> p \<noteq> NULL \<and> p \<notin> queued Q \<and>
    procs_ok t (Q(Ready := enqueue (prio_of t) p (Q Ready))) \<and> room t k \<and>
    priority (pcbs t p) = prio \<and> named t nm p \<and> stack_top (pcbs t p) = p + 1024 \<and> eip (ctxs t (p + 1024)) = entry \<and>
    slot_of t p = Some Ready \<and> proc_class (pcbs t p) = cls \<and>
    (\<forall>q \<in> queued Q. prio_of t q = prio_of s q \<and> name (pcbs t q) = name (pcbs s q) \<and> slot_of t q = slot_of s q \<and>
       stack_top (pcbs t q) = stack_top (pcbs s q) \<and> proc_class (pcbs t q) = proc_class (pcbs s q)) \<and>
    (\<forall>a. a \<noteq> p + 1024 \<longrightarrow> ctxs t a = ctxs s a) \<and>
    global_pcb t = global_pcb s \<and> initial_context t = initial_context s \<and> idt_entries t = idt_entries s \<and> memlist t = memlist s \<and>
    (full \<longrightarrow> ctxs t (p + 1024) = first_context p entry) \<and>
    heap_live s \<subseteq> heap_live t \<and> (\<exists>n. 1100 \<le> n \<and> (unat p, n) \<in> heap_live t) \<and>
    (\<forall>q. q \<noteq> p \<longrightarrow> same_but_next (pcbs t q) (pcbs s q)) \<and> state (pcbs t p) = READY_STATE \<and>
    ctxs t (p + 1024) = context_over (if full then zero_context else ctxs s (p + 1024)) p entry"
proof -
  have ru: "unat (roundup 1100) = 1100" by (simp add: roundup_def)
  have "k + unat (roundup 1100) + 4 = k + 1104" unfolding ru by simp
  then obtain p m where al: "allocate_memory 1100 s = Some (Inr (p, s\<lparr>mcbs := m\<rparr>))" "p \<noteq> NULL" "room (s\<lparr>mcbs := m\<rparr>) k"
    using allocate_room [of s k 1100] rm by metis
  let ?s = "s\<lparr>mcbs := m\<rparr>"
  obtain t where t: "pcb_setup (Some nm) cls prio s = Some (Inr (p, t))" "pcb_queues t Q" "p \<notin> queued Q" "named t nm p"
    "\<And>q. q \<noteq> p \<Longrightarrow> pcbs t q = pcbs s q" "priority (pcbs t p) = prio" "proc_class (pcbs t p) = cls"
    "state (pcbs t p) = READY_STATE" "stack_top (pcbs t p) = p + 1024" "length (name (pcbs t p)) = 50"
    "t = s\<lparr>mcbs := m, pcbs := pcbs t, trace := trace t\<rparr>"
    using pcb_setup_ok [OF ok al(1,2) arg nm new] by auto
  let ?u = "start_context full p entry t"
  have u: "pcbs ?u = pcbs t" "mcbs ?u = m" "memlist ?u = memlist s" "malloc_function ?u = malloc_function s"
    "free_function ?u = free_function s" "global_pcb ?u = global_pcb s" "initial_context ?u = initial_context s"
    "eip (ctxs ?u (p + 1024)) = entry" "\<And>a. a \<noteq> p + 1024 \<Longrightarrow> ctxs ?u a = ctxs s a"
    "idt_entries ?u = idt_entries s" "full \<longrightarrow> ctxs ?u (p + 1024) = first_context p entry"
    "ctxs ?u (p + 1024) = context_over (if full then zero_context else ctxs s (p + 1024)) p entry"
    using t(9) arg_cong [OF t(11), of mcbs] arg_cong [OF t(11), of memlist] arg_cong [OF t(11), of malloc_function]
      arg_cong [OF t(11), of free_function] arg_cong [OF t(11), of global_pcb] arg_cong [OF t(11), of initial_context]
      arg_cong [OF t(11), of ctxs] arg_cong [OF t(11), of idt_entries]
    by (simp_all add: start_context_def first_context_def context_over_def Let_def)
  have gh: "get_head q ?u = get_head q t" for q by (cases q) (simp_all add: start_context_def Let_def)
  have uq: "pcb_queues ?u Q" by (rule pcb_queues_frame [OF t(2)]) (simp_all add: gh u(1))
  have out: "\<And>q. p \<notin> set (Q q)" using t(3) by (auto simp: queued_def)
  have "queue_of (state (pcbs ?u p)) = Some Ready" unfolding u(1) t(8) by simp
  then obtain v where v: "pcb_insert p ?u = Some (Inr v)" "pcb_queues v (Q(Ready := enqueue (prio_of ?u) p (Q Ready)))"
    "kept v = kept ?u"
    using pq.insert_law [OF uq al(2), of Ready] out by (auto simp: slot_of_def)
  have sp: "spawn full (Some nm) cls prio entry s = Some (Inr v)" using t(1) al(2) v(1) by (simp add: spawn_def)
  note kf = kept_fields [OF v(3)] and nf = same_procs_fields [of ?u v, unfolded same_procs_def, OF v(3)]
  have hv: "mcbs v = m" "memlist v = memlist s" "malloc_function v = malloc_function s" "free_function v = free_function s"
    using u arg_cong [OF v(3), of mcbs] arg_cong [OF v(3), of memlist] arg_cong [OF v(3), of malloc_function]
      arg_cong [OF v(3), of free_function] by (simp_all add: kept_def)
  have rv: "room v k" using al(3) by (rule room_frame [THEN iffD2, rotated 2]) (simp_all add: hv)
  have old: "name (pcbs v q) = name (pcbs s q)" "prio_of v q = prio_of s q" "slot_of v q = slot_of s q"
    "stack_top (pcbs v q) = stack_top (pcbs s q)" "proc_class (pcbs v q) = proc_class (pcbs s q)" if "q \<noteq> p" for q
    using that nf(1,2,3,4,5) [of q] t(5) [of q] by (simp_all add: u(1) prio_of_def slot_of_def)
  have fresh: "name (pcbs v p) = name (pcbs t p)" "priority (pcbs v p) = prio" "proc_class (pcbs v p) = cls"
    "slot_of v p = Some Ready" "stack_top (pcbs v p) = p + 1024"
    using nf(1,2,3,4,5) [of p] t(6-9) by (simp_all add: u(1) slot_of_def)
  have frame: "same_but_next (pcbs v q) (pcbs s q)" if "q \<noteq> p" for q
    using arg_cong [OF v(3), of "\<lambda>w. pcbs w q"] t(5) [OF that] by (simp add: kept_def same_but_next_def u(1))
  have ready: "state (pcbs v p) = READY_STATE" using nf(4) [of p] t(8) by (simp add: u(1))
  have live: "heap_ok v" "unat p \<in> fst ` heap_live v" "heap_live s \<subseteq> heap_live v" "\<exists>n. 1100 \<le> n \<and> (unat p, n) \<in> heap_live v"
  proof -
    have "heap_ok ?s \<and> unat p \<in> fst ` heap_live ?s \<and> heap_live s \<subseteq> heap_live ?s \<and> (\<exists>n. 1100 \<le> n \<and> (unat p, n) \<in> heap_live ?s)"
      using heap_alloc_law [of s 1100] ok al(1,2) by (auto simp: procs_ok_def)
    moreover have "heap_ok v = heap_ok ?s" "heap_live v = heap_live ?s" by (rule heap_frame; simp add: hv)+
    ultimately show "heap_ok v" "unat p \<in> fst ` heap_live v" "heap_live s \<subseteq> heap_live v"
      "\<exists>n. 1100 \<le> n \<and> (unat p, n) \<in> heap_live v" by simp_all
  qed
  let ?Q = "Q(Ready := enqueue (prio_of v) p (Q Ready))"
  have Qv: "pcb_queues v ?Q" using v(2) unfolding kf(4) .
  have qd: "queued ?Q \<subseteq> insert p (queued Q)" by (auto simp: queued_def split: if_splits)
  have "procs_ok v ?Q"
  proof -
    have "length (name (pcbs v q)) = 50" for q using old(1) [of q] fresh(1) t(10) ok by (cases "q = p") (auto simp: procs_ok_def)
    moreover have z: "0 \<in> set (name (pcbs t p))"
    proof (rule ccontr)
      assume "0 \<notin> set (name (pcbs t p))"
      then have "cstring (name (pcbs t p)) = name (pcbs t p)" by (auto simp: cstring_def takeWhile_eq_all_conv)
      then show False using t(4,10) nm(3) by (simp add: named_def)
    qed
    have "0 \<in> set (name (pcbs v q))" if "q \<in> insert p (set (Q Ready @ Q Suspended))" for q
      using that old(1) [of q] fresh(1) z ok by (cases "q = p") (auto simp: procs_ok_def names_ok_def named_def)
    then have "names_ok v (?Q Ready @ ?Q Suspended)" by (auto simp: names_ok_def)
    moreover have "unat q \<in> fst ` heap_live v" if "q \<in> queued ?Q" for q
    proof (cases "q = p")
      case False
      then have "unat q \<in> fst ` heap_live s" using that qd ok by (auto simp: procs_ok_def)
      then show ?thesis using live(3) by blast
    qed (use live(2) in simp)
    moreover have "malloc_function v = Some Allocate_Memory" "free_function v = Some Free_Memory"
      using hv ok by (simp_all add: procs_ok_def)
    ultimately show ?thesis using Qv live(1) unfolding procs_ok_def by blast
  qed
  moreover have "named v nm p" using t(4) fresh(1) by (simp add: named_def)
  moreover have "q \<noteq> p" if "q \<in> queued Q" for q using that t(3) by blast
  moreover have "idt_entries v = idt_entries s" using arg_cong [OF v(3), of idt_entries] u(10) by (simp add: kept_def)
  ultimately show ?thesis using sp al(2) t(3) rv fresh old kf(1-3) u(6-9) u(11,12) live(3,4) hv(2) frame ready
    by (intro exI [of _ p] exI [of _ v]) auto
qed

subsection \<open>load_r3\<close>

declare load_from.simps [simp del]

lemma int_1_5: "1 \<le> i \<Longrightarrow> i \<le> 5 \<Longrightarrow> i = 1 \<or> i = 2 \<or> i = 3 \<or> i = 4 \<or> i = (5::int)"
  by auto

lemma r3_name_ok:
  "1 \<le> i \<Longrightarrow> i \<le> 5 \<Longrightarrow> 2 \<le> length (cstring (c_str (r3_name i))) \<and> length (cstring (c_str (r3_name i))) < 50"
  by (drule (1) int_1_5) (auto simp: r3_name_def)

lemma r3_names_distinct:
  assumes "1 \<le> i" "i < j" "j \<le> 5"
  shows "cstring (c_str (r3_name i)) \<noteq> cstring (c_str (r3_name j))"
proof -
  have "i = 1 \<or> i = 2 \<or> i = 3 \<or> i = 4" "j = 2 \<or> j = 3 \<or> j = 4 \<or> j = 5" using assms by auto
  then show ?thesis using assms(2) by (elim disjE) (simp_all add: r3_name_def)
qed

text \<open>
  The state \<open>t\<close> after the processes \<open>i\<close> to 5 have been started from \<open>s\<close>: \<open>ps\<close> are the new ones, inserted one
  after the other into the ready queue, which is \<open>xs\<close> then. Every field of their PCBs that \<open>load_r3\<close> determines is
  pinned, and their whole contexts: cleared first for process 1, over the old content of the stack for the others.
\<close>

definition loaded ::
  "(int \<Rightarrow> u32) \<Rightarrow> int \<Rightarrow> 'a kern_scheme \<Rightarrow> (queue \<Rightarrow> u32 list) \<Rightarrow> 'a kern_scheme \<Rightarrow> u32 list \<Rightarrow> u32 list \<Rightarrow> bool" where
  "loaded entry i s Q t xs ps \<longleftrightarrow>
     procs_ok t (Q(Ready := xs)) \<and> distinct ps \<and> set ps \<inter> queued Q = {} \<and> xs = fold (enqueue (prio_of t)) ps (Q Ready) \<and>
     (\<forall>k < length ps. named t (c_str (r3_name (i + int k))) (ps ! k) \<and> prio_of t (ps ! k) = i + int k \<and>
        proc_class (pcbs t (ps ! k)) = USER_PROC \<and> state (pcbs t (ps ! k)) = READY_STATE \<and>
        stack_top (pcbs t (ps ! k)) = ps ! k + 1024 \<and>
        ctxs t (ps ! k + 1024) =
          context_over (if i + int k = 1 then zero_context else ctxs s (ps ! k + 1024)) (ps ! k) (entry (i + int k))) \<and>
     (\<forall>q. q \<notin> set ps \<longrightarrow> same_but_next (pcbs t q) (pcbs s q)) \<and>
     (\<forall>a. a \<notin> (\<lambda>p. p + 1024) ` set ps \<longrightarrow> ctxs t a = ctxs s a) \<and>
     (sorted_queue (prio_of s) (Q Ready) \<longrightarrow> sorted_queue (prio_of t) xs)"

lemma sorted_queue_cong:
  "(\<And>x. x \<in> set xs \<Longrightarrow> k x = k' x) \<Longrightarrow> sorted_queue k xs = sorted_queue k' xs"
  unfolding sorted_queue_def by (metis map_cong)

lemma same_prio: "same_but_next (pcbs t q) (pcbs s q) \<Longrightarrow> prio_of t q = prio_of s q"
  by (simp add: prio_of_def same_but_nextD(3))

lemma set_fold_enqueue: "set (fold (enqueue k) ps xs) = set ps \<union> set xs"
  by (induction ps arbitrary: xs) auto

lemma loaded_Cons:
  assumes p: "p \<notin> queued Q" "priority (pcbs s1 p) = i" "named s1 (c_str (r3_name i)) p" "stack_top (pcbs s1 p) = p + 1024"
      "proc_class (pcbs s1 p) = USER_PROC" "state (pcbs s1 p) = READY_STATE"
      "ctxs s1 (p + 1024) = context_over (if i = 1 then zero_context else ctxs s (p + 1024)) p (entry i)"
    and old: "\<And>q. q \<noteq> p \<Longrightarrow> same_but_next (pcbs s1 q) (pcbs s q)" "\<And>a. a \<noteq> p + 1024 \<Longrightarrow> ctxs s1 a = ctxs s a"
    and ld: "loaded entry (i + 1) s1 (Q(Ready := enqueue (prio_of s1) p (Q Ready))) t xs ps"
  shows "loaded entry i s Q t xs (p # ps)"
proof -
  let ?Q1 = "Q(Ready := enqueue (prio_of s1) p (Q Ready))"
  have q1: "queued ?Q1 = insert p (queued Q)" by (auto simp: queued_def split: if_splits)
  have l: "procs_ok t (?Q1(Ready := xs))" "distinct ps" "set ps \<inter> insert p (queued Q) = {}"
    "xs = fold (enqueue (prio_of t)) ps (enqueue (prio_of s1) p (Q Ready))"
    "\<And>k. k < length ps \<Longrightarrow> named t (c_str (r3_name (i + 1 + int k))) (ps ! k) \<and> prio_of t (ps ! k) = i + 1 + int k \<and>
        proc_class (pcbs t (ps ! k)) = USER_PROC \<and> state (pcbs t (ps ! k)) = READY_STATE \<and>
        stack_top (pcbs t (ps ! k)) = ps ! k + 1024 \<and>
        ctxs t (ps ! k + 1024) =
          context_over (if i + 1 + int k = 1 then zero_context else ctxs s1 (ps ! k + 1024)) (ps ! k) (entry (i + 1 + int k))"
    "\<And>q. q \<notin> set ps \<Longrightarrow> same_but_next (pcbs t q) (pcbs s1 q)"
    "\<And>a. a \<notin> (\<lambda>p. p + 1024) ` set ps \<Longrightarrow> ctxs t a = ctxs s1 a"
    "sorted_queue (prio_of s1) (enqueue (prio_of s1) p (Q Ready)) \<Longrightarrow> sorted_queue (prio_of t) xs"
    using ld unfolding loaded_def q1 by auto
  have np: "p \<notin> set ps" and pp: "p + 1024 \<notin> (\<lambda>p. p + 1024) ` set ps" using l(3) by auto
  have pt: "same_but_next (pcbs t p) (pcbs s1 p)" by (rule l(6) [OF np])
  have first: "named t (c_str (r3_name i)) p" "prio_of t p = i" "stack_top (pcbs t p) = p + 1024"
    "proc_class (pcbs t p) = USER_PROC" "state (pcbs t p) = READY_STATE"
    "ctxs t (p + 1024) = context_over (if i = 1 then zero_context else ctxs s (p + 1024)) p (entry i)"
    using l(7) [OF pp] p same_but_nextD [OF pt] by (simp_all add: named_def prio_of_def)
  have each: "named t (c_str (r3_name (i + int k))) ((p # ps) ! k) \<and> prio_of t ((p # ps) ! k) = i + int k \<and>
      proc_class (pcbs t ((p # ps) ! k)) = USER_PROC \<and> state (pcbs t ((p # ps) ! k)) = READY_STATE \<and>
      stack_top (pcbs t ((p # ps) ! k)) = (p # ps) ! k + 1024 \<and>
      ctxs t ((p # ps) ! k + 1024) =
        context_over (if i + int k = 1 then zero_context else ctxs s ((p # ps) ! k + 1024)) ((p # ps) ! k) (entry (i + int k))"
    if "k < length (p # ps)" for k
  proof (cases k)
    case (Suc j)
    then have e: "i + int k = i + 1 + int j" "j < length ps" using that by simp_all
    then have "ps ! j \<noteq> p" using np nth_mem [OF e(2)] by metis
    then have "ctxs s1 (ps ! j + 1024) = ctxs s (ps ! j + 1024)" by (intro old(2)) simp
    then show ?thesis unfolding e(1) using l(5) [OF e(2)] Suc by simp
  qed (use first in simp)
  have q0: "q \<noteq> p" "q \<notin> set ps" if "q \<in> set (Q Ready)" for q
    using that p(1) l(3) by (auto simp: queued_def)
  have "prio_of s1 q = prio_of s q" if "q \<in> set (Q Ready)" for q by (rule same_prio [OF old(1) [OF q0(1) [OF that]]])
  then have "sorted_queue (prio_of s1) (Q Ready) = sorted_queue (prio_of s) (Q Ready)" by (rule sorted_queue_cong)
  then have so: "sorted_queue (prio_of t) xs" if "sorted_queue (prio_of s) (Q Ready)"
    using l(8) sorted_enqueue [of "prio_of s1" "Q Ready" p] that by simp
  have "prio_of s1 q = prio_of t q" if "q \<in> insert p (set (Q Ready))" for q
  proof -
    have "q \<notin> set ps" using that np q0(2) by blast
    then show ?thesis using same_prio [OF l(6)] by simp
  qed
  then have "enqueue (prio_of s1) p (Q Ready) = enqueue (prio_of t) p (Q Ready)" by (rule enqueue_cong)
  then have xs: "xs = fold (enqueue (prio_of t)) (p # ps) (Q Ready)" using l(4) by simp
  have keep: "ctxs t a = ctxs s a" if "a \<notin> (\<lambda>p. p + 1024) ` set (p # ps)" for a using that l(7) [of a] old(2) [of a] by auto
  have rest: "same_but_next (pcbs t q) (pcbs s q)" if "q \<notin> set (p # ps)" for q
    using that same_but_next_trans [OF l(6) [of q] old(1) [of q]] by simp
  have "procs_ok t (Q(Ready := xs))" "distinct (p # ps)" "set (p # ps) \<inter> queued Q = {}" using l(1-3) np p(1) by auto
  then show ?thesis unfolding loaded_def using xs each rest keep so by blast
qed

lemma load_from_ok:
  assumes "procs_ok s Q" "room s (1104 * n + 4)" "i = 6 - int n" "n \<le> 5"
    and "\<And>j q. i \<le> j \<Longrightarrow> j \<le> 5 \<Longrightarrow> q \<in> set (Q Ready @ Q Suspended) \<Longrightarrow> \<not> named s (c_str (r3_name j)) q"
  shows "\<exists>t xs ps. load_from i entry s = Some (Inr t) \<and> length ps = n \<and> loaded entry i s Q t xs ps"
  using assms
proof (induction n arbitrary: s Q i)
  case 0
  then have "load_from i entry s = Some (Inr s)" by (subst load_from.simps) simp
  then show ?case using 0(1) by (intro exI [of _ s] exI [of _ "Q Ready"] exI [of _ "[]"]) (auto simp: loaded_def same_but_next_def)
next
  case (Suc n)
  have i: "1 \<le> i" "i \<le> 5" "i + 1 = 6 - int n" using Suc.prems(3,4) by simp_all
  have rm: "room s ((1104 * n + 4) + 1104)" using Suc.prems(2) by (simp add: algebra_simps)
  obtain p s1 where sp: "spawn (i = 1) (Some (c_str (r3_name i))) 1 i (entry i) s = Some (Inr s1)" "p \<notin> queued Q"
    "procs_ok s1 (Q(Ready := enqueue (prio_of s1) p (Q Ready)))" "room s1 (1104 * n + 4)"
    "priority (pcbs s1 p) = i" "named s1 (c_str (r3_name i)) p" "stack_top (pcbs s1 p) = p + 1024"
    "proc_class (pcbs s1 p) = USER_PROC" "state (pcbs s1 p) = READY_STATE"
    "ctxs s1 (p + 1024) = context_over (if i = 1 then zero_context else ctxs s (p + 1024)) p (entry i)"
    "\<And>q. q \<noteq> p \<Longrightarrow> same_but_next (pcbs s1 q) (pcbs s q)" "\<And>a. a \<noteq> p + 1024 \<Longrightarrow> ctxs s1 a = ctxs s a"
    using spawn_ok [OF Suc.prems(1) rm, of i 1 "c_str (r3_name i)" "i = 1" "entry i"] i r3_name_ok [OF i(1,2)] Suc.prems(5) [of i]
    by force
  let ?Q1 = "Q(Ready := enqueue (prio_of s1) p (Q Ready))"
  have "\<not> named s1 (c_str (r3_name j)) q" if "i + 1 \<le> j" "j \<le> 5" "q \<in> set (?Q1 Ready @ ?Q1 Suspended)" for j q
  proof (cases "q = p")
    case True
    have "i < j" using that(1) by simp
    then show ?thesis using sp(6) True r3_names_distinct [OF i(1) _ that(2)] by (simp add: named_def)
  next
    case False
    then have q: "q \<in> set (Q Ready @ Q Suspended)" using that(3) by auto
    then show ?thesis using sp(11) [OF False] Suc.prems(5) [of j q] that q by (simp add: named_def same_but_nextD(1))
  qed
  moreover have "n \<le> 5" using Suc.prems(4) by simp
  ultimately obtain t xs ps where t: "load_from (i + 1) entry s1 = Some (Inr t)" "length ps = n" "loaded entry (i + 1) s1 ?Q1 t xs ps"
    using Suc.IH [OF sp(3,4) i(3)] by blast
  have "load_from i entry s = Some (Inr t)" using sp(1) t(1) i by (subst load_from.simps) simp
  moreover have "loaded entry i s Q t xs (p # ps)" using loaded_Cons [OF sp(2,5-12) t(3)] .
  ultimately show ?case using t(2) by (metis length_Cons)
qed

subsection \<open>Listings\<close>

text \<open>What is written for one process.\<close>

definition listing :: "pcb \<Rightarrow> event list" where
  "listing b = map (Request WRITE COM1)
     ([map of_char (NL # ''Name: ''), cstring (name b), map of_char (NL # ''Class: ''),
       map of_char (if proc_class b = USER_PROC then ''User'' else ''Syst''), map of_char (NL # ''State: '')] @
      (case state_text (state b) of None \<Rightarrow> [] | Some m \<Rightarrow> [map of_char m]) @
      [map of_char (NL # ''Priority: ''), [48 + word_of_int (priority b)], [10]])"

lemma emit_procs [simp]: "pcbs (emit e s) = pcbs s" "ready_head (emit e s) = ready_head s"
  "blocked_head (emit e s) = blocked_head s" "suspended_head (emit e s) = suspended_head s"
  by (simp_all add: emit_def)

lemma state_text_short: "state_text st = Some m \<Longrightarrow> length m < 2 ^ 32"
  by (auto simp: state_text_def split: if_splits)

lemma show_process_console:
  assumes "0 \<in> set (name (pcbs s p))" "length (name (pcbs s p)) < 2 ^ 32"
  shows "show_process console p s = Some (Inr (s\<lparr>trace := trace s @ listing (pcbs s p)\<rparr>))"
  using assms state_text_short [of "state (pcbs s p)"]
  by (cases "state_text (state (pcbs s p))")
    (auto simp: show_process_def listing_def c_str_def emit_def)

lemma show_list_console:
  assumes "qlist (pnext s) h xs" "\<And>p. p \<in> set xs \<Longrightarrow> 0 \<in> set (name (pcbs s p)) \<and> length (name (pcbs s p)) < 2 ^ 32"
  shows "show_list console h s = Some (Inr (s\<lparr>trace := trace s @ concat (map (\<lambda>p. listing (pcbs s p)) xs)\<rparr>))"
  using assms
proof (induction xs arbitrary: h s)
  case Nil
  then show ?case by (subst show_list.simps) simp
next
  case (Cons x xs)
  let ?s = "s\<lparr>trace := trace s @ listing (pcbs s x)\<rparr>"
  have h: "h = x" "x \<noteq> NULL" "qlist (pnext s) (next_pcb (pcbs s x)) xs" using Cons.prems(1) by (simp_all flip: pnext_def)
  have "pnext ?s = pnext s" by (simp add: pnext_def fun_eq_iff)
  then have "show_list console (next_pcb (pcbs s x)) ?s =
      Some (Inr (?s\<lparr>trace := trace ?s @ concat (map (\<lambda>p. listing (pcbs ?s p)) xs)\<rparr>))"
    using Cons.IH [of ?s "next_pcb (pcbs s x)"] h(3) Cons.prems(2) by simp
  then show ?case using h Cons.prems(2) [of x] by (subst show_list.simps) (simp add: show_process_console)
qed

subsection \<open>Naming a process at the prompt\<close>

definition line_ok :: "bytes \<Rightarrow> bool" where
  "line_ok xs \<longleftrightarrow> (\<forall>c \<in> set xs. \<not> is_bs c \<and> \<not> is_eol c \<and> c \<notin> {0, 9, 32}) \<and> 2 \<le> length xs \<and> length xs \<le> 18"

text \<open>The states that differ from \<open>s\<close> in the trace and the count of reads only.\<close>

definition same_kernel :: "'a kern_scheme \<Rightarrow> 'a kern_scheme \<Rightarrow> bool" where
  "same_kernel s t \<longleftrightarrow> (\<exists>tr k. t = s\<lparr>trace := tr, reads := k\<rparr>)"

lemma same_kernelD:
  assumes "same_kernel s t"
  shows "pcbs t = pcbs s" "ready_head t = ready_head s" "blocked_head t = blocked_head s" "suspended_head t = suspended_head s"
    "global_pcb t = global_pcb s" "mcbs t = mcbs s" "memlist t = memlist s" "ctxs t = ctxs s"
  using assms by (auto simp: same_kernel_def)

lemma same_kernel_steps:
  "same_kernel s (emit e s)" "same_kernel s t \<Longrightarrow> same_kernel t u \<Longrightarrow> same_kernel s u" "line_only s t \<Longrightarrow> same_kernel s t"
proof -
  have "emit e s = s\<lparr>trace := trace s @ [e], reads := reads s\<rparr>" by (simp add: emit_def)
  then show "same_kernel s (emit e s)" unfolding same_kernel_def by blast
  show "same_kernel s u" if "same_kernel s t" "same_kernel t u"
  proof -
    obtain a b c d where "t = s\<lparr>trace := a, reads := b\<rparr>" "u = t\<lparr>trace := c, reads := d\<rparr>"
      using \<open>same_kernel s t\<close> \<open>same_kernel t u\<close> unfolding same_kernel_def by blast
    then have "u = s\<lparr>trace := c, reads := d\<rparr>" by simp
    then show ?thesis unfolding same_kernel_def by blast
  qed
  show "same_kernel s t" if "line_only s t" using that unfolding line_only_def same_kernel_def by blast
qed

lemma find_user_pcb_console:
  assumes Q: "pcb_queues s Q" "names_ok s (Q Ready @ Q Suspended)" and xs: "line_ok xs" "is_eol e" "feeds s (xs @ [e])"
    and p: "find (\<lambda>q. cstring (name (pcbs s q)) = xs) (Q Ready @ Q Suspended) = Some p" "proc_class (pcbs s p) \<noteq> SYSTEM_PROC"
  shows "\<exists>t. find_user_pcb console m1 m2 m3 s = Some (Inr (p, t)) \<and> same_kernel s t \<and> p \<noteq> NULL"
proof -
  let ?s = "emit (Request WRITE COM1 (c_str name_prompt)) s"
  have fd: "feeds ?s (xs @ [e])" using xs(3) by (subst feeds_cong [of _ s]) simp_all
  have xc: "\<And>c. c \<in> set xs \<Longrightarrow> \<not> is_bs c \<and> \<not> is_eol c" "length xs + 1 < unat (20 :: u32)"
    "unat (20 :: u32) \<le> length (replicate 20 (0 :: u8))" "unat (20 :: u32) < 2 ^ 31"
    using xs(1) by (simp_all add: line_ok_def)
  obtain b t where b: "serial_poll COM1 (replicate 20 0) 20 ?s = Some (Inr (int (length xs) + 1, b, t))"
    "take (length xs + 2) b = xs @ [e, 0]" "line_only ?s t"
    by (rule serial_poll_plain [OF xc(1) xs(2) xc(2-4) fd])
  have "c \<notin> {0, 10, 13, 9, 32}" if "c \<in> set xs" for c using that xs(1) unfolding line_ok_def is_eol_def by blast
  then have d: "set xs \<inter> {0, 10, 13, 9, 32} = {}" "xs \<noteq> []"
    using xs(1) by (blast, cases xs) (simp_all add: line_ok_def)
  let ?nm = "b[length xs := 0]"
  note tok = first_token_line [OF b(2) xs(2) d(2,1)]
  have st: "same_kernel s t" using same_kernel_steps(2) [OF same_kernel_steps(1) same_kernel_steps(3) [OF b(3)]] .
  note f = same_kernelD [OF st]
  have ask: "ask_token console name_prompt s = Some (Inr (Some ?nm, ?nm, t))"
    using b(1) tok(1) by (simp add: ask_token_def name_prompt_def)
  have ok: "invalid_name (Some ?nm) = Inr False" using xs(1) tok(2,3) by (simp add: invalid_name_def line_ok_def)
  have Qt: "pcb_queues t Q" "names_ok t (Q Ready @ Q Suspended)"
    using Q pcb_queues_same [OF Q(1) f(1-4)] by (simp_all add: names_ok_def f(1))
  have "named t ?nm = (\<lambda>q. cstring (name (pcbs s q)) = xs)" by (rule ext) (simp add: named_def f(1) tok(2))
  then have pf: "pcb_find ?nm t = Some (Inr (p, t))" using pcb_find_eq [OF Qt(1) tok(3) Qt(2)] p(1) by (simp add: found_def)
  have "p \<in> set (Q Ready) \<or> p \<in> set (Q Suspended)" using find_in_list [OF p(1)] by auto
  then have "p \<noteq> NULL" using qlist_not_NULL [OF pcb_queuesD [OF Q(1)]] by blast
  then show ?thesis using ask ok pf p(2) st f(1) by (simp add: find_user_pcb_def pcb_find_ptr_def)
qed

lemma same_kernel_queues:
  assumes "same_kernel s t" "pcb_queues s Q" shows "pcb_queues t Q"
  using pcb_queues_same [OF assms(2) same_kernelD(1-4) [OF assms(1)]] .

section \<open>Properties\<close>



text \<open>
  C36. \<open>suspend_pcb\<close> does not take the process out of its queue: it writes the state 2, for which
  \<open>pcb_insert\<close> has no queue. The process stays where it is, so the scheduler will still run it; when it is
  at the head of the ready queue and is dispatched, \<open>pcb_remove\<close> does not know its state either,
  and the link to the rest of the ready queue is cut: the processes behind it are lost and it
  is running and ready at once.
\<close>

theorem suspend_pcb_keeps_queued:
  assumes "pcb_queues s Q" "names_ok s (Q Ready @ Q Suspended)" "line_ok xs" "is_eol e" "feeds s (xs @ [e])"
    and "find (\<lambda>q. cstring (name (pcbs s q)) = xs) (Q Ready @ Q Suspended) = Some p" "proc_class (pcbs s p) \<noteq> SYSTEM_PROC"
  shows "\<exists>t. suspend_pcb console s = Some (Inr t) \<and> pcb_queues t Q \<and> state (pcbs t p) = SUSPEND_STATE \<and>
    (\<forall>ys. Q Ready = p # ys \<longrightarrow> (\<exists>u. dispatch p t = Some (Inr (stack_top (pcbs s p), u)) \<and> global_pcb u = p \<and>
       state (pcbs u p) = READY_STATE \<and> qlist (pnext u) (ready_head u) [p]))"
proof -
  obtain s1 where s1: "find_user_pcb console (''Invalid process name. '' @ [NL]) (''Process not found. '' @ [NL])
      (NL # ''System processes cannot be deleted. '' @ [NL]) s = Some (Inr (p, s1))" "same_kernel s s1" "p \<noteq> NULL"
    using find_user_pcb_console [OF assms] by blast
  let ?f = "\<lambda>b. b\<lparr>state := SUSPEND_STATE\<rparr>"
  let ?t = "emit (Request WRITE COM1 (map of_char (''Process suspended successfully. '' @ [NL]))) (upd_pcb p ?f s1)"
  note f = same_kernelD [OF s1(2)]
  have run: "suspend_pcb console s = Some (Inr ?t)"
    using s1(1,3) by (simp add: suspend_pcb_def pcb_insert_def)
  have n: "pnext ?t = pnext s" by (auto simp: pnext_def f(1))
  have h: "get_head q ?t = get_head q s" for q using f(2-4) by (cases q) (simp_all add: upd_pcb_def)
  have "pcb_queues ?t Q" using assms(1) unfolding pcb_queues_def n h .
  moreover have st: "state (pcbs ?t p) = SUSPEND_STATE" "stack_top (pcbs ?t p) = stack_top (pcbs s p)" by (simp_all add: f(1))
  moreover have "\<exists>u. dispatch p ?t = Some (Inr (stack_top (pcbs s p), u)) \<and> global_pcb u = p \<and>
       state (pcbs u p) = READY_STATE \<and> qlist (pnext u) (ready_head u) [p]" if "Q Ready = p # ys" for ys
  proof -
    let ?u = "upd_pcb p (\<lambda>b. b\<lparr>state := READY_STATE\<rparr>) (set_next_pcb p NULL (?t\<lparr>global_pcb := p\<rparr>))"
    have "pcb_remove p (?t\<lparr>global_pcb := p\<rparr>) = Some (Inr (PCB_ERROR, ?t\<lparr>global_pcb := p\<rparr>))"
      using s1(3) st(1) by (simp add: pcb_remove_def)
    then have "dispatch p ?t = Some (Inr (stack_top (pcbs s p), ?u))"
      using s1(3) st(2) by (simp add: dispatch_def Let_def)
    moreover have "ready_head ?u = p" using h [of Ready] pcb_queuesD [OF assms(1), of Ready] that by simp
    ultimately show ?thesis using s1(3) by (intro exI [of _ ?u]) (simp add: pnext_def set_next_pcb_def)
  qed
  ultimately show ?thesis using run by blast
qed

lemma keyboard_fields:
  "pcbs (keyboard xs) = pcbs (kern_demo 1)" "ready_head (keyboard xs) = 0x9000" "blocked_head (keyboard xs) = NULL"
  "suspended_head (keyboard xs) = NULL" "mcbs (keyboard xs) = mcbs (kern_demo 1)" "memlist (keyboard xs) = 0x1000"
  by (simp_all add: keyboard_def kern_demo_simps)

lemma keyboard_table: "pcb_queues (keyboard xs) demo_Q" "names_ok (keyboard xs) (demo_Q Ready @ demo_Q Suspended)"
proof -
  have "pcb_queues (kern_demo 1) demo_Q" using kern_demo_scheduling [of 1] by (simp add: scheduling_def)
  then show "pcb_queues (keyboard xs) demo_Q" by (rule pcb_queues_same) (simp_all add: keyboard_fields kern_demo_simps)
  show "names_ok (keyboard xs) (demo_Q Ready @ demo_Q Suspended)"
    by (simp add: names_ok_def keyboard_fields demo_Q_def kern_demo_simps some_pcb_def)
qed

lemma typed_bb: "line_ok [98, 98]" "is_eol 13"
  "find (\<lambda>q. cstring (name (pcbs (keyboard [98, 98, 13]) q)) = [98, 98]) (demo_Q Ready @ demo_Q Suspended) = Some 0x9000"
  "proc_class (pcbs (keyboard [98, 98, 13]) 0x9000) \<noteq> SYSTEM_PROC"
  by (simp_all add: line_ok_def is_bs_def is_eol_def keyboard_fields kern_demo_simps some_pcb_def demo_Q_def)

theorem suspend_pcb_keeps_queued_witness:
  "\<exists>t u. suspend_pcb console (keyboard [98, 98, 13]) = Some (Inr t) \<and> pcb_queues t demo_Q \<and>
     dispatch 0x9000 t = Some (Inr (0x9400, u)) \<and> qlist (pnext u) (ready_head u) [0x9000]"
proof -
  have "feeds (keyboard [98, 98, 13]) ([98, 98] @ [13])" using keyboard_feeds [of "[98, 98, 13]"] by simp
  from suspend_pcb_keeps_queued [OF keyboard_table typed_bb(1,2) this typed_bb(3,4)]
  obtain t where t: "suspend_pcb console (keyboard [98, 98, 13]) = Some (Inr t)" "pcb_queues t demo_Q"
    "\<And>ys. demo_Q Ready = 0x9000 # ys \<Longrightarrow> \<exists>u. dispatch 0x9000 t = Some (Inr (stack_top (pcbs (keyboard [98, 98, 13]) 0x9000), u)) \<and>
       qlist (pnext u) (ready_head u) [0x9000]" by blast
  have "stack_top (pcbs (keyboard [98, 98, 13]) 0x9000) = 0x9400" by (simp add: keyboard_fields kern_demo_simps)
  moreover have "demo_Q Ready = 0x9000 # [0xa000]" by (simp add: demo_Q_def)
  ultimately show ?thesis using t(1,2) t(3) [of "[0xa000]"] by auto
qed

text \<open>
  C30. \<open>delete_pcb\<close> takes exactly the named ready or suspended process out of its queue; it does
  not release the memory of the PCB, though the help text says so: the heap is as before.
\<close>

theorem delete_pcb_unlinks:
  assumes "pcb_queues s Q" "names_ok s (Q Ready @ Q Suspended)" "line_ok xs" "is_eol e" "feeds s (xs @ [e])"
    and "find (\<lambda>q. cstring (name (pcbs s q)) = xs) (Q Ready @ Q Suspended) = Some p" "proc_class (pcbs s p) \<noteq> SYSTEM_PROC"
    and "p \<in> set (Q q)" "removes_from (state (pcbs s p)) = Some q"
  shows "\<exists>t. delete_pcb console s = Some (Inr t) \<and> pcb_queues t (Q(q := remove1 p (Q q))) \<and>
    last (trace t) = Request WRITE COM1 (map of_char (NL # ''PCB deleted successfully. '' @ [NL])) \<and>
    heap_live t = heap_live s"
proof -
  obtain s1 where s1: "find_user_pcb console (NL # ''Invalid PCB name. '' @ [NL]) (NL # ''PCB not found. '' @ [NL])
      (NL # ''System processes cannot be deleted. '' @ [NL]) s = Some (Inr (p, s1))" "same_kernel s s1" "p \<noteq> NULL"
    using find_user_pcb_console [OF assms(1-7)] by blast
  note f = same_kernelD [OF s1(2)]
  have Q1: "pcb_queues s1 Q" using same_kernel_queues [OF s1(2) assms(1)] .
  obtain s2 where s2: "pcb_remove p s1 = Some (Inr (PCB_SUCCESS, s2))" "pcb_queues s2 (Q(q := remove1 p (Q q)))" "same_procs s1 s2"
    using pcb_remove_queues [OF Q1 assms(8)] assms(9) f(1) by auto
  let ?t = "emit (Request WRITE COM1 (map of_char (NL # ''PCB deleted successfully. '' @ [NL]))) s2"
  have "delete_pcb console s = Some (Inr ?t)" using s1(1,3) s2(1) by (simp add: delete_pcb_def)
  moreover have "pcb_queues ?t (Q(q := remove1 p (Q q)))" by (rule pcb_queues_same [OF s2(2)]) simp_all
  moreover have "heap_live ?t = heap_live s"
  proof (rule heap_frame(2))
    show "mcbs ?t = mcbs s" "memlist ?t = memlist s"
      using arg_cong [OF s2(3) [unfolded same_procs_def], of mcbs] arg_cong [OF s2(3) [unfolded same_procs_def], of memlist] f
      by (simp_all add: kept_def emit_def)
  qed
  ultimately show ?thesis by (intro exI [of _ ?t]) simp
qed

theorem delete_pcb_unlinks_witness:
  "\<exists>t. delete_pcb console (keyboard [98, 98, 13]) = Some (Inr t) \<and> pcb_queues t (demo_Q(Ready := [0xa000]))"
proof -
  have "feeds (keyboard [98, 98, 13]) ([98, 98] @ [13])" using keyboard_feeds [of "[98, 98, 13]"] by simp
  moreover have "0x9000 \<in> set (demo_Q Ready)" "removes_from (state (pcbs (keyboard [98, 98, 13]) 0x9000)) = Some Ready"
    by (simp_all add: demo_Q_def removes_from_def keyboard_fields kern_demo_simps some_pcb_def)
  ultimately show ?thesis
    using delete_pcb_unlinks [OF keyboard_table typed_bb(1,2) _ typed_bb(3,4)] by (fastforce simp: demo_Q_def)
qed

text \<open>
  C13. \<open>load_r3\<close> on a process table in order, with room on the heap and no process of these names: it
  returns with five new user processes, ready, inserted one after the other by priority into the ready queue; the
  \<open>i\<close>-th has the name \<open>process\<close>\<open>i\<close>, priority \<open>i\<close> and a saved context with the segments, stack pointers and
  flags of a new process that starts at its function. Its other registers are 0 for the first process; for the
  other four they are what the stack held before (the code clears only four bytes of those contexts). The
  table stays in order, a ready queue sorted by priority stays sorted, and nothing else changes: every other PCB
  keeps all its fields but the queue link, every other saved context is as before.
\<close>

theorem load_r3_starts:
  assumes "procs_ok s Q" "room s 5524"
    and "\<forall>j q. 1 \<le> j \<and> j \<le> 5 \<and> q \<in> set (Q Ready @ Q Suspended) \<longrightarrow> \<not> named s (c_str (r3_name j)) q"
  shows "\<exists>t xs ps. load_r3 entry s = Some (Inr t) \<and> length ps = 5 \<and> loaded entry 1 s Q t xs ps"
proof -
  have "load_r3 entry s = load_from 1 entry s" unfolding load_r3_def by (subst load_from.simps) simp
  then show ?thesis using load_from_ok [of s Q 5 1 entry] assms by simp
qed

lemma empty_kernel:
  "procs_ok ((kern_demo 1)\<lparr>ready_head := NULL, mcbs := (\<lambda>a. if a = 0x1000 then 9003 else 0)\<rparr>) (\<lambda>_. [])"
  "room ((kern_demo 1)\<lparr>ready_head := NULL, mcbs := (\<lambda>a. if a = 0x1000 then 9003 else 0)\<rparr>) 5524"
proof -
  let ?s = "(kern_demo 1)\<lparr>ready_head := NULL, mcbs := (\<lambda>a. if a = 0x1000 then 9003 else 0)\<rparr>"
  have h: "heap_blocks ?s [(9000, True)]" by (simp add: heap_blocks_def hdr_def kern_demo_simps)
  then have "heap_blocks ?s ([] @ [(9000, True)])" by simp
  then show "room ?s 5524" unfolding room_def by (rule_tac x = "[]" in exI, rule_tac x = 9000 in exI) simp
  have "get_head q ?s = NULL" for q by (cases q) (simp_all add: kern_demo_simps)
  moreover have "length (name (pcbs ?s p)) = 50" for p
    by (simp add: kern_demo_def driver.extend_def some_pcb_def)
  ultimately show "procs_ok ?s (\<lambda>_. [])"
    using h by (auto simp: procs_ok_def pcb_queues_def heap_ok_def queued_def names_ok_def kern_demo_simps)
qed

theorem load_r3_starts_witness:
  "\<exists>t xs ps. load_r3 (\<lambda>i. word_of_int i)
       ((kern_demo 1)\<lparr>ready_head := NULL, mcbs := (\<lambda>a. if a = 0x1000 then 9003 else 0)\<rparr>) = Some (Inr t) \<and>
     length ps = 5 \<and> set xs = set ps \<and> (\<forall>k<5. prio_of t (ps ! k) = 1 + int k) \<and>
     ctxs t (ps ! 0 + 1024) = first_context (ps ! 0) 1"
proof -
  let ?s = "(kern_demo 1)\<lparr>ready_head := NULL, mcbs := (\<lambda>a. if a = 0x1000 then 9003 else 0)\<rparr>"
  obtain t xs ps where t: "load_r3 (\<lambda>i. word_of_int i) ?s = Some (Inr t)" "length ps = 5"
    "loaded (\<lambda>i. word_of_int i) 1 ?s (\<lambda>_. []) t xs ps"
    using load_r3_starts [OF empty_kernel, of "\<lambda>i. word_of_int i"] by auto
  have "set xs = set ps" "\<forall>k < length ps. prio_of t (ps ! k) = 1 + int k"
    using t(3) unfolding loaded_def by (simp_all add: set_fold_enqueue)
  moreover have "\<forall>k < length ps. ctxs t (ps ! k + 1024) =
      context_over (if 1 + int k = 1 then zero_context else ctxs ?s (ps ! k + 1024)) (ps ! k) (word_of_int (1 + int k))"
    using t(3) unfolding loaded_def by blast
  then have "ctxs t (ps ! 0 + 1024) = first_context (ps ! 0) 1" using t(2) by (fastforce simp: context_over_zero)
  ultimately show ?thesis using t(1,2) by metis
qed

end
