(* ===== verification/Command_Handler.thy ===== *)
theory Command_Handler
  imports Process_Commands
begin

text \<open>
  The command loop of \<open>src/user/commhand.c\<close>: \<open>help\<close>, \<open>menu\<close>, \<open>version\<close>, \<open>shutdown\<close> and \<open>commhand\<close>.

  \<open>commhand\<close> never returns, so its loop is a partial function; \<open>handle_input\<close> is the part of one
  iteration that follows the read. The chain of string comparisons is the table \<open>commands\<close>, walked
  in order. \<open>junk n\<close> is what the stack holds in an uninitialised local array of \<open>n\<close> bytes, \<open>entry\<close>
  gives the addresses of the R3 processes (1 to 5) and of \<open>alarm\<close> (0).
\<close>

section \<open>Model\<close>

fun say_all :: "'a kern_scheme trap \<Rightarrow> string list \<Rightarrow> 'a kern_scheme \<Rightarrow> 'a kern_scheme checked option" where
  "say_all trap [] s = Some (Inr s)"
| "say_all trap (m # ms) s = run_then (say trap m s) (\<lambda>s. say_all trap ms s)"

definition quoted :: "string \<Rightarrow> string" where
  "quoted w = [CHR 0x27] @ w @ [CHR 0x27]"

definition help_line :: "string \<times> string \<Rightarrow> string" where
  "help_line = (\<lambda>(cmd, does). NL # ''The '' @ quoted cmd @ '' command '' @ does)"

definition help_texts :: "(string \<times> string) list" where
  "help_texts =
    [(''alarm'', ''puts a process in the blocked state and moves it to the appropriate queue.''),
     (''delete pcb'', ''removes the requested process from the queue and frees the associate memory.''),
     (''getdate'', ''retrieves the date.''),
     (''gettime'', ''retrieves the time.''),
     (''loadR3'', ''loads and queues predetermined processes.''),
     (''resumePCB'', ''unsuspends the process and moves it to the appropriate queue.''),
     (''setdate'', ''allows user to set the date.''),
     (''settime'', ''allows the user to set the time.''),
     (''setPCBpriority'', ''changes the priority of the process and moves it to the appropriate queue.''),
     (''show all'', ''shows all of the following information for all processes in any state: name, class, state, suspended status and priority.''),
     (''showPCB'', ''displays the process'' @ [CHR 0x27] @ ''s name, class, state, suspend status and priority.''),
     (''show ready'', ''shows all of the following information for all processes in the ready state: name, class, state, suspended status and priority.''),
     (''shutdown'', ''exits to the main function and requires confirmation.''),
     (''suspendPCB'', ''suspends the process and moves it to the appropriate queue.''),
     (''version'', ''prints the current version of MPX and the compilation date.'')]"

definition help_command :: "'a kern_scheme trap \<Rightarrow> 'a kern_scheme \<Rightarrow> 'a kern_scheme checked option" where
  "help_command trap s = say_all trap (map help_line help_texts) s"

text \<open>The prompt for \<open>gettime\<close> is written with the length of the prompt for \<open>getdate\<close>, which is its own.\<close>

definition menu_words :: "string list" where
  "menu_words = [''alarm'', ''deletePCB'', ''help'', ''getdate'', ''gettime'', ''loadR3'', ''resumePCB'', ''setdate'',
     ''setPCBpriority'', ''settime'', ''showall'', ''showPCB'', ''showready'', ''shutdown'', ''suspendPCB'', ''version'']"

definition menu :: "'a kern_scheme trap \<Rightarrow> 'a kern_scheme \<Rightarrow> 'a kern_scheme checked option" where
  "menu trap s = say_all trap
     ([[NL, NL] @ ''Hello! Please type one of the following from the menu.''] @
      map (\<lambda>w. NL # ''Type '' @ quoted w) menu_words @ [NL # ''Please enter a command here : '']) s"

definition version :: "'a kern_scheme trap \<Rightarrow> 'a kern_scheme \<Rightarrow> 'a kern_scheme checked option" where
  "version trap s = say trap (NL # ''The current version of MPX is: R6.'') s"

definition shutdown :: "'a kern_scheme trap \<Rightarrow> bytes \<Rightarrow> 'a kern_scheme \<Rightarrow> 'a kern_scheme checked option" where
  "shutdown trap buf s =
     run_then (say trap (NL # ''Would you like to initiate system shutdown? (yes/no): '') s) (\<lambda>s.
     run_then (serial_poll COM1 buf 10 s) (\<lambda>(shutdown_input, buf, s).
       if shutdown_input < 0 then Some (Inl Out_Of_Bounds)
       else run_then (Some (arr_set buf (nat shutdown_input) 0)) (\<lambda>buf.
       run_then (Some (first_token buf)) (\<lambda>(input, _).
         case input of None \<Rightarrow> Some (Inr s)
         | Some input \<Rightarrow>
             run_then (Some (strcmp input (c_str ''yes''))) (\<lambda>d.
               if d = 0 then
                 run_then (say trap (NL # ''Shutting down the system...'' @ [NL]) s) (\<lambda>s. exit_proc trap s)
               else say trap (NL # ''Shutdown canceled or invalid input. '' @ [NL]) s)))))"

text \<open>The chain of \<open>if (strcmp(input, ...) == 0) ... else if ...\<close>.\<close>

fun run_first ::
  "(string \<times> ('s \<Rightarrow> 's checked option)) list \<Rightarrow> ('s \<Rightarrow> 's checked option) \<Rightarrow> bytes \<Rightarrow> 's \<Rightarrow> 's checked option" where
  "run_first [] otherwise input s = otherwise s"
| "run_first ((w, f) # rest) otherwise input s =
     run_then (Some (strcmp input (c_str w))) (\<lambda>d. if d = 0 then f s else run_first rest otherwise input s)"

definition commands ::
  "'a kern_scheme trap \<Rightarrow> (nat \<Rightarrow> bytes) \<Rightarrow> (int \<Rightarrow> u32) \<Rightarrow> (string \<times> ('a kern_scheme \<Rightarrow> 'a kern_scheme checked option)) list" where
  "commands trap junk entry =
    [(''alarm'', alarm trap (junk 3) (entry 0)),
     (''deletePCB'', delete_pcb trap),
     (''getdate'', get_date trap),
     (''gettime'', (\<lambda>s. run_then (get_time trap s) (\<lambda>(_, s). Some (Inr s)))),
     (''help'', help_command trap),
     (''loadR3'', load_r3 entry),
     (''resumePCB'', resume_pcb trap),
     (''setdate'', set_date trap (junk 12)),
     (''setPCBpriority'', set_pcb_priority trap),
     (''settime'', set_time trap (junk 20) (junk 3)),
     (''showall'', show_all trap),
     (''showPCB'', show_pcb trap (junk 20) (junk 20) (junk 20)),
     (''showready'', show_ready trap),
     (''shutdown'', shutdown trap (junk 10)),
     (''suspendPCB'', suspend_pcb trap),
     (''version'', version trap)]"

definition invalid_input :: string where
  "invalid_input = NL # ''Invalid input, please try again'' @ [NL]"

definition handle_input ::
  "'a kern_scheme trap \<Rightarrow> (nat \<Rightarrow> bytes) \<Rightarrow> (int \<Rightarrow> u32) \<Rightarrow> bytes \<Rightarrow> 'a kern_scheme \<Rightarrow> 'a kern_scheme checked option" where
  "handle_input trap junk entry buf s =
     run_then (Some (first_token buf)) (\<lambda>(input, _).
       case input of None \<Rightarrow> Some (Inr s)
       | Some input \<Rightarrow> run_first (commands trap junk entry) (say trap invalid_input) input s)"

partial_function (option) commhand ::
  "'a kern_scheme trap \<Rightarrow> (nat \<Rightarrow> bytes) \<Rightarrow> (int \<Rightarrow> u32) \<Rightarrow> 'a kern_scheme \<Rightarrow> 'a kern_scheme checked option" where
  "commhand trap junk entry s =
     run_then (menu trap s) (\<lambda>s.
     run_then (sys_req trap READ COM1 (replicate 20 0) 1 s) (\<lambda>p. case p of (nread, buf, s) \<Rightarrow>
     run_then (if nread = BUFFER_OVERFLOW then say trap (''Buffer Overflow'' @ [NL]) s
               else handle_input trap junk entry buf s) (\<lambda>s.
       commhand trap junk entry s)))"

section \<open>Lemmas\<close>

text \<open>The chain of comparisons is a lookup in the table.\<close>

lemma run_first_eq:
  assumes "0 \<in> set input" "\<And>w f. (w, f) \<in> set tab \<Longrightarrow> 0 \<notin> set (map of_char w :: bytes)"
  shows "run_first tab otherwise input s =
    (case find (\<lambda>(w, f). cstring input = map of_char w) tab of Some (w, f) \<Rightarrow> f s | None \<Rightarrow> otherwise s)"
  using assms(2)
proof (induction tab)
  case (Cons a tab)
  obtain w f where a: "a = (w, f)" by (cases a)
  have w: "cstring (c_str w) = map of_char w" using Cons.prems [of w f] a by simp
  obtain d where d: "strcmp input (c_str w) = Inr d" using strcmp_total [OF assms(1), of "c_str w"] by auto
  then have "d = 0 \<longleftrightarrow> cstring input = map of_char w" using strcmp_zero_iff [OF assms(1), of "c_str w"] w by auto
  moreover have "run_first tab otherwise input s =
      (case find (\<lambda>(w, f). cstring input = map of_char w) tab of Some (w, f) \<Rightarrow> f s | None \<Rightarrow> otherwise s)"
    using Cons.prems by (intro Cons.IH) auto
  ultimately show ?case using a d by simp
qed simp

definition command_words :: "string list" where
  "command_words = [''alarm'', ''deletePCB'', ''getdate'', ''gettime'', ''help'', ''loadR3'', ''resumePCB'', ''setdate'',
     ''setPCBpriority'', ''settime'', ''showall'', ''showPCB'', ''showready'', ''shutdown'', ''suspendPCB'', ''version'']"

lemma commands_words: "map fst (commands trap junk entry) = command_words"
  by (simp add: commands_def command_words_def)

lemma command_words_plain:
  "list_all (\<lambda>w. list_all (\<lambda>c. c \<noteq> 0) (map of_char w :: bytes) \<and> 2 \<le> length w) command_words"
  by code_simp

lemma commands_plain: "(w, f) \<in> set (commands trap junk entry) \<Longrightarrow> 0 \<notin> set (map of_char w :: bytes) \<and> 2 \<le> length w"
proof -
  assume "(w, f) \<in> set (commands trap junk entry)"
  then have "w \<in> set command_words" unfolding commands_words [of trap junk entry, symmetric] by force
  then show ?thesis using command_words_plain unfolding list_all_iff by fastforce
qed

lemma run_command_eq:
  "0 \<in> set input \<Longrightarrow> run_first (commands trap junk entry) otherwise input s =
    (case find (\<lambda>(w, f). cstring input = map of_char w) (commands trap junk entry) of
       Some (w, f) \<Rightarrow> f s | None \<Rightarrow> otherwise s)"
  using commands_plain by (intro run_first_eq) blast+

lemma commhand_never: "commhand trap junk entry s \<noteq> Some (Inr t)"
proof
  assume "commhand trap junk entry s = Some (Inr t)"
  then have "\<forall>t'. Inr t \<noteq> (Inr t' :: fault + 'a kern_scheme)"
    by (rule commhand.raw_induct [rotated]) (auto simp: checked_simps split: prod.splits, blast)
  then show False by blast
qed

lemma first_token_char:
  "first_token (c # replicate n 0) =
     Inr (if c \<in> {0, 9, 10, 13, 32} then None else Some (c # replicate n 0), c # replicate n 0)" if "0 < n"
proof -
  let ?b = "c # replicate n 0" and ?s2 = "c_str [CHR 0x0A, CHR 0x0D, CHR 0x09, CHR '' '']"
  have nul: "0 \<in> set (drop 0 ?b)" using that by simp
  have cs: "cstring (drop 0 ?b) = (if c = 0 then [] else [c])" by simp
  have b1: "?b ! Suc 0 = 0" using that by simp
  show ?thesis
    using strtok_eq [OF nul, of ?s2 "Some 0" None] b1 unfolding token_delims cs first_token_def by simp
qed

lemma lookup_short:
  assumes "length xs < 2"
  shows "find (\<lambda>(w, f). xs = map of_char w) (commands trap junk entry) = None"
proof -
  have "\<not> (case p of (w, f) \<Rightarrow> xs = map of_char w)" if "p \<in> set (commands trap junk entry)" for p
  proof (cases p)
    case (Pair w f)
    then have "2 \<le> length w" using commands_plain [of w f trap junk entry] that by simp
    then show ?thesis using assms Pair by auto
  qed
  then show ?thesis by (auto simp: find_None_iff)
qed

text \<open>The first word of a line, whatever blanks surround it.\<close>

lemma first_token_word:
  fixes buf :: bytes
  defines "w \<equiv> takeWhile (\<lambda>c. c \<notin> {10, 13, 9, 32}) (dropWhile (\<lambda>c. c \<in> {10, 13, 9, 32}) (cstring buf))"
  assumes nul: "0 \<in> set buf"
  shows "if w = [] then first_token buf = Inr (None, buf)
    else \<exists>input b. first_token buf = Inr (Some input, b) \<and> cstring input = w \<and> 0 \<in> set input"
proof -
  let ?s2 = "c_str [CHR 0x0A, CHR 0x0D, CHR 0x09, CHR '' '']"
  define k where "k = length (takeWhile (\<lambda>c. c \<in> {10, 13, 9, 32}) (cstring buf))"
  have n: "0 \<in> set (drop 0 buf)" "0 \<in> set ?s2" using nul by (simp_all add: c_str_def)
  note eq = strtok_eq [OF n, of "Some 0" None, unfolded token_delims drop_0, folded w_def, folded k_def]
  note tx = strtok_token_text [OF n(1), of ?s2, unfolded token_delims drop_0, folded w_def, folded k_def]
  have in_nul: "0 \<in> set (drop k b)" if "i < length b" "k \<le> i" "b ! i = 0" for i and b :: bytes
    using that nth_mem [of "i - k" "drop k b"] by simp
  show ?thesis
  proof (cases "w = []")
    case False
    let ?e = "k + length w"
    show ?thesis
    proof (cases "buf ! ?e = 0")
      case True
      then have "first_token buf = Inr (Some (drop k buf), buf)" using eq False by (simp add: first_token_def)
      moreover have "cstring (drop k buf) = w" "0 \<in> set (drop k buf)" using tx True in_nul [of ?e buf] by simp_all
      ultimately show ?thesis using False by simp
    next
      case False
      let ?b = "buf[?e := 0]"
      have "first_token buf = Inr (Some (drop k ?b), ?b)" using eq False \<open>w \<noteq> []\<close> by (simp add: first_token_def)
      moreover have "cstring (drop k ?b) = w" "0 \<in> set (drop k ?b)" using tx in_nul [of ?e ?b] by simp_all
      ultimately show ?thesis using \<open>w \<noteq> []\<close> by simp
    qed
  qed (use eq in \<open>simp add: first_token_def\<close>)
qed

lemma find_map_of:
  "(case find (\<lambda>(w, f). xs = map of_char w) tab of Some (w, f) \<Rightarrow> g f | None \<Rightarrow> z) =
   (case map_of (map (\<lambda>(w, f). (map of_char w :: bytes, f)) tab) xs of Some f \<Rightarrow> g f | None \<Rightarrow> z)"
  by (induction tab) auto

subsection \<open>One round of the loop\<close>

text \<open>
  A request \<open>READ\<close> writes into the buffer of the caller, and no more than the length it was given: what
  \<open>sys_req\<close> promises for any kernel behind the trap (\<open>serial_read\<close> keeps it).
\<close>

definition reads_within :: "'s trap \<Rightarrow> bool" where
  "reads_within trap \<longleftrightarrow> (\<forall>dev buf n s r b t. trap READ dev buf n s = Some (Inr (r, b, t)) \<longrightarrow>
     length b = length buf \<and> drop (unat n) b = drop (unat n) buf)"

lemma one_byte_read:
  assumes "reads_within trap" "sys_req trap READ COM1 (replicate 20 0) 1 s = Some (Inr (r, b, t))"
  shows "\<exists>c. b = c # replicate 19 0"
proof -
  obtain r' b' t' where q: "trap READ COM1 (replicate 20 0) 1 s = Some (Inr (r', b', t'))"
    "(if r' = -1 then serial_poll COM1 b' 1 t' else Some (Inr (r', b', t'))) = Some (Inr (r, b, t))"
    using assms(2) by (auto simp: sys_req_def checked_simps split: if_splits)
  have "length b' = length (replicate 20 (0 :: u8)) \<and> drop (unat (1 :: u32)) b' = drop (unat (1 :: u32)) (replicate 20 0)"
    using assms(1) q(1) unfolding reads_within_def by blast
  then have "length b' = 20" "drop 1 b' = replicate 19 0" by simp_all
  then obtain c where c: "b' = c # replicate 19 0" by (cases b') simp_all
  show ?thesis
  proof (cases "r' = -1")
    case True
    then show ?thesis using q(2) c poll_one [of b' 1 0 t' "Inr (r, b, t)"] by (simp add: serial_poll_def)
  qed (use q(2) c in auto)
qed

lemma handle_one_byte:
  "handle_input trap junk entry (c # replicate 19 0) s =
     (if c \<in> {0, 9, 10, 13, 32} then Some (Inr s) else say trap invalid_input s)"
proof -
  let ?b = "c # replicate 19 0"
  have "0 \<in> set ?b" "length (cstring ?b) < 2" by simp_all
  then have "run_first (commands trap junk entry) (say trap invalid_input) ?b s = say trap invalid_input s"
    using run_command_eq [of ?b trap junk entry "say trap invalid_input" s] lookup_short [of "cstring ?b" trap junk entry]
    by (simp del: cstring_Cons)
  then show ?thesis by (simp add: handle_input_def first_token_char)
qed

section \<open>Properties\<close>

text \<open>
  C18. What a line of input does. Its first word (the first run of characters that are neither space, tab, carriage return nor
  new-line) is looked up in this table, which says for every word which function runs; any other word gets the
  error message, and a line without a word does nothing. The chain of comparisons is this lookup, and all names in it
  are different, so that their order does not matter.
\<close>

theorem handle_input_dispatch:
  assumes "0 \<in> set buf"
  shows "handle_input trap junk entry buf s =
      (let w = takeWhile (\<lambda>c. c \<notin> {10, 13, 9, 32}) (dropWhile (\<lambda>c. c \<in> {10, 13, 9, 32}) (cstring buf))
       in if w = [] then Some (Inr s)
          else case map_of
            [(map of_char ''alarm'', alarm trap (junk 3) (entry 0)),
             (map of_char ''deletePCB'', delete_pcb trap),
             (map of_char ''getdate'', get_date trap),
             (map of_char ''gettime'', (\<lambda>s. run_then (get_time trap s) (\<lambda>(_, s). Some (Inr s)))),
             (map of_char ''help'', help_command trap),
             (map of_char ''loadR3'', load_r3 entry),
             (map of_char ''resumePCB'', resume_pcb trap),
             (map of_char ''setdate'', set_date trap (junk 12)),
             (map of_char ''setPCBpriority'', set_pcb_priority trap),
             (map of_char ''settime'', set_time trap (junk 20) (junk 3)),
             (map of_char ''showall'', show_all trap),
             (map of_char ''showPCB'', show_pcb trap (junk 20) (junk 20) (junk 20)),
             (map of_char ''showready'', show_ready trap),
             (map of_char ''shutdown'', shutdown trap (junk 10)),
             (map of_char ''suspendPCB'', suspend_pcb trap),
             (map of_char ''version'', version trap)] w
          of Some f \<Rightarrow> f s | None \<Rightarrow> say trap invalid_input s) \<and>
    distinct (map fst (commands trap junk entry))"
proof -
  let ?w = "takeWhile (\<lambda>c. c \<notin> {10, 13, 9, 32}) (dropWhile (\<lambda>c. c \<in> {10, 13, 9, 32}) (cstring buf))"
  let ?tab = "map (\<lambda>(w, f). (map of_char w :: bytes, f)) (commands trap junk entry)"
  have "distinct (map fst (commands trap junk entry))" unfolding commands_words by (simp add: command_words_def)
  moreover have "handle_input trap junk entry buf s =
      (if ?w = [] then Some (Inr s) else case map_of ?tab ?w of Some f \<Rightarrow> f s | None \<Rightarrow> say trap invalid_input s)"
  proof (cases "?w = []")
    case True
    then have "first_token buf = Inr (None, buf)" using first_token_word [OF assms] by simp
    then show ?thesis using True by (simp add: handle_input_def)
  next
    case False
    then obtain input b where b: "first_token buf = Inr (Some input, b)" "cstring input = ?w" "0 \<in> set input"
      using first_token_word [OF assms] by auto
    show ?thesis
      using False run_command_eq [OF b(3), of trap junk entry "say trap invalid_input" s, unfolded b(2) find_map_of]
      by (simp add: handle_input_def b(1))
  qed
  ultimately show ?thesis unfolding Let_def commands_def list.map prod.case by blast
qed

theorem handle_input_dispatch_witness:
  "handle_input console (\<lambda>n. replicate n 0) (\<lambda>_. 0) (map of_char ''  version'' @ [13, 0] @ replicate 9 0) (kern_demo 1) =
     version console (kern_demo 1) \<and>
   handle_input console (\<lambda>n. replicate n 0) (\<lambda>_. 0) ([32, 9, 13] @ replicate 17 0) (kern_demo 1) = Some (Inr (kern_demo 1))"
proof -
  let ?j = "\<lambda>n. replicate n 0" and ?en = "\<lambda>_. 0"
  let ?b = "map of_char ''  version'' @ [13, 0] @ replicate 9 (0 :: u8)" and ?c = "[32, 9, 13] @ replicate 17 (0 :: u8)"
  have w: "takeWhile (\<lambda>c. c \<notin> {10, 13, 9, 32}) (dropWhile (\<lambda>c. c \<in> {10, 13, 9, 32}) (cstring ?b)) = map of_char ''version''"
    "takeWhile (\<lambda>c. c \<notin> {10, 13, 9, 32}) (dropWhile (\<lambda>c. c \<in> {10, 13, 9, 32}) (cstring ?c)) = []"
    by code_simp+
  have "0 \<in> set ?b" "0 \<in> set ?c" by simp_all
  then show ?thesis
    using handle_input_dispatch [of ?b console ?j ?en "kern_demo 1"] handle_input_dispatch [of ?c console ?j ?en "kern_demo 1"]
    unfolding w by (simp add: Let_def)
qed

text \<open>
  C40. \<open>commhand\<close> asks for one byte (\<open>sys_req(READ, COM1, buf, 1)\<close>), so no command can ever be run. Whatever the
  kernel does, as long as a \<open>READ\<close> writes no more than it was asked for, one round of the loop is this, from any
  state: the menu, the request for one byte into the cleared buffer, then nothing (a blank, or nothing
  read), the error message, or the message for the result \<open>BUFFER_OVERFLOW\<close>; and then the next round. The loop never ends.
\<close>

theorem commhand_one_byte:
  assumes "reads_within trap"
  shows "commhand trap junk entry s =
      run_then (menu trap s) (\<lambda>s.
      run_then (sys_req trap READ COM1 (replicate 20 0) 1 s) (\<lambda>(nread, buf, s).
      run_then (if nread = BUFFER_OVERFLOW then say trap (''Buffer Overflow'' @ [NL]) s
                else if hd buf \<in> {0, 9, 10, 13, 32} then Some (Inr s) else say trap invalid_input s) (\<lambda>s.
        commhand trap junk entry s))) \<and>
    commhand trap junk entry s \<noteq> Some (Inr t)"
proof
  show "commhand trap junk entry s \<noteq> Some (Inr t)" by (rule commhand_never)
  have "(if nread = BUFFER_OVERFLOW then say trap (''Buffer Overflow'' @ [NL]) v else handle_input trap junk entry buf v) =
      (if nread = BUFFER_OVERFLOW then say trap (''Buffer Overflow'' @ [NL]) v
       else if hd buf \<in> {0, 9, 10, 13, 32} then Some (Inr v) else say trap invalid_input v)"
    if "sys_req trap READ COM1 (replicate 20 0) 1 u = Some (Inr (nread, buf, v))" for u nread buf v
    using one_byte_read [OF assms that] by (auto simp: handle_one_byte)
  then show "commhand trap junk entry s =
      run_then (menu trap s) (\<lambda>s.
      run_then (sys_req trap READ COM1 (replicate 20 0) 1 s) (\<lambda>(nread, buf, s).
      run_then (if nread = BUFFER_OVERFLOW then say trap (''Buffer Overflow'' @ [NL]) s
                else if hd buf \<in> {0, 9, 10, 13, 32} then Some (Inr s) else say trap invalid_input s) (\<lambda>s.
        commhand trap junk entry s)))"
    by (subst commhand.simps) (intro run_then_cong, auto intro!: run_then_cong)
qed

text \<open>A user who types \<open>c\<close> whenever a byte is asked for, behind a kernel that serves every request at once.\<close>

definition typist :: "u8 \<Rightarrow> 'a machine_scheme trap" where
  "typist c oper dev buf len s =
     Some (Inr (op_num oper, if oper = READ \<and> 0 < len \<and> buf \<noteq> [] then buf[0 := c] else buf,
       emit (Request oper dev (take (unat len) buf)) s))"

lemma typist_reads: "reads_within (typist c)"
  by (auto simp: reads_within_def typist_def word_gt_0 unat_gt_0)

lemma typist_say:
  "length m < 2 ^ 32 \<Longrightarrow> say (typist c) m s = Some (Inr (emit (Request WRITE COM1 (map of_char m)) s))"
  by (simp add: say_def write_bytes_def sys_req_def typist_def unat_of_nat32) (simp add: c_str_def)

lemma typist_say_all:
  "\<forall>m \<in> set ms. length m < 2 ^ 32 \<Longrightarrow>
   say_all (typist c) ms s = Some (Inr (s\<lparr>trace := trace s @ map (\<lambda>m. Request WRITE COM1 (map of_char m)) ms\<rparr>))"
  by (induction ms arbitrary: s) (simp_all add: typist_say emit_def)

theorem commhand_one_byte_witness:
  "\<exists>t. commhand (typist 118) (\<lambda>n. replicate n 0) (\<lambda>_. 0) (kern_demo 1) = commhand (typist 118) (\<lambda>n. replicate n 0) (\<lambda>_. 0) t \<and>
     last (trace t) = Request WRITE COM1 (map of_char invalid_input)"
proof -
  let ?r = "run_then (menu (typist 118) (kern_demo 1)) (\<lambda>s.
      run_then (sys_req (typist 118) READ COM1 (replicate 20 0) 1 s) (\<lambda>(nread, buf, s).
      run_then (if nread = BUFFER_OVERFLOW then say (typist 118) (''Buffer Overflow'' @ [NL]) s
                else if hd buf \<in> {0, 9, 10, 13, 32} then Some (Inr s) else say (typist 118) invalid_input s) (\<lambda>s.
        commhand (typist 118) (\<lambda>n. replicate n 0) (\<lambda>_. 0) s)))"
  have c: "commhand (typist 118) (\<lambda>n. replicate n 0) (\<lambda>_. 0) (kern_demo 1) = ?r"
    using commhand_one_byte [OF typist_reads] by blast
  let ?ms = "[[NL, NL] @ ''Hello! Please type one of the following from the menu.''] @
      map (\<lambda>w. NL # ''Type '' @ quoted w) menu_words @ [NL # ''Please enter a command here : '']"
  have "\<forall>m \<in> set ?ms. length m < 2 ^ 32" by (simp add: menu_words_def quoted_def)
  then obtain s where s: "menu (typist 118) (kern_demo 1) = Some (Inr s)"
    using typist_say_all [of ?ms 118 "kern_demo 1"] unfolding menu_def by blast
  let ?s = "emit (Request READ COM1 [0]) s"
  have rd: "sys_req (typist 118) READ COM1 (replicate 20 0) 1 s = Some (Inr (2, (replicate 20 0)[0 := 118], ?s))"
    by (simp add: sys_req_def typist_def)
  have say: "say (typist 118) invalid_input ?s = Some (Inr (emit (Request WRITE COM1 (map of_char invalid_input)) ?s))"
    by (rule typist_say) (simp add: invalid_input_def)
  have h: "hd ((replicate 20 0)[0 := 118 :: u8]) = 118" by (simp add: numeral_eq_Suc)
  have "?r = commhand (typist 118) (\<lambda>n. replicate n 0) (\<lambda>_. 0) (emit (Request WRITE COM1 (map of_char invalid_input)) ?s)"
    unfolding s run_then.simps rd prod.case h by (simp add: say)
  then show ?thesis unfolding c by (intro exI [of _ "emit (Request WRITE COM1 (map of_char invalid_input)) ?s"]) simp
qed

end
