(* ===== verification/Paging_Init.thy ===== *)
theory Paging_Init
  imports Virtual_Memory
begin

text \<open>
  What \<open>vm_init\<close> of \<open>src/kernel/core-c.c\<close> builds: the address space the kernel runs in once paging is
  on. \<open>translate\<close> is the page walk of the processor: from \<open>cr3\<close> to the word of the directory the
  processor finds there, from that word to a page table, from the table to a frame. It never uses the kernel's own
  pointers to the tables (\<open>dir_tables\<close>), nor \<open>get_page\<close>: it is the specification against which the loops
  of \<open>vm_init\<close> are proved.

  The kernel does not clear the page tables it allocates, so the result depends on memory that starts as
  zeros (\<open>fresh_vm\<close>); the kernel image ends below 3 MB, so that one table maps all of it.
\<close>

section \<open>The page walk\<close>

text \<open>
  The word at a physical address in the page directory structure: first come the kernel's pointers to the tables,
  one page further the entries meant for the processor. (What lies outside is not known.)
\<close>

definition dir_word :: "'a vm_scheme \<Rightarrow> u32 \<Rightarrow> u32 option" where
  "dir_word s a =
     (let w = unat (a - kdir s) div 4
      in if w < 1024 then Some (dir_tables (kdir_mem s) w)
         else if w < 2048 then Some (tables_phys (kdir_mem s) (w - 1024)) else None)"

text \<open>
  The walk: bits 22 to 31 of the address index the directory at \<open>cr3\<close>, bits 12 to 21 the table; bit 0 of an
  entry is its present bit, bits 12 to 31 are the frame. Before paging is on an address is a physical address.
\<close>

definition translate :: "'a vm_scheme \<Rightarrow> u32 \<Rightarrow> u32 option" where
  "translate s a =
     (case cr3 s of
        None \<Rightarrow> Some a
      | Some c \<Rightarrow>
          (case dir_word s ((c AND 0xFFFFF000) + 4 * drop_bit 22 a) of
             None \<Rightarrow> None
           | Some d \<Rightarrow>
               if \<not> bit d 0 then None
               else
                 let e = page_tables s (d AND 0xFFFFF000) (unat (take_bit 10 (drop_bit 12 a)))
                 in if present e then Some (ucast (frameaddr e) * 0x1000 + take_bit 12 a) else None))"

text \<open>The state the boot loader leaves: nothing mapped, no frame used, memory cleared.\<close>

definition fresh_vm :: "'a vm_scheme \<Rightarrow> bool" where
  "fresh_vm s \<longleftrightarrow> \<not> heap_is_initialized s \<and> heap_addr s = KHEAP_BASE \<and> bitmap_ok s \<and> used_frames s = {} \<and>
     (\<forall>t i. page_tables s t i = zero_entry) \<and> 0x1000 \<le> unat (phys_alloc_addr s) \<and> unat (phys_alloc_addr s) < 0x300000"

section \<open>Lemmas\<close>

subsection \<open>Addresses and pages\<close>

lemma unat_of_nat_below: "x < 2 ^ 32 \<Longrightarrow> unat (of_nat x :: u32) = x"
  by (simp add: unat_of_nat take_bit_eq_mod)

lemma unat_32: "unat (a :: u32) < 2 ^ 32"
  using unsigned_less [of a, where 'a = nat] by simp

lemma page_floor: "(a :: u32) AND 0xFFFFF000 = of_nat (unat a div 4096 * 4096)"
proof -
  have n: "(0xFFFFF000 :: u32) = NOT (mask 12)" by (simp add: mask_eq_decr_exp)
  have "unat (drop_bit 12 a) = unat a div 4096" by (simp add: drop_bit_eq_div unat_div)
  then have "drop_bit 12 a = (of_nat (unat a div 4096) :: u32)" by (metis of_nat_unat ucast_id)
  then have "push_bit 12 (drop_bit 12 a) = of_nat (unat a div 4096 * 4096)"
    by (simp add: push_bit_eq_mult)
  then show ?thesis unfolding n and_not_mask .
qed

lemma page_parts:
  assumes "x < 2 ^ 32"
  shows "page_index (of_nat x) = x div 4096 div 1024" "page_offset (of_nat x) = x div 4096 mod 1024"
  using assms by (simp_all add: page_index_def page_offset_def unat_div unat_mod unat_of_nat_below)

lemma page_low: "(of_nat (4096 * k + r) :: u32) AND 0xFFF = of_nat r" if "r < 4096"
proof -
  have m: "x AND 0xFFF = take_bit 12 x" for x :: u32 by (simp add: take_bit_eq_mask mask_eq_decr_exp)
  have "take_bit 12 (of_nat (4096 * k + r) :: u32) = of_nat (take_bit 12 (4096 * k + r))"
    by (rule take_bit_of_nat)
  moreover have "take_bit 12 (4096 * k + r) = r" using that by (simp add: take_bit_eq_mod)
  ultimately show ?thesis unfolding m by metis
qed

lemma kmalloc_aligned:
  assumes "\<not> heap_is_initialized s" "phys_alloc_addr s = of_nat x" "4096 \<le> x" "x < 2 ^ 31"
  shows "kmalloc sz True w s = Inr ((of_nat ((x div 4096 + 1) * 4096), if w then Some (of_nat ((x div 4096 + 1) * 4096)) else None),
     s\<lparr>phys_alloc_addr := of_nat ((x div 4096 + 1) * 4096) + sz\<rparr>)"
proof -
  have u: "unat (of_nat x :: u32) = x" using assms(4) by (intro unat_of_nat_below) simp
  have "unat (of_nat (x div 4096 * 4096) :: u32) = x div 4096 * 4096" using assms(4) by (intro unat_of_nat_below) simp
  moreover have "x div 4096 * 4096 \<noteq> 0" using assms(3) by simp
  ultimately have "(of_nat x :: u32) AND 0xFFFFF000 \<noteq> 0" unfolding page_floor u by (metis unat_0)
  then show ?thesis using assms(1,2) page_floor [of "of_nat x"] u by (simp add: kmalloc_def Let_def)
qed

subsection \<open>Mapping one page\<close>

definition mapped :: "'a vm_scheme \<Rightarrow> u32 \<Rightarrow> nat \<Rightarrow> nat \<Rightarrow> bool" where
  "mapped s t i f \<longleftrightarrow> present (page_tables s t i) \<and> writeable (page_tables s t i) \<and> \<not> usermode (page_tables s t i) \<and>
     unat (frameaddr (page_tables s t i)) = f"

text \<open>Only the frame bitmap and the page tables differ.\<close>

definition same_but_pages :: "'a vm_scheme \<Rightarrow> 'a vm_scheme \<Rightarrow> bool" where
  "same_but_pages s t \<longleftrightarrow> t = s\<lparr>frames := frames t, page_tables := page_tables t\<rparr>"

lemma same_but_pages_refl [simp]: "same_but_pages s s"
  unfolding same_but_pages_def by simp

lemma same_but_pages_trans: "same_but_pages s t \<Longrightarrow> same_but_pages t u \<Longrightarrow> same_but_pages s u"
  unfolding same_but_pages_def by (cases s; cases t; cases u) simp

lemma same_but_pagesD:
  assumes "same_but_pages s t"
  shows "kdir_mem t = kdir_mem s" "phys_alloc_addr t = phys_alloc_addr s" "kdir t = kdir s"
    "heap_addr t = heap_addr s" "heap_is_initialized t = heap_is_initialized s" "find_page a t = find_page a s"
  using arg_cong [OF assms [unfolded same_but_pages_def], of kdir_mem]
    arg_cong [OF assms [unfolded same_but_pages_def], of phys_alloc_addr]
    arg_cong [OF assms [unfolded same_but_pages_def], of kdir]
    arg_cong [OF assms [unfolded same_but_pages_def], of heap_addr]
    arg_cong [OF assms [unfolded same_but_pages_def], of heap_is_initialized]
  by (simp_all add: find_page_def)

lemma new_frame_same: "new_frame p s = Inr t \<Longrightarrow> same_but_pages s t"
  by (auto simp: new_frame_def same_but_pages_def set_bit_frame_def upd_page_def Let_def checked_simps
      split: option.splits if_splits)

lemma map_page:
  assumes "find_page a s = Some (t, i)" "bitmap_ok s" "used_frames s = {..<k}" "k < NFRAMES"
    "frameaddr (page_tables s t i) = 0"
  shows "\<exists>s'. and_then (get_page a True s) (\<lambda>(p, s). new_frame p s) = Inr s' \<and> same_but_pages s s' \<and>
    bitmap_ok s' \<and> used_frames s' = {..<Suc k} \<and> mapped s' t i k \<and>
    (\<forall>t' i'. (t', i') \<noteq> (t, i) \<longrightarrow> page_tables s' t' i' = page_tables s t' i')"
proof -
  have "used_frames s \<noteq> {..<NFRAMES}" using assms(3,4) by auto
  then obtain f s' where s': "new_frame (Some (t, i)) s = Inr s'" "bitmap_ok s'" "f \<notin> used_frames s"
    "\<forall>g<f. g \<in> used_frames s" "used_frames s' = insert f (used_frames s)"
    "present (page_tables s' t i)" "writeable (page_tables s' t i)" "\<not> usermode (page_tables s' t i)"
    "unat (frameaddr (page_tables s' t i)) = f"
    "\<forall>t' i'. (t', i') \<noteq> (t, i) \<longrightarrow> page_tables s' t' i' = page_tables s t' i'"
    using new_frame_eq [OF assms(2) _ assms(5)] by blast
  have "f \<notin> {..<k}" "k < f \<Longrightarrow> k \<in> {..<k}" using s'(3,4) assms(3) by blast+
  then have "k \<le> f" "\<not> k < f" by (simp, blast)
  then have "f = k" by simp
  then show ?thesis using s' assms(1,3) new_frame_same [OF s'(1)]
    by (simp add: get_page_def mapped_def lessThan_Suc)
qed

subsection \<open>The loops\<close>

lemma touch_pages_present:
  "(\<And>j. j < n \<Longrightarrow> find_page (i + of_nat j) s \<noteq> None) \<Longrightarrow> touch_pages n i s = Inr s"
proof (induction n arbitrary: i)
  case (Suc n)
  have "find_page i s \<noteq> None" using Suc.prems [of 0] by simp
  moreover have "touch_pages n (i + 1) s = Inr s"
  proof (rule Suc.IH)
    fix j assume "j < n"
    then show "find_page (i + 1 + of_nat j) s \<noteq> None" using Suc.prems [of "Suc j"] by (simp add: algebra_simps)
  qed
  ultimately show ?case by (auto simp: get_page_def)
qed simp

text \<open>The pages \<open>k\<close> to \<open>n - 1\<close> of the table \<open>t\<close> get the frames from \<open>f\<close> on.\<close>

definition maps_run :: "'a vm_scheme \<Rightarrow> u32 \<Rightarrow> nat \<Rightarrow> nat \<Rightarrow> nat \<Rightarrow> 'a vm_scheme \<Rightarrow> bool" where
  "maps_run s t k n f s' \<longleftrightarrow> same_but_pages s s' \<and> bitmap_ok s' \<and> used_frames s' = {..<f + (n - k)} \<and>
     (\<forall>j. k \<le> j \<and> j < n \<longrightarrow> mapped s' t j (f + (j - k))) \<and>
     (\<forall>t' j. \<not> (t' = t \<and> k \<le> j \<and> j < n) \<longrightarrow> page_tables s' t' j = page_tables s t' j)"

lemma maps_run_refl:
  assumes "bitmap_ok s" "used_frames s = {..<f}"
  shows "maps_run s t k k f s"
  unfolding maps_run_def
proof (intro conjI allI impI)
  show "mapped s t j (f + (j - k))" if "k \<le> j \<and> j < k" for j using that by (meson leD)
qed (use assms in simp_all)

lemma maps_run_step:
  assumes "same_but_pages s u" "used_frames u = {..<Suc f}" "mapped u t k f"
    "\<forall>t' i'. (t', i') \<noteq> (t, k) \<longrightarrow> page_tables u t' i' = page_tables s t' i'"
    and run: "maps_run u t (Suc k) n (Suc f) s'" and "k < n"
  shows "maps_run s t k n f s'"
proof -
  have m: "mapped s' t k f" using run assms(3) by (simp add: maps_run_def mapped_def)
  have "mapped s' t j (f + (j - k))" if "k \<le> j" "j < n" for j
  proof (cases "j = k")
    case False
    then have "mapped s' t j (Suc f + (j - Suc k))" using run that by (simp add: maps_run_def)
    moreover have "Suc f + (j - Suc k) = f + (j - k)" using that False by simp
    ultimately show ?thesis by metis
  qed (use m in simp)
  moreover have "page_tables s' t' j = page_tables s t' j" if "\<not> (t' = t \<and> k \<le> j \<and> j < n)" for t' j
  proof -
    have "(t', j) \<noteq> (t, k)" "\<not> (t' = t \<and> Suc k \<le> j \<and> j < n)" using that assms(6) by auto
    then have "page_tables s' t' j = page_tables u t' j" using run unfolding maps_run_def by simp
    then show ?thesis using assms(4) \<open>(t', j) \<noteq> (t, k)\<close> by simp
  qed
  moreover have "Suc f + (n - Suc k) = f + (n - k)" using \<open>k < n\<close> by simp
  then have "used_frames s' = {..<f + (n - k)}" using run by (metis maps_run_def)
  moreover have "same_but_pages s s'" "bitmap_ok s'"
    using run same_but_pages_trans [OF assms(1)] unfolding maps_run_def by blast+
  ultimately show ?thesis unfolding maps_run_def by blast
qed

lemma map_heap_run:
  assumes "bitmap_ok s" "used_frames s = {..<f}" "f + n \<le> NFRAMES"
    "\<And>j. j < n \<Longrightarrow> find_page (a + of_nat j * 0x1000) s = Some (t, k + j)"
    "\<And>j. k \<le> j \<Longrightarrow> j < k + n \<Longrightarrow> frameaddr (page_tables s t j) = 0"
  shows "\<exists>s'. map_heap n a s = Inr s' \<and> maps_run s t k (k + n) f s'"
  using assms
proof (induction n arbitrary: a k f s)
  case 0
  then show ?case using maps_run_refl [OF "0.prems"(1,2)] by simp
next
  case (Suc n)
  have p: "find_page a s = Some (t, k)" using Suc.prems(4) [of 0] by simp
  obtain u where u: "and_then (get_page a True s) (\<lambda>(p, s). new_frame p s) = Inr u" "same_but_pages s u"
    "bitmap_ok u" "used_frames u = {..<Suc f}" "mapped u t k f"
    "\<forall>t' i'. (t', i') \<noteq> (t, k) \<longrightarrow> page_tables u t' i' = page_tables s t' i'"
    using map_page [OF p Suc.prems(1,2)] Suc.prems(3,5) by auto
  have "\<exists>s'. map_heap n (a + 0x1000) u = Inr s' \<and> maps_run u t (Suc k) (Suc k + n) (Suc f) s'"
  proof (rule Suc.IH [OF u(3,4)])
    show "Suc f + n \<le> NFRAMES" using Suc.prems(3) by simp
    fix j assume "j < n"
    then show "find_page (a + 0x1000 + of_nat j * 0x1000) u = Some (t, Suc k + j)"
      using Suc.prems(4) [of "Suc j"] same_but_pagesD(6) [OF u(2)] by (simp add: algebra_simps)
  next
    fix j assume "Suc k \<le> j" "j < Suc k + n"
    then show "frameaddr (page_tables u t j) = 0" using u(6) Suc.prems(5) [of j] by auto
  qed
  then obtain s' where s': "map_heap n (a + 0x1000) u = Inr s'" "maps_run u t (Suc k) (k + Suc n) (Suc f) s'"
    by auto
  show ?case using s'(1) u(1) maps_run_step [OF u(2,4,5,6) s'(2)] by auto
qed

lemma identity_map_run:
  assumes "k \<le> n" "phys_alloc_addr s + 0x10000 = of_nat (4096 * n)" "n \<le> 1024"
    "bitmap_ok s" "used_frames s = {..<k}" "dir_tables (kdir_mem s) 0 = t" "t \<noteq> NULL"
    "\<And>j. k \<le> j \<Longrightarrow> j < n \<Longrightarrow> frameaddr (page_tables s t j) = 0"
  shows "\<exists>s'. identity_map (of_nat (4096 * k)) s = Some (Inr s') \<and> maps_run s t k n k s'"
  using assms
proof (induction "n - k" arbitrary: k s)
  case 0
  then have kn: "k = n" by simp
  have "\<not> of_nat (4096 * k) < phys_alloc_addr s + 0x10000" unfolding "0.prems"(2) kn by (rule less_irrefl)
  then have "identity_map (of_nat (4096 * k)) s = Some (Inr s)" by (subst identity_map.simps) (simp only: if_False)
  moreover have "maps_run s t k n k s" using maps_run_refl "0.prems"(4,5) unfolding kn by blast
  ultimately show ?case by blast
next
  case (Suc m)
  have kn: "k < n" using Suc.hyps(2) by simp
  have b: "4096 * k < 2 ^ 32" "4096 * n < 2 ^ 32" using kn Suc.prems(3) by simp_all
  have "k div 1024 = 0" "k mod 1024 = k" using kn Suc.prems(3) by simp_all
  then have "find_page (of_nat (4096 * k)) s = Some (t, k)"
    using page_parts [OF b(1)] Suc.prems(6,7) by (simp add: find_page_def Let_def)
  moreover have "k < NFRAMES" "frameaddr (page_tables s t k) = 0" using kn Suc.prems(3,8) by simp_all
  ultimately obtain u where u: "and_then (get_page (of_nat (4096 * k)) True s) (\<lambda>(p, s). new_frame p s) = Inr u"
    "same_but_pages s u" "bitmap_ok u" "used_frames u = {..<Suc k}" "mapped u t k k"
    "\<forall>t' i'. (t', i') \<noteq> (t, k) \<longrightarrow> page_tables u t' i' = page_tables s t' i'"
    using map_page [of "of_nat (4096 * k)" s t k k] Suc.prems(4,5) by auto
  note d = same_but_pagesD [OF u(2)]
  have "\<exists>s'. identity_map (of_nat (4096 * Suc k)) u = Some (Inr s') \<and> maps_run u t (Suc k) n (Suc k) s'"
  proof (rule Suc.hyps(1))
    show "m = n - Suc k" "Suc k \<le> n" using Suc.hyps(2) by simp_all
    show "phys_alloc_addr u + 0x10000 = of_nat (4096 * n)" "dir_tables (kdir_mem u) 0 = t"
      using d Suc.prems(2,6) by simp_all
    show "frameaddr (page_tables u t j) = 0" if "Suc k \<le> j" "j < n" for j
      using u(6) Suc.prems(8) [of j] that by auto
  qed (use u Suc.prems in simp_all)
  then obtain s' where s': "identity_map (of_nat (4096 * Suc k)) u = Some (Inr s')" "maps_run u t (Suc k) n (Suc k) s'"
    by blast
  have "(of_nat (4096 * k) :: u32) < of_nat (4096 * n)"
    using kn unat_of_nat_below [OF b(1)] unat_of_nat_below [OF b(2)] by (simp only: word_less_nat_alt)
  then have lt: "of_nat (4096 * k) < phys_alloc_addr s + 0x10000" using Suc.prems(2) by simp
  have "identity_map (of_nat (4096 * k)) s = identity_map (of_nat (4096 * Suc k)) u"
    using lt u(1) by (subst identity_map.simps) (simp add: algebra_simps)
  then show ?case using s'(1) maps_run_step [OF u(2,4,5,6) s'(2) kn] by auto
qed

subsection \<open>vm_init\<close>

definition page_aligned :: "u32 \<Rightarrow> bool" where
  "page_aligned t \<longleftrightarrow> (\<exists>j < 0xFFFF. t = of_nat (4096 * j))"

text \<open>Paging is on and \<open>cr3\<close> points to the second half of the page directory.\<close>

definition paging_on :: "'a vm_scheme \<Rightarrow> bool" where
  "paging_on s \<longleftrightarrow> cr3 s = Some (kdir s + 4096) \<and> page_aligned (kdir s)"

lemma unat_small: "d < 0x10000 \<Longrightarrow> unat (of_nat (4096 * d) :: u32) = 4096 * d"
  by (intro unat_of_nat_below) simp

text \<open>The directory entry \<open>get_page\<close> writes for a table, as the processor reads it.\<close>

lemma table_word:
  assumes "page_aligned t"
  shows "bit (t OR 7) 0" "(t OR 7) AND 0xFFFFF000 = t"
proof -
  obtain j where "t = of_nat (4096 * j)" using assms by (auto simp: page_aligned_def)
  then have t: "t = push_bit 12 (of_nat j)" by (simp add: push_bit_eq_mult)
  have n: "(0xFFFFF000 :: u32) = NOT (mask 12)" and m: "(7 :: u32) = mask 3" by (simp_all add: mask_eq_decr_exp)
  show "bit (t OR 7) 0" unfolding m by (simp add: bit_simps)
  show "(t OR 7) AND 0xFFFFF000 = t" unfolding n m t by (rule bit_word_eqI) (auto simp: bit_simps)
qed

lemma dir_word_cr3:
  assumes "page_aligned (kdir s)"
  shows "dir_word s ((kdir s + 4096 AND 0xFFFFF000) + 4 * drop_bit 22 a) = Some (tables_phys (kdir_mem s) (unat a div 4096 div 1024))"
proof -
  obtain j where j: "j < 0xFFFF" "kdir s = of_nat (4096 * j)" using assms by (auto simp: page_aligned_def)
  have k: "kdir s + 4096 = of_nat (4096 * (j + 1))" using j(2) by simp
  have u: "unat (kdir s + 4096) = 4096 * (j + 1)" unfolding k using j(1) by (intro unat_small) simp
  have "4096 * (j + 1) div 4096 * 4096 = 4096 * (j + 1)" by simp
  then have f: "kdir s + 4096 AND 0xFFFFF000 = kdir s + 4096" unfolding page_floor u using k by metis
  define i where "i = unat a div 4096 div 1024"
  have i: "i < 1024" using unat_32 [of a] unfolding i_def by (simp add: div_less_iff_less_mult)
  have "unat (drop_bit 22 a) = i" unfolding i_def by (simp add: drop_bit_eq_div unat_div div_mult2_eq [symmetric])
  then have "drop_bit 22 a = of_nat i" by (metis of_nat_unat ucast_id)
  then have "(kdir s + 4096 AND 0xFFFFF000) + 4 * drop_bit 22 a - kdir s = of_nat (4096 + 4 * i)" unfolding f by simp
  moreover have "unat (of_nat (4096 + 4 * i) :: u32) = 4096 + 4 * i" using i by (intro unat_of_nat_below) simp
  moreover have "(4096 + 4 * i) div 4 = 1024 + i" by simp
  ultimately have w: "unat ((kdir s + 4096 AND 0xFFFFF000) + 4 * drop_bit 22 a - kdir s) div 4 = 1024 + i" by simp
  show ?thesis unfolding dir_word_def w Let_def using i by (simp add: i_def)
qed

lemma translate_walk:
  assumes "paging_on s" "unat a div 4096 div 1024 = d" "unat a div 4096 mod 1024 = j"
  shows "tables_phys (kdir_mem s) d = 0 \<Longrightarrow> translate s a = None"
    "tables_phys (kdir_mem s) d = t OR 7 \<Longrightarrow> page_aligned t \<Longrightarrow> translate s a =
      (if present (page_tables s t j) then Some (ucast (frameaddr (page_tables s t j)) * 0x1000 + of_nat (unat a mod 4096)) else None)"
proof -
  note w = dir_word_cr3 [of s a, unfolded assms(2)]
  have c: "cr3 s = Some (kdir s + 4096)" "page_aligned (kdir s)" using assms(1) by (simp_all add: paging_on_def)
  show "translate s a = None" if "tables_phys (kdir_mem s) d = 0"
    using w [OF c(2)] c(1) that by (simp add: translate_def)
  have "unat (take_bit 10 (drop_bit 12 a)) = j"
    using assms(3) by (simp add: unsigned_take_bit_eq take_bit_eq_mod drop_bit_eq_div unat_div unat_mod)
  moreover have "take_bit 12 a = of_nat (unat a mod 4096)"
  proof -
    have "take_bit 12 (of_nat (unat a) :: u32) = of_nat (take_bit 12 (unat a))" by (rule take_bit_of_nat)
    moreover have "take_bit 12 (unat a) = unat a mod 4096" by (simp add: take_bit_eq_mod)
    ultimately show ?thesis by (metis of_nat_unat ucast_id)
  qed
  ultimately show "translate s a =
      (if present (page_tables s t j) then Some (ucast (frameaddr (page_tables s t j)) * 0x1000 + of_nat (unat a mod 4096)) else None)"
    if "tables_phys (kdir_mem s) d = t OR 7" "page_aligned t"
    using w [OF c(2)] c(1) that table_word [OF that(2)] by (simp add: translate_def Let_def)
qed

text \<open>The address space at the end: the tables \<open>t0\<close> and \<open>t1\<close>, \<open>n\<close> pages of identity mapping, the heap behind.\<close>

definition space :: "'a vm_scheme \<Rightarrow> u32 \<Rightarrow> u32 \<Rightarrow> nat \<Rightarrow> bool" where
  "space s t0 t1 n \<longleftrightarrow> paging_on s \<and> page_aligned t0 \<and> page_aligned t1 \<and> n \<le> 1024 \<and>
     tables_phys (kdir_mem s) = (\<lambda>_. 0)(52 := t1 OR 7, 0 := t0 OR 7) \<and>
     (\<forall>j. if 0 < j \<and> j < n then mapped s t0 j j else page_tables s t0 j = zero_entry) \<and>
     (\<forall>j. if j < 16 then mapped s t1 j (n + j) else page_tables s t1 j = zero_entry)"

lemma translate_entry:
  assumes "paging_on s" "unat a div 4096 div 1024 = d" "unat a div 4096 mod 1024 = j"
    "tables_phys (kdir_mem s) d = t OR 7" "page_aligned t"
  shows "mapped s t j f \<Longrightarrow> translate s a = Some (of_nat (4096 * f + unat a mod 4096))"
    "page_tables s t j = zero_entry \<Longrightarrow> translate s a = None"
proof -
  note w = translate_walk(2) [OF assms]
  show "translate s a = None" if "page_tables s t j = zero_entry" using w that by (simp add: zero_entry_def)
  show "translate s a = Some (of_nat (4096 * f + unat a mod 4096))" if m: "mapped s t j f"
  proof -
    have "(ucast (frameaddr (page_tables s t j)) :: u32) = of_nat f" using m unfolding mapped_def by (metis of_nat_unat)
    then show ?thesis using w m by (simp add: mapped_def mult.commute)
  qed
qed

lemma translate_space:
  assumes "space s t0 t1 n"
  shows "translate s a =
    (if unat a < 0x1000 then None
     else if unat a < 4096 * n then Some a
     else if KHEAP_BASE \<le> a \<and> a < KHEAP_BASE + KHEAP_SIZE then Some (of_nat (4096 * n) + (a - KHEAP_BASE))
     else None)"
proof -
  define q where "q = unat a div 4096"
  have a: "unat a = 4096 * q + unat a mod 4096" unfolding q_def by simp
  have m: "unat a mod 4096 < 4096" by simp
  have n: "n \<le> 1024" and p: "paging_on s" and t: "page_aligned t0" "page_aligned t1"
    and d: "tables_phys (kdir_mem s) = (\<lambda>_. 0)(52 := t1 OR 7, 0 := t0 OR 7)"
    and e0: "\<And>j. if 0 < j \<and> j < n then mapped s t0 j j else page_tables s t0 j = zero_entry"
    and e1: "\<And>j. if j < 16 then mapped s t1 j (n + j) else page_tables s t1 j = zero_entry"
    using assms unfolding space_def by blast+
  have w: "of_nat (4096 * q + unat a mod 4096) = a" using a by (metis of_nat_unat ucast_id)
  have lo: "unat a < 0x1000 \<longleftrightarrow> q = 0" "unat a < 4096 * n \<longleftrightarrow> q < n"
    unfolding q_def by (simp_all add: div_eq_0_iff less_mult_imp_div_less) (metis div_less_iff_less_mult mult.commute zero_less_numeral)
  have h: "KHEAP_BASE \<le> a \<and> a < KHEAP_BASE + KHEAP_SIZE \<longleftrightarrow> 0xD000 \<le> q \<and> q < 0xD010"
    unfolding word_le_nat_alt word_less_nat_alt using a m by simp linarith
  consider "q div 1024 = 0" | "q div 1024 = 52" | "q div 1024 \<noteq> 0" "q div 1024 \<noteq> 52" by blast
  then show ?thesis
  proof cases
    case 1
    then have q: "q < 1024" "q mod 1024 = q" by auto
    have i: "unat a div 4096 div 1024 = 0" "unat a div 4096 mod 1024 = q" using 1 q unfolding q_def by simp_all
    have "tables_phys (kdir_mem s) 0 = t0 OR 7" using d by simp
    note tr = translate_entry [OF p i this t(1)]
    have "translate s a = (if 0 < q \<and> q < n then Some a else None)"
      using e0 [of q] tr(1) [of q] tr(2) w by (cases "0 < q \<and> q < n") simp_all
    then show ?thesis unfolding lo h using q(1) by simp
  next
    case 2
    then have q: "q \<ge> 0xD000" "q < 0xD400" "q mod 1024 = q - 0xD000" 
      using div_mult_mod_eq [of q 1024] mod_less_divisor [of 1024 q] by linarith+
    have i: "unat a div 4096 div 1024 = 52" "unat a div 4096 mod 1024 = q - 0xD000" using 2 q(3) unfolding q_def by simp_all
    have "tables_phys (kdir_mem s) 52 = t1 OR 7" using d by simp
    note tr = translate_entry [OF p i this t(2)]
    have "(of_nat (4096 * (n + (q - 0xD000)) + unat a mod 4096) :: u32) = of_nat (4096 * n) + (a - KHEAP_BASE)"
    proof -
      have "4096 * (n + (q - 0xD000)) + unat a mod 4096 = 4096 * n + (unat a - 0xD000000)" using a q(1) by simp
      moreover have "a - KHEAP_BASE = of_nat (unat a - 0xD000000)"
        using of_nat_diff [of "0xD000000" "unat a", where ?'a = u32] a q(1) by simp
      ultimately show ?thesis by (simp only: of_nat_add)
    qed
    then have "translate s a = (if q - 0xD000 < 16 then Some (of_nat (4096 * n) + (a - KHEAP_BASE)) else None)"
      using e1 [of "q - 0xD000"] tr(1) [of "n + (q - 0xD000)"] tr(2) by (cases "q - 0xD000 < 16") simp_all
    moreover have "q - 0xD000 < 16 \<longleftrightarrow> q < 0xD010" using q(1) by linarith
    ultimately show ?thesis unfolding lo h using q(1) n by simp
  next
    case 3
    have "tables_phys (kdir_mem s) (unat a div 4096 div 1024) = 0" using 3 d unfolding q_def by simp
    then have "translate s a = None" by (rule translate_walk(1) [OF p refl refl])
    moreover have "\<not> q < n" "\<not> (0xD000 \<le> q \<and> q < 0xD010)" using 3 n by auto
    ultimately show ?thesis using lo h by simp
  qed
qed

lemma get_page_creates:
  assumes "\<not> heap_is_initialized s" "phys_alloc_addr s = of_nat (4096 * d)" "1 \<le> d" "d < 0x1000"
    "dir_tables (kdir_mem s) (page_index a) = NULL"
  shows "\<exists>dr. get_page a True s = Inr (Some (of_nat (4096 * (d + 1)), page_offset a),
      s\<lparr>phys_alloc_addr := of_nat (4096 * (d + 2)), kdir_mem := dr\<rparr>) \<and>
    dir_tables dr = (dir_tables (kdir_mem s))(page_index a := of_nat (4096 * (d + 1))) \<and>
    tables_phys dr = (tables_phys (kdir_mem s))(page_index a := of_nat (4096 * (d + 1)) OR 7)"
proof -
  have "4096 \<le> 4096 * d" "4096 * d < 2 ^ 31" using assms(3,4) by simp_all
  note k = kmalloc_aligned [OF assms(1,2) this, of 4096 True]
  have "(4096 * d div 4096 + 1) * 4096 = 4096 * (d + 1)" by simp
  note k = k [unfolded this]
  have "(of_nat (4096 * (d + 1)) + 4096 :: u32) = of_nat (4096 * (d + 2))" by simp
  then show ?thesis using k assms(5)
    by (intro exI [of _ "(kdir_mem s)\<lparr>dir_tables := (dir_tables (kdir_mem s))(page_index a := of_nat (4096 * (d + 1))),
          tables_phys := (tables_phys (kdir_mem s))(page_index a := of_nat (4096 * (d + 1)) OR 7)\<rparr>"])
      (simp add: get_page_def find_page_def Let_def)
qed

text \<open>Up to the second loop: both page tables exist, nothing is mapped.\<close>

lemma heap_pages:
  assumes "j < 0x10000"
  shows "page_index (KHEAP_BASE + of_nat j) = 52" "page_offset (KHEAP_BASE + of_nat j) = j div 4096"
proof -
  have e: "KHEAP_BASE + of_nat j = (of_nat (0xD000000 + j) :: u32)" by simp
  have b: "0xD000000 + j < 2 ^ 32" using assms by simp
  have "(0xD000000 + j) div 4096 = 0xD000 + j div 4096" using div_mult_self3 [of 4096 "0xD000" j] by simp
  moreover have "j div 4096 < 16" using assms by (simp add: div_less_iff_less_mult)
  moreover have "0xD000 + q = q + 52 * 1024" for q :: nat by simp
  moreover have "(q + 52 * 1024) div 1024 = 52" "(q + 52 * 1024) mod 1024 = q" if "q < 16" for q :: nat
    using that by (simp_all only: div_mult_self1 mod_mult_self1) simp_all
  ultimately have "(0xD000000 + j) div 4096 div 1024 = 52" "(0xD000000 + j) div 4096 mod 1024 = j div 4096" by metis+
  then show "page_index (KHEAP_BASE + of_nat j) = 52" "page_offset (KHEAP_BASE + of_nat j) = j div 4096"
    unfolding e page_parts [OF b] by simp_all
qed

lemma small_inj: "d < 0x10000 \<Longrightarrow> e < 0x10000 \<Longrightarrow> (of_nat (4096 * d) :: u32) = of_nat (4096 * e) \<longleftrightarrow> d = e"
  using unat_small by (metis mult_cancel_left zero_neq_numeral)

lemma vm_init_tables:
  assumes "fresh_vm s"
  shows "\<exists>d dr s3. d = unat (phys_alloc_addr s) div 4096 + 1 \<and> 2 \<le> d \<and> d \<le> 0x300 \<and> kmalloc sizeof_page_dir True False s =
      Inr ((of_nat (4096 * d), None), s\<lparr>phys_alloc_addr := of_nat (4096 * (d + 2))\<rparr>) \<and>
    touch_pages (unat KHEAP_SIZE) KHEAP_BASE (s\<lparr>phys_alloc_addr := of_nat (4096 * (d + 2)), kdir := of_nat (4096 * d),
      kdir_mem := \<lparr>dir_tables = (\<lambda>_. NULL), tables_phys = (\<lambda>_. 0)\<rparr>\<rparr>) = Inr s3 \<and>
    s3 = s\<lparr>phys_alloc_addr := of_nat (4096 * (d + 4)), kdir := of_nat (4096 * d), kdir_mem := dr\<rparr> \<and>
    dir_tables dr = (\<lambda>_. NULL)(52 := of_nat (4096 * (d + 3))) \<and>
    tables_phys dr = (\<lambda>_. 0)(52 := of_nat (4096 * (d + 3)) OR 7)"
proof -
  let ?x = "unat (phys_alloc_addr s)"
  define d where "d = ?x div 4096 + 1"
  have f: "\<not> heap_is_initialized s" "4096 \<le> ?x" "?x < 0x300000" using assms by (simp_all add: fresh_vm_def)
  have d: "2 \<le> d" "d \<le> 0x300" "(?x div 4096 + 1) * 4096 = 4096 * d" using f unfolding d_def by auto
  have ph: "phys_alloc_addr s = of_nat ?x" by (metis of_nat_unat ucast_id)
  have "?x < 2 ^ 31" using f(3) by simp
  note k = kmalloc_aligned [OF f(1) ph f(2) this, of sizeof_page_dir False, unfolded d(3)]
  have e: "(of_nat (4096 * d) + sizeof_page_dir :: u32) = of_nat (4096 * (d + 2))" by (simp add: sizeof_page_dir_def)
  let ?s1 = "s\<lparr>phys_alloc_addr := of_nat (4096 * (d + 2)), kdir := of_nat (4096 * d),
      kdir_mem := \<lparr>dir_tables = (\<lambda>_. NULL), tables_phys = (\<lambda>_. 0)\<rparr>\<rparr>"
  have i: "page_index KHEAP_BASE = 52" using heap_pages(1) [of 0] by simp
  have g: "\<exists>dr. get_page KHEAP_BASE True ?s1 = Inr (Some (of_nat (4096 * (d + 2 + 1)), page_offset KHEAP_BASE),
      ?s1\<lparr>phys_alloc_addr := of_nat (4096 * (d + 2 + 2)), kdir_mem := dr\<rparr>) \<and>
    dir_tables dr = (dir_tables (kdir_mem ?s1))(page_index KHEAP_BASE := of_nat (4096 * (d + 2 + 1))) \<and>
    tables_phys dr = (tables_phys (kdir_mem ?s1))(page_index KHEAP_BASE := of_nat (4096 * (d + 2 + 1)) OR 7)"
    using f(1) d(1,2) by (intro get_page_creates) simp_all
  have n: "d + 2 + 1 = d + 3" "d + 2 + 2 = d + 4" by simp_all
  have m: "dir_tables (kdir_mem ?s1) = (\<lambda>_. NULL)" "tables_phys (kdir_mem ?s1) = (\<lambda>_. 0)" by simp_all
  obtain dr where dr: "get_page KHEAP_BASE True ?s1 = Inr (Some (of_nat (4096 * (d + 3)), page_offset KHEAP_BASE),
      ?s1\<lparr>phys_alloc_addr := of_nat (4096 * (d + 4)), kdir_mem := dr\<rparr>)"
    "dir_tables dr = (\<lambda>_. NULL)(52 := of_nat (4096 * (d + 3)))"
    "tables_phys dr = (\<lambda>_. 0)(52 := of_nat (4096 * (d + 3)) OR 7)" using g unfolding n i m by blast
  let ?s3 = "?s1\<lparr>phys_alloc_addr := of_nat (4096 * (d + 4)), kdir_mem := dr\<rparr>"
  have n0: "(of_nat (4096 * (d + 3)) :: u32) \<noteq> NULL" using small_inj [of "d + 3" 0] d(2) by simp
  have p: "find_page (KHEAP_BASE + 1 + of_nat j) ?s3 \<noteq> None" if "j < 0xFFFF" for j
  proof -
    have e: "KHEAP_BASE + 1 + of_nat j = (KHEAP_BASE + of_nat (Suc j) :: u32)" by simp
    have "Suc j < 0x10000" using that by simp
    then show ?thesis unfolding e using heap_pages(1) dr(2) n0 by (simp only: find_page_def Let_def) simp
  qed
  have sz: "unat KHEAP_SIZE = Suc 0xFFFF" by simp
  have t: "touch_pages (Suc m) KHEAP_BASE ?s1 = touch_pages m (KHEAP_BASE + 1) ?s3" for m
    using dr(1) by (simp only: touch_pages.simps and_then.simps prod.case)
  have "touch_pages (unat KHEAP_SIZE) KHEAP_BASE ?s1 = Inr ?s3" unfolding sz t by (rule touch_pages_present) (rule p)
  moreover have "?s3 = s\<lparr>phys_alloc_addr := of_nat (4096 * (d + 4)), kdir := of_nat (4096 * d), kdir_mem := dr\<rparr>" by simp
  ultimately show ?thesis using d_def d(1,2) k [unfolded e] dr(2,3) by (intro exI [of _ d] exI [of _ dr] exI [of _ ?s3]) simp
qed

lemma identity_map_first:
  assumes "get_page 0 True s = Inr (Some p, u)" "get_page 0 True u = Inr (Some p, u)"
    "0 < phys_alloc_addr s + 0x10000" "0 < phys_alloc_addr u + 0x10000"
  shows "identity_map 0 s = identity_map 0 u"
  using assms by (subst (1 2) identity_map.simps) simp

lemma space_built:
  assumes z: "\<And>t i. page_tables s t i = zero_entry" and n: "n \<le> 1024" "n + 16 \<le> NFRAMES"
    and t: "page_aligned t0" "page_aligned t1" "t0 \<noteq> t1" "page_aligned (kdir s)"
    and d: "tables_phys (kdir_mem s) = (\<lambda>_. 0)(52 := t1 OR 7, 0 := t0 OR 7)"
    and r0: "maps_run s t0 0 n 0 u" and r1: "maps_run u t1 0 16 n v"
  shows "space (upd_page (t0, 0) (\<lambda>_. zero_entry) v\<lparr>cr3 := Some (kdir s + 4096), heap_is_initialized := True\<rparr>) t0 t1 n"
    "used_frames v = {..<n + 16}" "same_but_pages s v" "bitmap_ok v"
proof -
  let ?w = "upd_page (t0, 0) (\<lambda>_. zero_entry) v\<lparr>cr3 := Some (kdir s + 4096), heap_is_initialized := True\<rparr>"
  have s: "same_but_pages s u" "same_but_pages u v" using r0 r1 unfolding maps_run_def by blast+
  then show sv: "same_but_pages s v" by (rule same_but_pages_trans)
  show "used_frames v = {..<n + 16}" "bitmap_ok v" using r1 unfolding maps_run_def by simp_all
  have k: "kdir_mem ?w = kdir_mem s" "kdir ?w = kdir s" "cr3 ?w = Some (kdir s + 4096)"
    using same_but_pagesD(1,3) [OF sv] by (simp_all add: upd_page_def)
  have u0: "if j < n then mapped u t0 j j else page_tables u t0 j = zero_entry" for j
    using r0 z unfolding maps_run_def by simp
  have v0: "page_tables v t0 j = page_tables u t0 j" for j using r1 t(3) unfolding maps_run_def by simp
  have u1: "page_tables u t1 j = zero_entry" for j using r0 t(3) z unfolding maps_run_def by simp
  have v1: "if j < 16 then mapped v t1 j (n + j) else page_tables v t1 j = zero_entry" for j
    using r1 u1 unfolding maps_run_def by simp
  have w: "page_tables ?w t0 0 = zero_entry" "\<And>j. 0 < j \<Longrightarrow> page_tables ?w t0 j = page_tables v t0 j"
    "\<And>j. page_tables ?w t1 j = page_tables v t1 j" using t(3) by (simp_all add: upd_page_def)
  have "if 0 < j \<and> j < n then mapped ?w t0 j j else page_tables ?w t0 j = zero_entry" for j
    using u0 [of j] v0 [of j] w(1) w(2) [of j] by (cases "j = 0") (auto simp: mapped_def split: if_splits)
  moreover have "if j < 16 then mapped ?w t1 j (n + j) else page_tables ?w t1 j = zero_entry" for j
    using v1 [of j] w(3) [of j] by (auto simp: mapped_def split: if_splits)
  moreover have "paging_on ?w" using t(4) unfolding paging_on_def k by simp
  ultimately show "space ?w t0 t1 n" using t(1,2) n(1) d unfolding space_def k by blast
qed

text \<open>Everything \<open>vm_init\<close> does not write.\<close>

definition outside_vm :: "'a vm_scheme \<Rightarrow> 'a vm_scheme" where
  "outside_vm s = s\<lparr>frames := [], kdir := 0, kdir_mem := \<lparr>dir_tables = (\<lambda>_. NULL), tables_phys = (\<lambda>_. 0)\<rparr>,
     page_tables := (\<lambda>_ _. zero_entry), phys_alloc_addr := 0, heap_is_initialized := False, cr3 := None\<rparr>"

lemma outside_vm_pages: "same_but_pages s t \<Longrightarrow> outside_vm t = outside_vm s"
  unfolding same_but_pages_def by (cases s; cases t) (simp add: outside_vm_def)

lemma map_heap_boot:
  assumes "dir_tables (kdir_mem s) 52 = t1" "t1 \<noteq> NULL" "bitmap_ok s" "used_frames s = {..<f}" "f + 16 \<le> NFRAMES"
    "\<And>j. page_tables s t1 j = zero_entry"
  shows "\<exists>v. map_heap (unat (KHEAP_SIZE div PAGE_SIZE)) KHEAP_BASE s = Inr v \<and> maps_run s t1 0 16 f v"
proof -
  have n: "unat (KHEAP_SIZE div PAGE_SIZE) = 16" by simp
  have p: "find_page (KHEAP_BASE + of_nat j * 0x1000) s = Some (t1, 0 + j)" if "j < 16" for j
  proof -
    have e: "KHEAP_BASE + of_nat j * 0x1000 = (KHEAP_BASE + of_nat (j * 4096) :: u32)" by simp
    have "j * 4096 < 0x10000" "j * 4096 div 4096 = j" using that by simp_all
    then show ?thesis unfolding e using heap_pages [of "j * 4096"] assms(1,2) by (simp only: find_page_def Let_def) simp
  qed
  show ?thesis unfolding n using map_heap_run [OF assms(3-5), of KHEAP_BASE t1 0, OF p] assms(6) by (simp add: zero_entry_def)
qed

definition boot_pages :: "'a vm_scheme \<Rightarrow> nat" where
  "boot_pages s = unat (phys_alloc_addr s) div 4096 + 23"

lemma vm_init_space:
  assumes "fresh_vm s"
  shows "\<exists>t t0 t1. vm_init s = Some (Inr t) \<and> heap_is_initialized t \<and> space t t0 t1 (boot_pages s) \<and>
    unat (phys_alloc_addr t) + 0x10000 = 4096 * boot_pages s \<and> used_frames t = {..<boot_pages s + 16} \<and> cr3 t = Some (kdir t + 4096) \<and>
    outside_vm t = outside_vm s"
proof -
  have fr: "\<not> heap_is_initialized s" "bitmap_ok s" "used_frames s = {}" "\<And>t i. page_tables s t i = zero_entry"
    using assms unfolding fresh_vm_def by blast+
  obtain d dr s3 where d: "2 \<le> d" "d \<le> 0x300" "d = unat (phys_alloc_addr s) div 4096 + 1" and k: "kmalloc sizeof_page_dir True False s =
      Inr ((of_nat (4096 * d), None), s\<lparr>phys_alloc_addr := of_nat (4096 * (d + 2))\<rparr>)"
    and tp: "touch_pages (unat KHEAP_SIZE) KHEAP_BASE (s\<lparr>phys_alloc_addr := of_nat (4096 * (d + 2)), kdir := of_nat (4096 * d),
      kdir_mem := \<lparr>dir_tables = (\<lambda>_. NULL), tables_phys = (\<lambda>_. 0)\<rparr>\<rparr>) = Inr s3"
    and s3: "s3 = s\<lparr>phys_alloc_addr := of_nat (4096 * (d + 4)), kdir := of_nat (4096 * d), kdir_mem := dr\<rparr>"
    and dr: "dir_tables dr = (\<lambda>_. NULL)(52 := of_nat (4096 * (d + 3)))"
      "tables_phys dr = (\<lambda>_. 0)(52 := of_nat (4096 * (d + 3)) OR 7)" using vm_init_tables [OF assms] by blast
  let ?tb = "of_nat (4096 * (d + 3)) :: u32" and ?ta = "of_nat (4096 * (d + 5)) :: u32" and ?n = "d + 22"
  have tn: "?ta \<noteq> NULL" "?tb \<noteq> NULL" "?ta \<noteq> ?tb"
    using small_inj [of "d + 5" 0] small_inj [of "d + 3" 0] small_inj [of "d + 5" "d + 3"] d(2) by simp_all
  have i0: "page_index 0 = 0" "page_offset 0 = 0" by (simp_all add: page_index_def page_offset_def)
  have nn: "d + 4 + 1 = d + 5" "d + 4 + 2 = d + 6" by simp_all
  have "\<exists>dr. get_page 0 True s3 = Inr (Some (of_nat (4096 * (d + 4 + 1)), page_offset 0),
      s3\<lparr>phys_alloc_addr := of_nat (4096 * (d + 4 + 2)), kdir_mem := dr\<rparr>) \<and>
    dir_tables dr = (dir_tables (kdir_mem s3))(page_index 0 := of_nat (4096 * (d + 4 + 1))) \<and>
    tables_phys dr = (tables_phys (kdir_mem s3))(page_index 0 := of_nat (4096 * (d + 4 + 1)) OR 7)"
    using fr(1) d dr i0 unfolding s3 by (intro get_page_creates) simp_all
  then obtain e where e: "get_page 0 True s3 = Inr (Some (?ta, 0), s3\<lparr>phys_alloc_addr := of_nat (4096 * (d + 6)), kdir_mem := e\<rparr>)"
    "dir_tables e = (\<lambda>_. NULL)(52 := ?tb, 0 := ?ta)" "tables_phys e = (\<lambda>_. 0)(52 := ?tb OR 7, 0 := ?ta OR 7)"
    unfolding nn i0 using dr s3 by auto
  let ?s4 = "s3\<lparr>phys_alloc_addr := of_nat (4096 * (d + 6)), kdir_mem := e\<rparr>"
  have g4: "get_page 0 True ?s4 = Inr (Some (?ta, 0), ?s4)" using e(2) tn(1) i0 by (simp add: get_page_def find_page_def)
  have ph: "phys_alloc_addr s3 + 0x10000 = of_nat (4096 * (d + 20))" "phys_alloc_addr ?s4 + 0x10000 = of_nat (4096 * ?n)"
    unfolding s3 by simp_all
  have "0 < phys_alloc_addr s3 + 0x10000" "0 < phys_alloc_addr ?s4 + 0x10000"
    unfolding ph word_less_nat_alt using unat_small [of "d + 20"] unat_small [of ?n] d(2) by simp_all
  then have im: "identity_map 0 s3 = identity_map 0 ?s4" by (rule identity_map_first [OF e(1) g4])
  have f4: "bitmap_ok ?s4" "used_frames ?s4 = {..<0}" "\<And>t i. page_tables ?s4 t i = zero_entry"
    using fr(2-4) unfolding s3 by (simp_all add: bitmap_ok_def used_frames_def)
  have "\<exists>u. identity_map (of_nat (4096 * 0)) ?s4 = Some (Inr u) \<and> maps_run ?s4 ?ta 0 ?n 0 u"
    using ph(2) f4 e(2) tn(1) d(2) by (intro identity_map_run) (simp_all add: zero_entry_def)
  then obtain u where u: "identity_map 0 s3 = Some (Inr u)" "maps_run ?s4 ?ta 0 ?n 0 u" unfolding im by auto
  have su: "same_but_pages ?s4 u" "bitmap_ok u" "used_frames u = {..<?n}" "page_tables u ?tb j = zero_entry" for j
    using u(2) tn(3) f4(3) unfolding maps_run_def by simp_all
  have du: "dir_tables (kdir_mem u) 52 = ?tb" using same_but_pagesD(1) [OF su(1)] e(2) by simp
  obtain v where v: "map_heap (unat (KHEAP_SIZE div PAGE_SIZE)) KHEAP_BASE u = Inr v" "maps_run u ?tb 0 16 ?n v"
    using map_heap_boot [OF du tn(2) su(2,3) _ su(4)] d(2) by auto
  let ?w = "upd_page (?ta, 0) (\<lambda>_. zero_entry) v"
  let ?t = "?w\<lparr>cr3 := Some (kdir ?w + 4096), heap_is_initialized := True\<rparr>"
  have al: "page_aligned (of_nat (4096 * j))" if "j < 0xFFFF" for j using that unfolding page_aligned_def by blast
  have ta: "page_aligned ?ta" "page_aligned ?tb" by (intro al; use d(2) in simp)+
  have "page_aligned (of_nat (4096 * d))" by (intro al) (use d(2) in simp)
  then have kd: "page_aligned (kdir ?s4)" unfolding s3 by simp
  have te: "tables_phys (kdir_mem ?s4) = (\<lambda>_. 0)(52 := ?tb OR 7, 0 := ?ta OR 7)" using e(3) by simp
  have nb: "?n \<le> 1024" "?n + 16 \<le> NFRAMES" using d(2) by simp_all
  note sb = space_built [OF f4(3) nb ta tn(3) kd te u(2) v(2)]
  note dv = same_but_pagesD [OF sb(3)]
  have "kdir ?w = kdir ?s4" using dv(3) by (simp add: upd_page_def)
  then have b: "space ?t ?ta ?tb ?n" "used_frames v = {..<?n + 16}" "same_but_pages ?s4 v" using sb by simp_all
  have d0: "dir_tables (kdir_mem v) 0 = ?ta" using dv(1) e(2) by simp
  have "vm_init s = Some (Inr ?t)"
    using k tp u(1) v(1) d0 tn(1) unfolding vm_init_def by (simp add: Let_def)
  moreover have "space ?t ?ta ?tb ?n" by (rule b(1))
  moreover have "unat (phys_alloc_addr ?t) + 0x10000 = 4096 * ?n"
    using dv(2) unat_small [of "d + 6"] d(2) by (simp add: upd_page_def)
  moreover have "used_frames ?t = {..<?n + 16}" using b(2) by (simp add: used_frames_def upd_page_def)
  moreover have "outside_vm ?t = outside_vm v" by (simp add: outside_vm_def upd_page_def)
  then have "outside_vm ?t = outside_vm s" using outside_vm_pages [OF b(3)] unfolding s3 by (simp add: outside_vm_def)
  moreover have "boot_pages s = ?n" using d(3) by (simp add: boot_pages_def)
  ultimately show ?thesis by (intro exI [of _ ?t] exI [of _ ?ta] exI [of _ ?tb]) simp
qed

section \<open>Properties\<close>

text \<open>
  C12. The address space \<open>vm_init\<close> builds on a machine with cleared memory and a kernel image that
  ends below 3 MB, as the processor finds it walking the directory and the tables from \<open>cr3\<close>: it returns, and
  the first page is not mapped, every other address up to 64 KB above everything the boot allocator has handed out
  (\<open>boot_pages\<close> pages) is mapped to itself, the kernel heap
  is mapped to the frames that follow, in order, and nothing else is mapped. The frames in use are
  exactly these.
\<close>

theorem vm_init_address_space:
  assumes "fresh_vm s"
  shows "\<exists>t. vm_init s = Some (Inr t) \<and> heap_is_initialized t \<and> cr3 t = Some (kdir t + 4096) \<and>
    unat (phys_alloc_addr t) + 0x10000 = 4096 * boot_pages s \<and> used_frames t = {..<boot_pages s + 16} \<and>
    (\<forall>a. translate t a =
       (if unat a < 0x1000 then None
        else if unat a < 4096 * boot_pages s then Some a
        else if KHEAP_BASE \<le> a \<and> a < KHEAP_BASE + KHEAP_SIZE
        then Some (of_nat (4096 * boot_pages s) + (a - KHEAP_BASE))
        else None))"
  using vm_init_space [OF assms] translate_space by blast

theorem vm_init_address_space_witness:
  "\<exists>t. vm_init blank_vm = Some (Inr t) \<and> translate t 0x10 = None \<and> translate t 0x123456 = Some 0x123456 \<and>
     translate t 0xD000010 = Some 0x217010"
proof -
  have "fresh_vm blank_vm" using used_frames_blank by (simp add: fresh_vm_def) (simp add: blank_vm_def)
  moreover have "boot_pages blank_vm = 535" by (simp add: boot_pages_def blank_vm_def)
  ultimately obtain t where t: "vm_init blank_vm = Some (Inr t)" "\<And>a. translate t a =
       (if unat a < 0x1000 then None
        else if unat a < 4096 * 535 then Some a
        else if KHEAP_BASE \<le> a \<and> a < KHEAP_BASE + KHEAP_SIZE then Some (of_nat (4096 * 535) + (a - KHEAP_BASE))
        else None)" using vm_init_address_space [of blank_vm] by auto
  show ?thesis using t(1) t(2) [of "0x10"] t(2) [of "0x123456"] t(2) [of "0xD000010"] by auto
qed

end
