(* ===== verification/Kernel_Main.thy ===== *)
theory Kernel_Main
  imports Command_Handler Paging_Init
begin

text \<open>
  \<open>src/kernel/kmain.c\<close>: \<open>klogv\<close> and \<open>kmain\<close>, the composition of the other components at boot.

  \<open>kmain_hardware\<close> is the first half, up to \<open>vm_init\<close>, \<open>kmain_modules\<close> the second, up to the trap that hands
  over to the command handler; \<open>kmain\<close> is the whole function, with the trap as a parameter.
  \<open>addr\<close> gives the addresses of the interrupt routines, \<open>entry_commhand\<close> and \<open>entry_idle\<close> those of the
  two process functions.
\<close>

section \<open>Model\<close>

definition klogv :: "device \<Rightarrow> string \<Rightarrow> 'a serial_line_scheme \<Rightarrow> 'a serial_line_scheme checked" where
  "klogv dev msg s =
     and_then (serial_out dev (c_str ''klogv: '') (length ''klogv: '') s) (\<lambda>(_, s).
     and_then (serial_out dev (c_str msg) (length msg) s) (\<lambda>(_, s).
     and_then (serial_out dev (c_str [CHR 0x0D, CHR 0x0A]) 2 s) (\<lambda>(_, s). Inr s)))"

definition kmain_hardware :: "(isr \<Rightarrow> u32) \<Rightarrow> 'a kern_scheme \<Rightarrow> 'a kern_scheme checked option" where
  "kmain_hardware addr s =
     run_then (Some (klogv COM1 ''Initialized serial I/O on COM1 device...'' s)) (\<lambda>s.
     let s = snd (serial_init COM1 s)
     in run_then (Some (klogv COM1 ''Initializing Global Descriptor Table...'' s)) (\<lambda>s.
     let s = gdt_init s
     in run_then (Some (klogv COM1 ''Initializing Interrupt Descriptor Table...'' s)) (\<lambda>s.
     let s = idt_init s
     in run_then (Some (klogv COM1 ''Disabling interrupts...'' s)) (\<lambda>s.
     let s = cli s
     in run_then (Some (klogv COM1 ''Initializing Interrupt Request routines...'' s)) (\<lambda>s.
     run_then (Some (irq_init addr s)) (\<lambda>s.
     run_then (Some (klogv COM1 ''Initializing Programmable Interrupt Controller...'' s)) (\<lambda>s.
     let s = pic_init s
     in run_then (Some (klogv COM1 ''Enabling Interrupts...'' s)) (\<lambda>s.
     let s = sti s
     in run_then (Some (klogv COM1 ''Initializing Virtual Memory...'' s)) (\<lambda>s.
        vm_init s)))))))))"

definition kmain_modules :: "(isr \<Rightarrow> u32) \<Rightarrow> u32 \<Rightarrow> u32 \<Rightarrow> 'a kern_scheme \<Rightarrow> 'a kern_scheme checked option" where
  "kmain_modules addr entry_commhand entry_idle s =
     run_then (Some (initialize_heap 50000 s)) (\<lambda>s.
     let s = sys_set_heap_functions (Some Allocate_Memory) (Some Free_Memory) s
     in run_then (Some (klogv COM1 ''Initializing MPX modules...'' s)) (\<lambda>s.
        run_then (serial_open addr COM1 19200 s) (\<lambda>(_, s).
        run_then (spawn True (Some (c_str ''Command Handler'')) 0 1 entry_commhand s) (\<lambda>s.
        run_then (spawn True (Some (c_str ''Idle Process'')) 0 9 entry_idle s) (\<lambda>s.
          Some (klogv COM1 ''Transferring control to commhand...'' s))))))"

definition kmain ::
  "'a kern_scheme trap \<Rightarrow> (isr \<Rightarrow> u32) \<Rightarrow> u32 \<Rightarrow> u32 \<Rightarrow> 'a kern_scheme \<Rightarrow> 'a kern_scheme checked option" where
  "kmain trap addr entry_commhand entry_idle s =
     run_then (kmain_hardware addr s) (\<lambda>s.
     run_then (kmain_modules addr entry_commhand entry_idle s) (\<lambda>s.
     run_then (trap IDLE 0 [] 0 s) (\<lambda>(_, _, s).
     run_then (Some (klogv COM1 ''Starting system shutdown procedure...'' s)) (\<lambda>s.
       Some (klogv COM1 ''Halting CPU...'' s)))))"

section \<open>Lemmas\<close>

subsection \<open>Logging\<close>

lemma klogv_eq:
  assumes "initialized s 0 \<noteq> 0" "length msg < 2 ^ 31"
  shows "klogv COM1 msg s =
    Inr (s\<lparr>trace := trace s @ map (Out 0x3f8) (map of_char (''klogv: '' @ msg @ [CHR 0x0D, CHR 0x0A]))\<rparr>)"
proof -
  have "int (length msg) < 2 ^ 31" using assms(2) by (metis of_nat_less_iff of_nat_numeral of_nat_power)
  then show ?thesis using assms(1) by (simp add: klogv_def serial_out_eq serial_devno_def c_str_def COM1_def)
qed

lemma klogv_silent: "initialized s 0 = 0 \<Longrightarrow> klogv COM1 msg s = Inr s"
  by (simp add: klogv_def serial_out_def serial_devno_def Let_def)

subsection \<open>serial_open at boot\<close>

text \<open>The part of the kernel's state the heap, the process queues and the dispatcher work on.\<close>

definition kview where
  "kview s = (memlist s, malloc_function s, free_function s, pcbs s, ready_head s, blocked_head s, suspended_head s,
     global_pcb s, initial_context s, ctxs s)"

lemma kview_io [simp]:
  "kview (outb p c s) = kview s" "kview (snd (inb p s)) = kview s" "kview (upd_dcb d f s) = kview s"
  "kview (s\<lparr>serial_port := d\<rparr>) = kview s" "kview (s\<lparr>initialized := i\<rparr>) = kview s" "kview (s\<lparr>mcbs := m\<rparr>) = kview s"
  "kview (s\<lparr>idt_entries := e\<rparr>) = kview s" "kview (s\<lparr>trace := tr\<rparr>) = kview s"
  by (simp_all add: kview_def outb_def inb_def emit_def upd_dcb_def Let_def)

lemma mcbs_io [simp]:
  "mcbs (outb p c s) = mcbs s" "mcbs (snd (inb p s)) = mcbs s" "mcbs (upd_dcb d f s) = mcbs s"
  "initialized (upd_dcb d f s) = initialized s" "idt_entries (upd_dcb d f s) = idt_entries s"
  by (simp_all add: outb_def inb_def emit_def upd_dcb_def Let_def)

lemma serial_open_boot:
  assumes "malloc_function s = Some Allocate_Memory" "room s (k + 56)" "0 < k" "length (idt_entries s) = 256"
  shows "\<exists>t. serial_open addr COM1 19200 s = Some (Inr (0, t)) \<and> kview t = kview s \<and> room t k \<and> initialized t 0 \<noteq> 0 \<and>
    idt_entries t ! 0x60 = idt_entries s ! 0x60"
proof -
  have ru: "k + unat (roundup 52) + 4 = k + 56" by (simp add: roundup_def)
  obtain d m where al: "allocate_memory 52 s = Some (Inr (d, s\<lparr>mcbs := m\<rparr>))" "d \<noteq> NULL" "room (s\<lparr>mcbs := m\<rparr>) k"
    using allocate_room [of s k 52] assms(2,3) unfolding ru by blast
  have v: "unat (word_of_int 0x24 :: u32) = 0x24" by simp
  have io: "\<exists>t. serial_open addr COM1 19200 s = Some (Inr (0, t)) \<and> kview t = kview s \<and> mcbs t = m \<and> initialized t 0 \<noteq> 0 \<and>
      idt_entries t ! 0x60 = idt_entries s ! 0x60"
    using al(1,2) assms(1,4) unfolding serial_open_def sys_alloc_mem_def
    by (simp add: Let_def split_beta idt_install_def idt_set_gate_def v)
  then obtain t where t: "serial_open addr COM1 19200 s = Some (Inr (0, t))" "kview t = kview s" "mcbs t = m" "initialized t 0 \<noteq> 0"
    "idt_entries t ! 0x60 = idt_entries s ! 0x60" by blast
  have "room t k" using al(3) by (rule room_frame [THEN iffD2, rotated 2]) (use t(2,3) in \<open>simp_all add: kview_def\<close>)
  then show ?thesis using t by blast
qed

subsection \<open>The first dispatch\<close>

lemma first_dispatch:
  assumes Q: "pcb_queues s Q" and x: "Q Ready = x # xs" and g: "global_pcb s = NULL" "initial_context s = NULL"
    and so: "sorted_queue (prio_of s) (Q Ready)" and sl: "\<forall>p \<in> set (Q Ready). slot_of s p = Some Ready"
    and cc: "cc \<noteq> NULL" "sint (eax (ctxs s cc)) = op_num IDLE"
  shows "\<exists>u. sys_call cc s = Some (Inr (stack_top (pcbs s x), u)) \<and> scheduling u x (Q(Ready := xs)) \<and>
    initial_context u = cc \<and> ctxs u = ctxs s \<and> prio_of u = prio_of s \<and>
    (\<forall>p. stack_top (pcbs u p) = stack_top (pcbs s p))"
proof -
  have xr: "x \<in> set (Q Ready)" using x by simp
  have xn: "x \<noteq> NULL" using pq.elem_law [OF Q xr] .
  have hd: "ready_head s = x" using pcb_queuesD [OF Q, of Ready] x by simp
  let ?t = "s\<lparr>initial_context := cc, global_pcb := x\<rparr>"
  have Qt: "pcb_queues ?t Q" by (rule pcb_queues_same [OF Q]) simp_all
  have vt: "prio_of ?t = prio_of s" "slot_of ?t = slot_of s" by (simp_all add: prio_of_def slot_of_def fun_eq_iff)
  have "slot_of (kept ?t) x = Some Ready" using sl xr vt by simp
  then obtain v where v: "pcb_remove x ?t = Some (Inr (0, v))" "pcb_queues v (Q(Ready := remove1 x (Q Ready)))" "kept v = kept ?t"
    using pq.remove_law [OF Qt xr] by auto
  note k = kept_fields [OF v(3)]
  let ?u = "upd_pcb x (\<lambda>b. b\<lparr>state := READY_STATE\<rparr>) (set_next_pcb x NULL v)"
  have xxs: "x \<notin> set xs" using qlist_distinct [OF pcb_queuesD [OF Q, of Ready]] x by simp
  have Qx: "Q(Ready := remove1 x (Q Ready)) = Q(Ready := xs)" using x by simp
  have out: "x \<notin> queued (Q(Ready := xs))"
    using xxs pcb_queues_other [OF Q xr] by (auto simp: queued_def)
  have gv: "global_pcb v = x" "initial_context v = cc" "ctxs v = ctxs s" using k by simp_all
  have st: "stack_top (pcbs ?u p) = stack_top (pcbs s p)" for p using k(6) [of p] k(6) [of x] by simp
  have "sys_call cc s = Some (Inr (stack_top (pcbs ?u x), ?u))"
    using cc g hd xn v(1) gv(1) by (simp add: sys_call_idle idle_case_def dispatch_def Let_def)
  moreover have "pcb_queues ?u (Q(Ready := xs))"
    using v(2) out unfolding Qx by (intro pcb_queues_upd pcb_queues_set_next)
  moreover have pr: "prio_of ?u = prio_of s" using k(4) vt(1) by (auto simp: prio_of_def fun_eq_iff)
  moreover have "sorted_queue (prio_of s) xs" using so x by (simp add: sorted_queue_def)
  moreover have "\<forall>p \<in> set xs. slot_of ?u p = Some Ready" using sl x k(5) vt(2) by auto
  ultimately show ?thesis using gv xn out st st [of x] by (intro exI [of _ ?u]) (simp add: scheduling_def)
qed

lemma kview_fields:
  assumes "kview t = kview s"
  shows "memlist t = memlist s" "malloc_function t = malloc_function s" "free_function t = free_function s" "pcbs t = pcbs s"
    "ready_head t = ready_head s" "blocked_head t = blocked_head s" "suspended_head t = suspended_head s"
    "global_pcb t = global_pcb s" "initial_context t = initial_context s" "ctxs t = ctxs s"
  using assms by (simp_all add: kview_def)

text \<open>The state \<open>vm_init\<close> leaves, as far as the second half of \<open>kmain\<close> relies on it.\<close>

definition booted :: "'a kern_scheme \<Rightarrow> bool" where
  "booted s \<longleftrightarrow> kheap_ok s \<and> unat (heap_addr s) + 50004 \<le> unat (KHEAP_BASE + KHEAP_SIZE) \<and> initialized s 0 \<noteq> 0 \<and>
     length (idt_entries s) = 256 \<and> ready_head s = NULL \<and> blocked_head s = NULL \<and> suspended_head s = NULL \<and>
     global_pcb s = NULL \<and> initial_context s = NULL \<and> (\<forall>p. length (name (pcbs s p)) = 50)"

lemma initialize_heap_boot:
  assumes "booted s"
  shows "\<exists>t. initialize_heap 50000 s = Inr t \<and> heap_blocks t [(50000, True)] \<and> initialized t = initialized s \<and>
    idt_entries t = idt_entries s \<and> pcbs t = pcbs s \<and> ready_head t = NULL \<and> blocked_head t = NULL \<and>
    suspended_head t = NULL \<and> global_pcb t = NULL \<and> initial_context t = NULL \<and> memlist t = heap_addr s"
proof -
  have r: "roundup 50000 = (50000 :: u32)" by (simp add: roundup_def)
  have k: "kheap_ok s" "unat (roundup 50000) + 4 < 2 ^ 32"
    "unat (heap_addr s) + (unat (roundup 50000) + 4) \<le> unat (KHEAP_BASE + KHEAP_SIZE)"
    using assms by (simp_all add: booted_def r)
  obtain t where t: "initialize_heap 50000 s = Inr t" "heap_blocks t [(unat (roundup 50000), True)]"
    "t = s\<lparr>heap_addr := heap_addr s + (roundup 50000 + 4), memlist := heap_addr s, mcbs := mcbs t\<rparr>"
    using initialize_heap_eq [OF k] by blast
  have "initialized t = initialized s" "idt_entries t = idt_entries s" "pcbs t = pcbs s" "ready_head t = ready_head s"
    "blocked_head t = blocked_head s" "suspended_head t = suspended_head s" "global_pcb t = global_pcb s"
    "initial_context t = initial_context s" "memlist t = heap_addr s"
    using arg_cong [OF t(3), of memlist] arg_cong [OF t(3), of initialized] arg_cong [OF t(3), of idt_entries] arg_cong [OF t(3), of pcbs]
      arg_cong [OF t(3), of ready_head] arg_cong [OF t(3), of blocked_head] arg_cong [OF t(3), of suspended_head]
      arg_cong [OF t(3), of global_pcb] arg_cong [OF t(3), of initial_context]
    by simp_all
  then show ?thesis using t(1,2) assms by (simp add: booted_def r)
qed

lemma klogv_trace: "length msg < 2 ^ 31 \<Longrightarrow> \<exists>tr. klogv COM1 msg s = Inr (s\<lparr>trace := tr\<rparr>)"
proof (cases "initialized s 0 = 0")
  case True
  then have "klogv COM1 msg s = Inr (s\<lparr>trace := trace s\<rparr>)" by (simp add: klogv_silent)
  then show ?thesis by blast
qed (use klogv_eq in blast)

lemma room_le: "room s m \<Longrightarrow> n \<le> m \<Longrightarrow> room s n"
  unfolding room_def by (meson order_trans)

lemma pcb_queues_trace: "pcb_queues s Q \<Longrightarrow> pcb_queues (s\<lparr>trace := tr\<rparr>) Q"
  by (erule pcb_queues_same) simp_all

text \<open>The heap and the device are set up: an empty process table in order, with room for the two processes.\<close>

lemma boot_devices:
  assumes b: "booted s"
  shows "\<exists>t1 t2 t. initialize_heap 50000 s = Inr t1 \<and>
    klogv COM1 ''Initializing MPX modules...'' (sys_set_heap_functions (Some Allocate_Memory) (Some Free_Memory) t1) = Inr t2 \<and>
    serial_open addr COM1 19200 t2 = Some (Inr (0, t)) \<and> procs_ok t (\<lambda>_. []) \<and> room t 2212 \<and>
    global_pcb t = NULL \<and> initial_context t = NULL \<and> idt_entries t ! 0x60 = idt_entries s ! 0x60 \<and>
    memlist t = heap_addr s"
proof -
  obtain t1 where t1: "initialize_heap 50000 s = Inr t1" "heap_blocks t1 [(50000, True)]" "initialized t1 = initialized s"
    "idt_entries t1 = idt_entries s" "pcbs t1 = pcbs s" "ready_head t1 = NULL" "blocked_head t1 = NULL"
    "suspended_head t1 = NULL" "global_pcb t1 = NULL" "initial_context t1 = NULL" "memlist t1 = heap_addr s"
    using initialize_heap_boot [OF b] by blast
  let ?f = "sys_set_heap_functions (Some Allocate_Memory) (Some Free_Memory) t1"
  obtain tr where k: "klogv COM1 ''Initializing MPX modules...'' ?f = Inr (?f\<lparr>trace := tr\<rparr>)"
    using klogv_trace [of "''Initializing MPX modules...''" ?f] by auto
  let ?t2 = "?f\<lparr>trace := tr\<rparr>"
  have h2: "heap_blocks ?t2 [(50000, True)]" using t1(2) by (simp add: heap_blocks_def sys_set_heap_functions_def)
  then have "room ?t2 50000" unfolding room_def by (metis append_Nil order_refl)
  then have rm: "room ?t2 (2212 + 56)" by (rule room_le) simp
  have m: "malloc_function ?t2 = Some Allocate_Memory" "length (idt_entries ?t2) = 256"
    using t1(4) b by (simp_all add: sys_set_heap_functions_def booted_def)
  obtain t where t: "serial_open addr COM1 19200 ?t2 = Some (Inr (0, t))" "kview t = kview ?t2" "room t 2212"
    "idt_entries t ! 0x60 = idt_entries ?t2 ! 0x60"
    using serial_open_boot [OF m(1) rm _ m(2), of addr] by auto
  note v = kview_fields [OF t(2)]
  have hd: "get_head q t = NULL" for q using t1(6-8) v(5-7) by (cases q) (simp_all add: sys_set_heap_functions_def)
  have "heap_ok t" using t(3) by (auto simp: room_def heap_ok_def)
  moreover have "length (name (pcbs t p)) = 50" for p using b t1(5) v(4) by (simp add: booted_def sys_set_heap_functions_def)
  ultimately have "procs_ok t (\<lambda>_. [])"
    using hd v(2,3) by (simp add: procs_ok_def pcb_queues_def names_ok_def queued_def sys_set_heap_functions_def)
  moreover have "global_pcb t = NULL" "initial_context t = NULL"
    using v(8,9) t1(9,10) by (simp_all add: sys_set_heap_functions_def)
  moreover have "idt_entries t ! 0x60 = idt_entries s ! 0x60" using t(4) t1(4) by (simp add: sys_set_heap_functions_def)
  moreover have "memlist t = heap_addr s" using v(1) t1(11) by (simp add: sys_set_heap_functions_def)
  ultimately show ?thesis using t1(1) k t(1,3) by blast
qed

lemma kmain_modules_ok:
  assumes b: "booted s"
  shows "\<exists>t c i. kmain_modules addr e1 e2 s = Some (Inr t) \<and> procs_ok t ((\<lambda>_. [])(Ready := [c, i])) \<and> c \<noteq> i \<and>
    named t (c_str ''Command Handler'') c \<and> named t (c_str ''Idle Process'') i \<and> prio_of t c = 1 \<and> prio_of t i = 9 \<and>
    stack_top (pcbs t c) = c + 1024 \<and> stack_top (pcbs t i) = i + 1024 \<and>
    eip (ctxs t (c + 1024)) = e1 \<and> eip (ctxs t (i + 1024)) = e2 \<and>
    slot_of t c = Some Ready \<and> slot_of t i = Some Ready \<and> global_pcb t = NULL \<and> initial_context t = NULL \<and>
    ctxs t (c + 1024) = first_context c e1 \<and> ctxs t (i + 1024) = first_context i e2 \<and>
    (\<exists>n m. 1100 \<le> n \<and> 1100 \<le> m \<and> (unat c, n) \<in> heap_live t \<and> (unat i, m) \<in> heap_live t) \<and>
    idt_entries t ! 0x60 = idt_entries s ! 0x60 \<and> memlist t = heap_addr s"
proof -
  let ?n1 = "c_str ''Command Handler''" and ?n2 = "c_str ''Idle Process''"
  have n: "cstring ?n1 = map of_char ''Command Handler''" "cstring ?n2 = map of_char ''Idle Process''" by simp_all
  obtain t1 t2 t3 where d: "initialize_heap 50000 s = Inr t1"
    "klogv COM1 ''Initializing MPX modules...'' (sys_set_heap_functions (Some Allocate_Memory) (Some Free_Memory) t1) = Inr t2"
    "serial_open addr COM1 19200 t2 = Some (Inr (0, t3))" "procs_ok t3 (\<lambda>_. [])" "room t3 2212"
    "global_pcb t3 = NULL" "initial_context t3 = NULL" "idt_entries t3 ! 0x60 = idt_entries s ! 0x60" "memlist t3 = heap_addr s" using boot_devices [OF b, of addr] by blast
  have r1: "room t3 (1108 + 1104)" using d(5) by simp
  have l1: "(0::int) \<le> 1" "(1::int) \<le> 9" "(0::int) \<in> {0, 1}" "(0::u8) \<in> set ?n1" "2 \<le> length (cstring ?n1)"
    "length (cstring ?n1) < 50" "(0::nat) < 1108" by simp_all
  have nn1: "\<not> named t3 ?n1 q" if "q \<in> set ((\<lambda>_. []) Ready @ (\<lambda>_. []) Suspended)" for q using that by simp
  obtain c t4 where cs: "spawn True (Some ?n1) 0 1 e1 t3 = Some (Inr t4)"
    "procs_ok t4 ((\<lambda>_. [])(Ready := enqueue (prio_of t4) c ((\<lambda>_. []) Ready)))" "room t4 1108"
    "priority (pcbs t4 c) = 1" "named t4 ?n1 c" "stack_top (pcbs t4 c) = c + 1024" "eip (ctxs t4 (c + 1024)) = e1"
    "slot_of t4 c = Some Ready" "global_pcb t4 = global_pcb t3" "initial_context t4 = initial_context t3"
    "idt_entries t4 = idt_entries t3" "True \<longrightarrow> ctxs t4 (c + 1024) = first_context c e1"
    "\<exists>n. 1100 \<le> n \<and> (unat c, n) \<in> heap_live t4" "memlist t4 = memlist t3"
    using spawn_ok [OF d(4) r1 l1(7,1-6) nn1, of True e1] by blast
  then have c: "spawn True (Some ?n1) 0 1 e1 t3 = Some (Inr t4)" "procs_ok t4 ((\<lambda>_. [])(Ready := [c]))" "room t4 1108"
    "prio_of t4 c = 1" "named t4 ?n1 c" "stack_top (pcbs t4 c) = c + 1024" "eip (ctxs t4 (c + 1024)) = e1"
    "slot_of t4 c = Some Ready" "global_pcb t4 = NULL" "initial_context t4 = NULL" "idt_entries t4 = idt_entries t3"
    "ctxs t4 (c + 1024) = first_context c e1" "\<exists>n. 1100 \<le> n \<and> (unat c, n) \<in> heap_live t4" "memlist t4 = memlist t3"
    using d(6,7) by (simp_all add: prio_of_def)
  let ?Q = "(\<lambda>_. [])(Ready := [c])"
  have nn: "\<not> named t4 ?n2 q" if "q \<in> set (?Q Ready @ ?Q Suspended)" for q using that c(5) n by (simp add: named_def)
  have r2: "room t4 (4 + 1104)" using c(3) by simp
  have lens: "(0::int) \<le> 9" "(9::int) \<le> 9" "(0::int) \<in> {0, 1}" "(0::u8) \<in> set ?n2" "2 \<le> length (cstring ?n2)"
    "length (cstring ?n2) < 50" "(0::nat) < 4" by simp_all
  obtain i t5 where i: "spawn True (Some ?n2) 0 9 e2 t4 = Some (Inr t5)" "i \<notin> queued ?Q"
    "procs_ok t5 (?Q(Ready := enqueue (prio_of t5) i (?Q Ready)))" "priority (pcbs t5 i) = 9" "named t5 ?n2 i"
    "stack_top (pcbs t5 i) = i + 1024" "eip (ctxs t5 (i + 1024)) = e2" "slot_of t5 i = Some Ready"
    "\<forall>q \<in> queued ?Q. prio_of t5 q = prio_of t4 q \<and> name (pcbs t5 q) = name (pcbs t4 q) \<and> slot_of t5 q = slot_of t4 q \<and>
       stack_top (pcbs t5 q) = stack_top (pcbs t4 q)"
    "\<forall>a. a \<noteq> i + 1024 \<longrightarrow> ctxs t5 a = ctxs t4 a" "global_pcb t5 = global_pcb t4" "initial_context t5 = initial_context t4"
    "idt_entries t5 = idt_entries t4" "True \<longrightarrow> ctxs t5 (i + 1024) = first_context i e2" "heap_live t4 \<subseteq> heap_live t5"
    "\<exists>n. 1100 \<le> n \<and> (unat i, n) \<in> heap_live t5" "memlist t5 = memlist t4"
    using spawn_ok [OF c(2) r2 lens(7,1-6) nn, of True e2] by blast
  have cq: "c \<in> queued ?Q" by (auto simp: queued_def)
  then have ci: "c \<noteq> i" using i(2) by blast
  have pc: "prio_of t5 c = 1" "prio_of t5 i = 9" "name (pcbs t5 c) = name (pcbs t4 c)" "slot_of t5 c = Some Ready"
    "stack_top (pcbs t5 c) = c + 1024" using i(4,9) cq c(4,6,8) by (auto simp: prio_of_def)
  then have Q2: "procs_ok t5 ((\<lambda>_. [])(Ready := [c, i]))" using i(3) by (simp add: enqueue_Cons) 
  have "c + 1024 \<noteq> i + 1024" using ci by simp
  then have ec: "eip (ctxs t5 (c + 1024)) = e1" "ctxs t5 (c + 1024) = first_context c e1" using i(10) c(7,12) by simp_all
  have lv: "\<exists>n m. 1100 \<le> n \<and> 1100 \<le> m \<and> (unat c, n) \<in> heap_live t5 \<and> (unat i, m) \<in> heap_live t5"
    using c(13) i(15,16) by blast
  obtain tr where k: "klogv COM1 ''Transferring control to commhand...'' t5 = Inr (t5\<lparr>trace := tr\<rparr>)"
    using klogv_trace [of "''Transferring control to commhand...''" t5] by auto
  let ?t = "t5\<lparr>trace := tr\<rparr>"
  have run: "kmain_modules addr e1 e2 s = Some (Inr ?t)"
    using d(1-3) c(1) i(1) k by (simp add: kmain_modules_def Let_def)
  have tv: "prio_of ?t = prio_of t5" "slot_of ?t = slot_of t5" by (simp_all add: prio_of_def slot_of_def fun_eq_iff)
  have "procs_ok ?t ((\<lambda>_. [])(Ready := [c, i]))"
    using Q2 pcb_queues_trace [of t5] heap_frame [of ?t t5] by (simp add: procs_ok_def names_ok_def)
  moreover have "named ?t ?n1 c" "named ?t ?n2 i" using c(5) i(5) pc(3) by (simp_all add: named_def)
  moreover have "heap_live ?t = heap_live t5" by (rule heap_frame) simp_all
  ultimately show ?thesis using run ci pc ec i tv lv c(9-11,14) d(8,9)
    by (intro exI [of _ ?t] exI [of _ c] exI [of _ i]) simp
qed

subsection \<open>The hardware half\<close>

text \<open>
  The loaded image: cleared memory below 3 MB of code and data, the process table and the
  scheduler's variables as the loader leaves them.
\<close>

definition loaded_image :: "'a kern_scheme \<Rightarrow> bool" where
  "loaded_image s \<longleftrightarrow> fresh_vm s \<and> length (idt_entries s) = 256 \<and> ready_head s = NULL \<and> blocked_head s = NULL \<and>
     suspended_head s = NULL \<and> global_pcb s = NULL \<and> initial_context s = NULL \<and> (\<forall>p. length (name (pcbs s p)) = 50)"

lemma more_io [simp]:
  "tables.more (emit e s) = tables.more s" "tables.more (outb p c s) = tables.more s" "tables.more (snd (inb p s)) = tables.more s"
  by (simp_all add: emit_def outb_def inb_def Let_def)

lemma more_inits [simp]:
  "tables.more (snd (serial_init COM1 s)) = tables.more s" "tables.more (gdt_init s) = tables.more s"
  "tables.more (idt_init s) = tables.more s" "tables.more (cli s) = tables.more s" "tables.more (sti s) = tables.more s"
  "tables.more (pic_init s) = tables.more s"
  by (simp_all add: serial_init_def gdt_init_def idt_init_def cli_def sti_def pic_init_def outbwait_def Let_def)

lemma idt_inits [simp]:
  "idt_entries (snd (serial_init COM1 s)) = idt_entries s" "idt_entries (gdt_init s) = idt_entries s"
  "idt_entries (idt_init s) = idt_entries s" "idt_entries (cli s) = idt_entries s" "idt_entries (sti s) = idt_entries s"
  "idt_entries (pic_init s) = idt_entries s"
  by (simp_all add: serial_init_def gdt_init_def idt_init_def cli_def sti_def pic_init_def outbwait_def Let_def)

lemma line_inits [simp]:
  "initialized (snd (serial_init COM1 s)) 0 = 1" "initialized (gdt_init s) = initialized s"
  "initialized (idt_init s) = initialized s" "initialized (cli s) = initialized s" "initialized (sti s) = initialized s"
  "initialized (pic_init s) = initialized s"
  by (simp_all add: serial_init_def serial_devno_def gdt_init_def idt_init_def cli_def sti_def pic_init_def outbwait_def
      outb_def emit_def Let_def)

lemma idt_set_gate_ok:
  "i < length (idt_entries s) \<Longrightarrow>
   \<exists>es. idt_set_gate i b sel f s = Inr (s\<lparr>idt_entries := es\<rparr>) \<and> length es = length (idt_entries s)"
  unfolding idt_set_gate_def Let_def by (simp only: if_True) (rule exI, rule conjI, rule refl, simp)

lemma set_gates_ok:
  "i + length fns \<le> length (idt_entries s) \<Longrightarrow>
   \<exists>es. set_gates i fns s = Inr (s\<lparr>idt_entries := es\<rparr>) \<and> length es = length (idt_entries s)"
proof (induction fns arbitrary: i s)
  case Nil
  then show ?case by (intro exI [of _ "idt_entries s"]) simp
next
  case (Cons fn fns)
  then obtain es where es: "idt_set_gate i fn 0x08 0x8e s = Inr (s\<lparr>idt_entries := es\<rparr>)" "length es = length (idt_entries s)"
    using idt_set_gate_ok [of i s fn "0x08" "0x8e"] by auto
  then show ?case using Cons.IH [of "Suc i" "s\<lparr>idt_entries := es\<rparr>"] Cons.prems by auto
qed

lemma irq_init_ok:
  assumes "length (idt_entries s) = 256"
  shows "\<exists>es. irq_init addr s = Inr (s\<lparr>idt_entries := es\<rparr>) \<and> length es = 256 \<and> calls (es ! 0x60) (addr sys_call_isr)"
proof -
  obtain e1 where e1: "set_gates 0 (map addr isrs) s = Inr (s\<lparr>idt_entries := e1\<rparr>)" "length e1 = 256"
    using set_gates_ok [of 0 "map addr isrs" s] assms by (auto simp: isrs_def)
  obtain e2 where e2: "set_gates (length isrs) (replicate (32 - length isrs) (addr reserved)) (s\<lparr>idt_entries := e1\<rparr>) =
      Inr (s\<lparr>idt_entries := e2\<rparr>)" "length e2 = 256"
    using set_gates_ok [of "length isrs" "replicate (32 - length isrs) (addr reserved)" "s\<lparr>idt_entries := e1\<rparr>"] e1(2)
    by (auto simp: isrs_def)
  obtain e3 where e3: "idt_set_gate 0x08 (addr rtc_isr) 0x08 0x8e (s\<lparr>idt_entries := e2\<rparr>) = Inr (s\<lparr>idt_entries := e3\<rparr>)"
    "length e3 = 256" using idt_set_gate_ok [of 8 "s\<lparr>idt_entries := e2\<rparr>" "addr rtc_isr" "0x08" "0x8e"] e2(2) by auto
  obtain g where g: "idt_set_gate 0x60 (addr sys_call_isr) 0x08 0x8e (s\<lparr>idt_entries := e3\<rparr>) =
      Inr (s\<lparr>idt_entries := e3[0x60 := g]\<rparr>)" "calls g (addr sys_call_isr)"
    using idt_set_gate_calls [of "0x60" "s\<lparr>idt_entries := e3\<rparr>" "addr sys_call_isr"] e3(2) by auto
  then show ?thesis using e1(1) e2(1) e3(1,2) by (intro exI [of _ "e3[0x60 := g]"]) (simp add: irq_init_def Let_def)
qed

lemma klogv_step: "length msg < 2 ^ 31 \<Longrightarrow> \<exists>u. klogv COM1 msg s = Inr u \<and> tables.more u = tables.more s \<and>
    idt_entries u = idt_entries s \<and> initialized u = initialized s"
  using klogv_trace [of msg s] by auto

lemma kmain_tables_ok:
  assumes "length (idt_entries s) = 256"
  shows "\<exists>u. kmain_hardware addr s = vm_init u \<and> tables.more u = tables.more s \<and> length (idt_entries u) = 256 \<and>
    initialized u 0 = 1 \<and> calls (idt_entries u ! 0x60) (addr sys_call_isr)"
proof -
  have m: "length ''Initialized serial I/O on COM1 device...'' < 2 ^ 31" "length ''Initializing Global Descriptor Table...'' < 2 ^ 31"
    "length ''Initializing Interrupt Descriptor Table...'' < 2 ^ 31" "length ''Disabling interrupts...'' < 2 ^ 31"
    "length ''Initializing Interrupt Request routines...'' < 2 ^ 31"
    "length ''Initializing Programmable Interrupt Controller...'' < 2 ^ 31"
    "length ''Enabling Interrupts...'' < 2 ^ 31" "length ''Initializing Virtual Memory...'' < 2 ^ 31" by simp_all
  obtain s1 where s1: "klogv COM1 ''Initialized serial I/O on COM1 device...'' s = Inr s1" "tables.more s1 = tables.more s"
    "idt_entries s1 = idt_entries s" using klogv_step [OF m(1)] by blast
  obtain s2 where s2: "klogv COM1 ''Initializing Global Descriptor Table...'' (snd (serial_init COM1 s1)) = Inr s2"
    "tables.more s2 = tables.more s" "idt_entries s2 = idt_entries s" "initialized s2 0 = 1"
    using klogv_step [OF m(2), of "snd (serial_init COM1 s1)"] s1(2,3) by auto
  obtain s3 where s3: "klogv COM1 ''Initializing Interrupt Descriptor Table...'' (gdt_init s2) = Inr s3"
    "tables.more s3 = tables.more s" "idt_entries s3 = idt_entries s" "initialized s3 0 = 1"
    using klogv_step [OF m(3), of "gdt_init s2"] s2(2-4) by auto
  obtain s4 where s4: "klogv COM1 ''Disabling interrupts...'' (idt_init s3) = Inr s4"
    "tables.more s4 = tables.more s" "idt_entries s4 = idt_entries s" "initialized s4 0 = 1"
    using klogv_step [OF m(4), of "idt_init s3"] s3(2-4) by auto
  obtain s5 where s5: "klogv COM1 ''Initializing Interrupt Request routines...'' (cli s4) = Inr s5"
    "tables.more s5 = tables.more s" "idt_entries s5 = idt_entries s" "initialized s5 0 = 1"
    using klogv_step [OF m(5), of "cli s4"] s4(2-4) by auto
  obtain es where es: "irq_init addr s5 = Inr (s5\<lparr>idt_entries := es\<rparr>)" "length es = 256" "calls (es ! 0x60) (addr sys_call_isr)"
    using irq_init_ok [of s5 addr] s5(3) assms by auto
  obtain s6 where s6: "klogv COM1 ''Initializing Programmable Interrupt Controller...'' (s5\<lparr>idt_entries := es\<rparr>) = Inr s6"
    "tables.more s6 = tables.more s" "idt_entries s6 = es" "initialized s6 0 = 1"
    using klogv_step [OF m(6), of "s5\<lparr>idt_entries := es\<rparr>"] s5(2-4) by auto
  obtain s7 where s7: "klogv COM1 ''Enabling Interrupts...'' (pic_init s6) = Inr s7"
    "tables.more s7 = tables.more s" "idt_entries s7 = es" "initialized s7 0 = 1"
    using klogv_step [OF m(7), of "pic_init s6"] s6(2-4) by auto
  obtain s8 where s8: "klogv COM1 ''Initializing Virtual Memory...'' (sti s7) = Inr s8"
    "tables.more s8 = tables.more s" "idt_entries s8 = es" "initialized s8 0 = 1"
    using klogv_step [OF m(8), of "sti s7"] s7(2-4) by auto
  have "kmain_hardware addr s = vm_init s8"
    using s1(1) s2(1) s3(1) s4(1) s5(1) es(1) s6(1) s7(1) s8(1) by (simp add: kmain_hardware_def Let_def)
  then show ?thesis using s8 es(2,3) by blast
qed

lemma more_fresh:
  assumes "tables.more t = tables.more (s :: 'a kern_scheme)"
  shows "fresh_vm t = fresh_vm s" "boot_pages t = boot_pages s" "vm.more t = vm.more s"
  using assms by (cases s; cases t; simp add: fresh_vm_def bitmap_ok_def used_frames_def boot_pages_def)+

lemma more_kernel:
  assumes "vm.more t = vm.more (s :: 'a kern_scheme)"
  shows "ready_head t = ready_head s" "blocked_head t = blocked_head s" "suspended_head t = suspended_head s"
    "global_pcb t = global_pcb s" "initial_context t = initial_context s" "pcbs t = pcbs s"
  using assms by (cases s; cases t; simp)+

lemma outside_vmD:
  assumes "outside_vm t = outside_vm (s :: 'a vm_scheme)"
  shows "vm.more t = vm.more s" "idt_entries t = idt_entries s" "initialized t = initialized s" "heap_addr t = heap_addr s"
  using arg_cong [OF assms, of vm.more] arg_cong [OF assms, of idt_entries] arg_cong [OF assms, of initialized]
    arg_cong [OF assms, of heap_addr] by (simp_all add: outside_vm_def)

lemma kmain_hardware_ok:
  assumes l: "loaded_image s"
  shows "\<exists>t t0 t1. kmain_hardware addr s = Some (Inr t) \<and> booted t \<and> space t t0 t1 (boot_pages s) \<and>
    calls (idt_entries t ! 0x60) (addr sys_call_isr)"
proof -
  obtain u where u: "kmain_hardware addr s = vm_init u" "tables.more u = tables.more s" "length (idt_entries u) = 256"
    "initialized u 0 = 1" "calls (idt_entries u ! 0x60) (addr sys_call_isr)" using kmain_tables_ok [of s addr] l by (auto simp: loaded_image_def)
  note f = more_fresh [OF u(2)]
  have fu: "fresh_vm u" using l f(1) by (simp add: loaded_image_def)
  obtain t t0 t1 where t: "vm_init u = Some (Inr t)" "heap_is_initialized t" "space t t0 t1 (boot_pages u)"
    "outside_vm t = outside_vm u" using vm_init_space [OF fu] by blast
  note o = outside_vmD [OF t(4)]
  have "vm.more t = vm.more s" using o(1) f(3) by simp
  note k = more_kernel [OF this]
  have "heap_addr t = KHEAP_BASE" using o(4) fu by (simp add: fresh_vm_def)
  then have "booted t" using t(2) o(2,3) u(3,4) k l by (simp add: booted_def kheap_ok_def loaded_image_def)
  then show ?thesis using u(1,5) t(1,3) f(2) o(2) by auto
qed

lemma boot_dispatch:
  assumes "procs_ok t ((\<lambda>_. [])(Ready := [c, i]))" "prio_of t c = 1" "prio_of t i = 9"
    "stack_top (pcbs t c) = c + 1024" "eip (ctxs t (c + 1024)) = e" "slot_of t c = Some Ready" "slot_of t i = Some Ready"
    "global_pcb t = NULL" "initial_context t = NULL"
    and cc: "cc \<noteq> NULL" "cc \<noteq> stack_top (pcbs t c)" "sint (eax k) = op_num IDLE"
  shows "\<exists>r u. sys_call cc (t\<lparr>ctxs := (ctxs t)(cc := k)\<rparr>) = Some (Inr (r, u)) \<and> eip (ctxs u r) = e \<and>
    initial_context u = cc \<and> scheduling u c ((\<lambda>_. [])(Ready := [i]))"
proof -
  let ?t = "t\<lparr>ctxs := (ctxs t)(cc := k)\<rparr>" and ?Q = "(\<lambda>_. [])(Ready := [c, i])"
  have "pcb_queues ?t ?Q" by (rule pcb_queues_same [of t]) (use assms(1) in \<open>simp_all add: procs_ok_def\<close>)
  moreover have "sorted_queue (prio_of ?t) (?Q Ready)" using assms(2,3) by (simp add: sorted_queue_def)
  moreover have "\<forall>p \<in> set (?Q Ready). slot_of ?t p = Some Ready" using assms(6,7) by simp
  ultimately obtain u where u: "sys_call cc ?t = Some (Inr (stack_top (pcbs ?t c), u))"
    "scheduling u c (?Q(Ready := [i]))" "initial_context u = cc" "ctxs u = ctxs ?t"
    using first_dispatch [of ?t ?Q c "[i]" cc] assms(8,9) cc by auto
  have "eip (ctxs u (stack_top (pcbs ?t c))) = e" using u(4) cc(2) assms(4,5) by simp
  then show ?thesis using u(1-3) by auto
qed

section \<open>Properties\<close>

text \<open>
  C11. Booting. From the loaded image (cleared memory, a kernel that ends below 3 MB, an empty process
  table) \<open>kmain\<close> reaches its trap without a fault, whatever the devices answer: in the processor's walk from
  \<open>cr3\<close> the kernel image and everything allocated so far are mapped to themselves except the first page, and exactly two
  processes are ready, the command handler with priority 1 in front of the idle process with
  priority 9. The trap itself, from any context of \<open>kmain\<close> at an address \<open>cc\<close> other than the new
  one, keeps \<open>cc\<close> as the context to return to at the end and resumes the command handler at its function,
  with the scheduler in a state from which all properties of yields hold.
\<close>

theorem boot_runs_commhand:
  assumes "loaded_image s"
  shows "\<exists>h t c i. kmain_hardware addr s = Some (Inr h) \<and> kmain_modules addr entry_commhand entry_idle h = Some (Inr t) \<and>
    (\<forall>trap. kmain trap addr entry_commhand entry_idle s = run_then (trap IDLE 0 [] 0 t) (\<lambda>(_, _, s).
       run_then (Some (klogv COM1 ''Starting system shutdown procedure...'' s)) (\<lambda>s. Some (klogv COM1 ''Halting CPU...'' s)))) \<and>
    (\<forall>a. 0x1000 \<le> unat a \<and> unat a < 4096 * boot_pages s \<longrightarrow> translate h a = Some a) \<and> translate h NULL = None \<and>
    procs_ok t ((\<lambda>_. [])(Ready := [c, i])) \<and>
    named t (c_str ''Command Handler'') c \<and> named t (c_str ''Idle Process'') i \<and> prio_of t c = 1 \<and> prio_of t i = 9 \<and>
    (\<forall>cc k. cc \<noteq> NULL \<and> cc \<noteq> stack_top (pcbs t c) \<and> sint (eax k) = op_num IDLE \<longrightarrow>
       (\<exists>r u. sys_call cc (t\<lparr>ctxs := (ctxs t)(cc := k)\<rparr>) = Some (Inr (r, u)) \<and> eip (ctxs u r) = entry_commhand \<and>
          initial_context u = cc \<and> scheduling u c ((\<lambda>_. [])(Ready := [i]))))"
proof -
  obtain h t0 t1 where h: "kmain_hardware addr s = Some (Inr h)" "booted h" "space h t0 t1 (boot_pages s)"
    using kmain_hardware_ok [OF assms, of addr] by blast
  obtain t c i where t: "kmain_modules addr entry_commhand entry_idle h = Some (Inr t)"
    "procs_ok t ((\<lambda>_. [])(Ready := [c, i]))"
    "named t (c_str ''Command Handler'') c" "named t (c_str ''Idle Process'') i" "prio_of t c = 1" "prio_of t i = 9"
    "stack_top (pcbs t c) = c + 1024" "eip (ctxs t (c + 1024)) = entry_commhand" "slot_of t c = Some Ready" "slot_of t i = Some Ready"
    "global_pcb t = NULL" "initial_context t = NULL"
    using kmain_modules_ok [OF h(2), of addr entry_commhand entry_idle] by blast
  have "kmain trap addr entry_commhand entry_idle s = run_then (trap IDLE 0 [] 0 t) (\<lambda>(_, _, s).
       run_then (Some (klogv COM1 ''Starting system shutdown procedure...'' s)) (\<lambda>s. Some (klogv COM1 ''Halting CPU...'' s)))" for trap
    using h(1) t(1) by (simp add: kmain_def)
  moreover have "translate h a = Some a" if "0x1000 \<le> unat a" "unat a < 4096 * boot_pages s" for a
    using translate_space [OF h(3), of a] that by simp
  moreover have "translate h NULL = None" using translate_space [OF h(3), of NULL] by simp
  ultimately show ?thesis using h(1) t(1-6) boot_dispatch [OF t(2,5-12)] by blast
qed

definition demo_image :: kern where
  "demo_image = (kern_demo 1)\<lparr>ready_head := NULL, global_pcb := NULL, initial_context := NULL,
     frames := replicate 512 0, page_tables := (\<lambda>_ _. zero_entry), phys_alloc_addr := 0x200010,
     heap_is_initialized := False, heap_addr := KHEAP_BASE\<rparr>"

lemma demo_loaded: "loaded_image demo_image"
proof -
  have "length (idt_entries demo_image) = 256" "length (name (pcbs demo_image p)) = 50" for p
    by (simp_all add: demo_image_def kern_demo_def driver.extend_def write_demo_def driver_at_def some_pcb_def)
  moreover have "fresh_vm demo_image"
    using frame_used_zeros [of _ 512] by (auto simp: fresh_vm_def demo_image_def bitmap_ok_def used_frames_def)
  ultimately show ?thesis by (simp add: loaded_image_def demo_image_def kern_demo_simps)
qed

theorem boot_runs_commhand_witness:
  "\<exists>h t c i. kmain_hardware (\<lambda>_. 0x105000) demo_image = Some (Inr h) \<and> translate h 0x105000 = Some 0x105000 \<and>
     kmain_modules (\<lambda>_. 0x105000) 0x106000 0x107000 h = Some (Inr t) \<and>
     pcb_queues t ((\<lambda>_. [])(Ready := [c, i])) \<and> prio_of t c = 1 \<and> prio_of t i = 9"
proof -
  from boot_runs_commhand [OF demo_loaded, of "\<lambda>_. 0x105000" "0x106000" "0x107000"]
  obtain h t c i where b: "kmain_hardware (\<lambda>_. 0x105000) demo_image = Some (Inr h)"
    "kmain_modules (\<lambda>_. 0x105000) 0x106000 0x107000 h = Some (Inr t)"
    "\<And>a. 0x1000 \<le> unat a \<Longrightarrow> unat a < 4096 * boot_pages demo_image \<Longrightarrow> translate h a = Some a"
    "procs_ok t ((\<lambda>_. [])(Ready := [c, i]))" "prio_of t c = 1" "prio_of t i = 9" by blast
  have "boot_pages demo_image = 535" by (simp add: boot_pages_def demo_image_def)
  then have "translate h 0x105000 = Some 0x105000" using b(3) [of "0x105000"] by simp
  then show ?thesis using b(1,2,4-6) unfolding procs_ok_def by blast
qed

end
