(* ===== verification/Machine_Stack.thy ===== *)
theory Machine_Stack
  imports Sys_Call
begin

text \<open>
  The processor as the interrupt stubs see it (\<open>src/kernel/sys_call_isr.s\<close>, \<open>serial_isr.s\<close>): registers,
  a byte-addressed little-endian memory, and the few instructions that the stubs consist of.

  Only the stacks of the processes live in this memory; everything else the kernel keeps is in the
  state of the C model. Segments are flat (base 0, as \<open>gdt_table\<close> sets them up), all code runs in ring 0,
  so that an interrupt pushes no stack pointer. A segment register is pushed zero-extended.
\<close>

section \<open>Model\<close>

datatype reg = EAX | EBX | ECX | EDX | ESP | EBP | ESI | EDI

datatype sreg = CS | DS | ES | FS | GS | SS

record cpu =
  gpr :: "reg \<Rightarrow> u32"
  seg :: "sreg \<Rightarrow> u16"
  pc :: u32
  psw :: u32

type_synonym ram = "u32 \<Rightarrow> u8"

definition get32 :: "ram \<Rightarrow> u32 \<Rightarrow> u32" where
  "get32 m a = ucast (m a) OR push_bit 8 (ucast (m (a + 1))) OR push_bit 16 (ucast (m (a + 2))) OR
     push_bit 24 (ucast (m (a + 3)))"

definition put32 :: "ram \<Rightarrow> u32 \<Rightarrow> u32 \<Rightarrow> ram" where
  "put32 m a v = m(a := ucast v, a + 1 := ucast (drop_bit 8 v), a + 2 := ucast (drop_bit 16 v), a + 3 := ucast (drop_bit 24 v))"

definition set_reg :: "reg \<Rightarrow> u32 \<Rightarrow> cpu \<Rightarrow> cpu" where
  "set_reg r v c = c\<lparr>gpr := (gpr c)(r := v)\<rparr>"

definition set_seg :: "sreg \<Rightarrow> u16 \<Rightarrow> cpu \<Rightarrow> cpu" where
  "set_seg r v c = c\<lparr>seg := (seg c)(r := v)\<rparr>"

subsection \<open>Instructions\<close>

datatype instr = Push reg | Push_Seg sreg | Pop reg | Pop_Seg sreg | Mov reg reg | Add_Imm reg u32

fun push :: "u32 \<Rightarrow> cpu \<times> ram \<Rightarrow> cpu \<times> ram" where
  "push v (c, m) = (let sp = gpr c ESP - 4 in (set_reg ESP sp c, put32 m sp v))"

fun exec :: "instr \<Rightarrow> cpu \<times> ram \<Rightarrow> cpu \<times> ram" where
  "exec (Push r) (c, m) = push (gpr c r) (c, m)"
| "exec (Push_Seg r) (c, m) = push (ucast (seg c r)) (c, m)"
| "exec (Pop r) (c, m) = (set_reg r (get32 m (gpr c ESP)) (set_reg ESP (gpr c ESP + 4) c), m)"
| "exec (Pop_Seg r) (c, m) = (set_seg r (ucast (get32 m (gpr c ESP))) (set_reg ESP (gpr c ESP + 4) c), m)"
| "exec (Mov r q) (c, m) = (set_reg r (gpr c q) c, m)"
| "exec (Add_Imm r n) (c, m) = (set_reg r (gpr c r + n) c, m)"

fun execs :: "instr list \<Rightarrow> cpu \<times> ram \<Rightarrow> cpu \<times> ram" where
  "execs [] x = x"
| "execs (i # is) x = execs is (exec i x)"

text \<open>
  An interrupt through a gate of the IDT: the processor pushes flags, code segment and program counter
  and continues at the address in the gate, with interrupts off if it is an interrupt gate (type 14).
\<close>

fun int_entry :: "idt_entry \<Rightarrow> cpu \<times> ram \<Rightarrow> cpu \<times> ram" where
  "int_entry g (c, m) =
     (let (c', m) = push (pc c) (push (ucast (seg c CS)) (push (psw c) (c, m)))
      in (set_seg CS (sselect g) c'\<lparr>pc := idt_handler g, psw := (if flags g AND 0xF = 14 then psw c AND NOT 0x200 else psw c)\<rparr>, m))"

text \<open>The return, \<open>iret\<close>.\<close>

fun iret :: "cpu \<times> ram \<Rightarrow> cpu \<times> ram" where
  "iret (c, m) =
     (let sp = gpr c ESP
      in (set_reg ESP (sp + 12) (set_seg CS (ucast (get32 m (sp + 4))) (c\<lparr>pc := get32 m sp, psw := get32 m (sp + 8)\<rparr>)), m))"

section \<open>Lemmas\<close>

subsection \<open>Registers\<close>

lemma set_reg_simps [simp]:
  "gpr (set_reg r v c) = (gpr c)(r := v)" "seg (set_reg r v c) = seg c" "pc (set_reg r v c) = pc c" "psw (set_reg r v c) = psw c"
  "gpr (set_seg q u c) = gpr c" "seg (set_seg q u c) = (seg c)(q := u)" "pc (set_seg q u c) = pc c" "psw (set_seg q u c) = psw c"
  by (simp_all add: set_reg_def set_seg_def)

lemma ucast_seg [simp]: "ucast (ucast (x :: u16) :: u32) = x"
  by (rule bit_word_eqI) (auto simp: bit_simps)

lemma cpu_eqI: "gpr c = gpr d \<Longrightarrow> seg c = seg d \<Longrightarrow> pc c = pc d \<Longrightarrow> psw c = psw d \<Longrightarrow> c = (d :: cpu)"
  by simp

lemma all_regs: "(\<forall>r. P r) \<longleftrightarrow> P EAX \<and> P EBX \<and> P ECX \<and> P EDX \<and> P ESP \<and> P EBP \<and> P ESI \<and> P EDI"
  by (metis reg.exhaust)

lemma all_sregs: "(\<forall>r. P r) \<longleftrightarrow> P CS \<and> P DS \<and> P ES \<and> P FS \<and> P GS \<and> P SS"
  by (metis sreg.exhaust)

subsection \<open>Regions of the memory\<close>

text \<open>The \<open>n\<close> bytes from \<open>lo\<close> on.\<close>

definition span :: "u32 \<Rightarrow> nat \<Rightarrow> u32 set" where
  "span lo n = {b. unat (b - lo) < n}"

lemma spanE:
  assumes "b \<in> span lo n"
  obtains i where "i < n" "b = lo + of_nat i"
  using assms that [of "unat (b - lo)"] by (simp add: span_def)

lemma span_offset: "i < 2 ^ 32 \<Longrightarrow> lo + of_nat i \<in> span lo n \<longleftrightarrow> i < n"
  by (simp add: span_def unat_of_nat32)

lemma span_offsetI: "i < n \<Longrightarrow> lo + of_nat i \<in> span lo n"
proof -
  assume "i < n"
  then have "i mod 2 ^ 32 < n" using le_less_trans [OF mod_less_eq_dividend] by blast
  then show ?thesis by (simp add: span_def unat_of_nat take_bit_eq_mod)
qed

lemma span_sub:
  assumes "i + k \<le> n"
  shows "span (lo + of_nat i) k \<subseteq> span lo n"
proof
  fix b assume "b \<in> span (lo + of_nat i) k"
  then obtain j where "j < k" "b = lo + of_nat i + of_nat j" by (rule spanE)
  then have "b = lo + of_nat (i + j)" "i + j < n" using assms by simp_all
  then show "b \<in> span lo n" using span_offsetI by blast
qed

lemma span_before:
  assumes "k + n \<le> 2 ^ 32"
  shows "span (lo - of_nat k) k \<inter> span lo n = {}"
proof -
  have "lo + of_nat i \<notin> span (lo - of_nat k) k" if "i < n" for i
    using span_offset [of "k + i" "lo - of_nat k" k] that assms by simp
  then show ?thesis by (auto elim: spanE)
qed

lemma span_disjoint:
  assumes "n \<le> unat (q - p)" "n \<le> unat (p - q)"
  shows "span p n \<inter> span q n = {}"
proof (rule ccontr)
  assume "span p n \<inter> span q n \<noteq> {}"
  then obtain b where "b \<in> span p n" "b \<in> span q n" by blast
  then obtain i j where ij: "i < n" "j < n" "p + of_nat i = q + of_nat j" by (metis spanE)
  have "unat (q - p) < 2 ^ LENGTH(32)" by (rule unsigned_less)
  then have n: "n < 2 ^ 32" using assms(1) by simp
  have d: "unat (of_nat (j - i) :: u32) = j - i" "unat (of_nat (i - j) :: u32) = i - j" using ij n by (simp_all add: unat_of_nat32)
  consider "i \<le> j" | "j \<le> i" by linarith
  then show False
  proof cases
    case 1
    then have "p - q = of_nat (j - i)" using ij(3) by (simp add: of_nat_diff algebra_simps)
    then show False using assms(2) d(1) ij(2) by simp
  next
    case 2
    then have "q - p = of_nat (i - j)" using ij(3) by (simp add: of_nat_diff algebra_simps)
    then show False using assms(1) d(2) ij(1) by simp
  qed
qed

definition agree_on :: "u32 set \<Rightarrow> ram \<Rightarrow> ram \<Rightarrow> bool" where
  "agree_on S m m' \<longleftrightarrow> (\<forall>b \<in> S. m' b = m b)"

lemma agree_on_refl [simp]: "agree_on S m m"
  by (simp add: agree_on_def)

lemma agree_on_trans: "agree_on S m m' \<Longrightarrow> agree_on S m' m'' \<Longrightarrow> agree_on S m m''"
  by (simp add: agree_on_def)

lemma agree_on_subset: "agree_on S m m' \<Longrightarrow> T \<subseteq> S \<Longrightarrow> agree_on T m m'"
  by (auto simp: agree_on_def)

subsection \<open>Words in memory\<close>

lemma get32_put32: "get32 (put32 m a v) a = v"
proof -
  have "get32 (put32 m a v) a = ucast (ucast v :: u8) OR push_bit 8 (ucast (ucast (drop_bit 8 v) :: u8)) OR
      push_bit 16 (ucast (ucast (drop_bit 16 v) :: u8)) OR push_bit 24 (ucast (ucast (drop_bit 24 v) :: u8))"
    by (simp add: get32_def put32_def)
  also have "\<dots> = v"
  proof (rule bit_word_eqI)
    fix n :: nat assume "n < LENGTH(32)"
    then consider "n < 8" | "8 \<le> n" "n < 16" | "16 \<le> n" "n < 24" | "24 \<le> n" "n < 32" by fastforce
    then show "bit (ucast (ucast v :: u8) OR push_bit 8 (ucast (ucast (drop_bit 8 v) :: u8)) OR
      push_bit 16 (ucast (ucast (drop_bit 16 v) :: u8)) OR push_bit 24 (ucast (ucast (drop_bit 24 v) :: u8)) :: u32) n = bit v n"
      by cases (auto simp: bit_simps)
  qed
  finally show ?thesis .
qed

lemma span4: "span a 4 = {a, a + 1, a + 2, a + 3}"
proof
  show "span a 4 \<subseteq> {a, a + 1, a + 2, a + 3}"
  proof
    fix b assume "b \<in> span a 4"
    then obtain i where "i < 4" "b = a + of_nat i" by (rule spanE)
    moreover from this have "i = 0 \<or> i = 1 \<or> i = 2 \<or> i = 3" by arith
    ultimately show "b \<in> {a, a + 1, a + 2, a + 3}" by auto
  qed
qed (simp add: span_def)

lemma put32_frame: "b \<notin> span a 4 \<Longrightarrow> put32 m a v b = m b"
  by (simp add: put32_def span4)

lemma get32_agree: "agree_on (span a 4) m m' \<Longrightarrow> get32 m' a = get32 m a"
  by (simp add: get32_def agree_on_def span4)

lemma put32_get32: "put32 m a (get32 m a) = m"
proof -
  have "ucast (get32 m a) = m a" "ucast (drop_bit 8 (get32 m a)) = m (a + 1)"
    "ucast (drop_bit 16 (get32 m a)) = m (a + 2)" "ucast (drop_bit 24 (get32 m a)) = m (a + 3)"
    unfolding get32_def by (rule bit_word_eqI; auto simp: bit_simps dest: bit_imp_le_length)+
  then show ?thesis by (auto simp: put32_def)
qed

subsection \<open>Pushed words\<close>

text \<open>The \<open>n\<close> words from \<open>a\<close> on.\<close>

definition words :: "ram \<Rightarrow> u32 \<Rightarrow> nat \<Rightarrow> u32 list" where
  "words m a n = map (\<lambda>i. get32 m (a + of_nat (4 * i))) [0..<n]"

lemma length_words [simp]: "length (words m a n) = n"
  by (simp add: words_def)

lemma words_Suc: "words m a (Suc n) = get32 m a # words m (a + 4) n"
  unfolding words_def upt_conv_Cons [OF zero_less_Suc] map_Suc_upt [symmetric] by (simp add: add.assoc)

lemma words_agree:
  assumes "agree_on (span a (4 * n)) m m'"
  shows "words m' a n = words m a n"
proof -
  have "get32 m' (a + of_nat (4 * i)) = get32 m (a + of_nat (4 * i))" if "i < n" for i
    using that by (intro get32_agree agree_on_subset [OF assms] span_sub) simp
  then show ?thesis by (simp add: words_def)
qed

fun push_all :: "u32 list \<Rightarrow> cpu \<times> ram \<Rightarrow> cpu \<times> ram" where
  "push_all [] x = x"
| "push_all (v # vs) x = push_all vs (push v x)"

lemma push_all_snoc: "push_all (vs @ [v]) x = push v (push_all vs x)"
  by (induction vs arbitrary: x) simp_all

lemma push_all_eq:
  assumes "4 * length vs \<le> 2 ^ 32"
  shows "\<exists>m'. push_all vs (c, m) = (set_reg ESP (gpr c ESP - of_nat (4 * length vs)) c, m') \<and>
    agree_on (- span (gpr c ESP - of_nat (4 * length vs)) (4 * length vs)) m m' \<and>
    words m' (gpr c ESP - of_nat (4 * length vs)) (length vs) = rev vs"
  using assms
proof (induction vs rule: rev_induct)
  case Nil
  then show ?case by (simp add: words_def set_reg_def)
next
  case (snoc v vs)
  let ?n = "length vs"
  let ?a = "gpr c ESP - of_nat (4 * ?n)"
  obtain m' where m': "push_all vs (c, m) = (set_reg ESP ?a c, m')" "agree_on (- span ?a (4 * ?n)) m m'"
    "words m' ?a ?n = rev vs" using snoc by auto
  have a: "gpr c ESP - of_nat (4 * length (vs @ [v])) = ?a - 4" by simp
  let ?m = "put32 m' (?a - 4) v"
  have "push_all (vs @ [v]) (c, m) = (set_reg ESP (?a - 4) c, ?m)"
    using m'(1) by (simp add: push_all_snoc set_reg_def Let_def)
  moreover have "agree_on (- span (?a - 4) (4 * Suc ?n)) m ?m"
  proof -
    have "span ?a (4 * ?n) \<subseteq> span (?a - 4) (4 * Suc ?n)" "span (?a - 4) 4 \<subseteq> span (?a - 4) (4 * Suc ?n)"
      using span_sub [of 4 "4 * ?n" "4 * Suc ?n" "?a - 4"] span_sub [of 0 4 "4 * Suc ?n" "?a - 4"] by simp_all
    then have "?m b = m b" if "b \<in> - span (?a - 4) (4 * Suc ?n)" for b
    proof -
      have "b \<notin> span ?a (4 * ?n)" "b \<notin> span (?a - 4) 4" using that \<open>span ?a (4 * ?n) \<subseteq> _\<close> \<open>span (?a - 4) 4 \<subseteq> _\<close> by blast+
      then show ?thesis using m'(2) put32_frame [of b "?a - 4" m' v] by (simp add: agree_on_def)
    qed
    then show ?thesis unfolding agree_on_def by blast
  qed
  moreover have "words ?m (?a - 4) (Suc ?n) = v # rev vs"
  proof -
    have "span (?a - 4) 4 \<inter> span ?a (4 * ?n) = {}" using span_before [of 4 "4 * ?n" ?a] snoc.prems by simp
    then have "agree_on (span ?a (4 * ?n)) m' ?m" using put32_frame [of _ "?a - 4" m' v] by (auto simp: agree_on_def)
    then have "words ?m ?a ?n = rev vs" using words_agree m'(3) by metis
    then show ?thesis by (simp add: words_Suc get32_put32)
  qed
  ultimately show ?case unfolding a by auto
qed

text \<open>Any words can stand at any place.\<close>

lemma words_exist:
  assumes "4 * length ws \<le> 2 ^ 32"
  shows "\<exists>m'. words m' a (length ws) = ws \<and> agree_on (- span a (4 * length ws)) m m'"
proof -
  let ?c = "\<lparr>gpr = (\<lambda>_. a + of_nat (4 * length ws)), seg = (\<lambda>_. 0), pc = 0, psw = 0\<rparr>"
  show ?thesis using push_all_eq [of "rev ws" ?c m] assms by auto
qed

end
