(* ===== verification/Context_Switch.thy ===== *)
theory Context_Switch
  imports Machine_Stack
begin

text \<open>
  The interrupt stubs \<open>sys_call_isr\<close> and \<open>serial_isr\<close> around the handlers in C, and the trap instruction: what a
  process that executes \<open>int $0x60\<close> goes through.

  A state is the processor, the memory that holds the stacks, and the kernel. The saved contexts that
  \<open>sys_call\<close> gets are the memory, read at the layout of \<open>struct context\<close>. What the compiler makes of the C
  functions is not in the source; the record \<open>compiled\<close> holds what the stubs depend on: how many bytes below
  its argument the function uses on the stack of its caller, what it leaves there, and what is
  left in the registers that a C function need not preserve.
\<close>

section \<open>Model\<close>

record compiled =
  depth :: nat
  leaves :: ram
  eax_left :: u32
  ecx_left :: u32
  edx_left :: u32

text \<open>\<open>struct context\<close> at address \<open>a\<close>.\<close>

definition context_at :: "ram \<Rightarrow> u32 \<Rightarrow> cpu_context" where
  "context_at m a =
     \<lparr>ds_reg = get32 m a, es_reg = get32 m (a + 4), fs_reg = get32 m (a + 8), gs_reg = get32 m (a + 12),
      ss_reg = get32 m (a + 16), eax = get32 m (a + 20), ebx = get32 m (a + 24), ecx = get32 m (a + 28),
      edx = get32 m (a + 32), esp = get32 m (a + 36), ebp = get32 m (a + 40), esi = get32 m (a + 44),
      edi = get32 m (a + 48), eip = get32 m (a + 52), cs_reg = get32 m (a + 56), eflags = get32 m (a + 60)\<rparr>"

definition isr_save :: "instr list" where
  "isr_save =
     [Push EDI, Push ESI, Push EBP, Push ESP, Push EDX, Push ECX, Push EBX, Push EAX,
      Push_Seg SS, Push_Seg GS, Push_Seg FS, Push_Seg ES, Push_Seg DS,
      Push ESP]"

definition isr_restore :: "instr list" where
  "isr_restore =
     [Mov ESP EAX,
      Pop_Seg DS, Pop_Seg ES, Pop_Seg FS, Pop_Seg GS, Pop_Seg SS,
      Pop EAX, Pop EBX, Pop ECX, Pop EDX, Add_Imm ESP 4, Pop EBP, Pop ESI, Pop EDI]"

text \<open>
  The return from a C function whose argument (or, without one, whose caller's frame) starts at \<open>a\<close>: the \<open>depth\<close>
  bytes below \<open>a\<close> hold what the function leaves there.
\<close>

definition after_c :: "compiled \<Rightarrow> u32 \<Rightarrow> ram \<Rightarrow> ram" where
  "after_c k a m = (\<lambda>b. if b \<in> span (a - of_nat (depth k)) (depth k) then leaves k b else m b)"

text \<open>The value returned is in \<open>eax\<close>; \<open>ecx\<close> and \<open>edx\<close> are not preserved.\<close>

definition c_regs :: "compiled \<Rightarrow> u32 \<Rightarrow> cpu \<Rightarrow> cpu" where
  "c_regs k r c = set_reg EAX r (set_reg ECX (ecx_left k) (set_reg EDX (edx_left k) c))"

text \<open>
  \<open>sys_call_isr\<close>. Of the saved contexts \<open>sys_call\<close> writes the field \<open>eax\<close> of its argument only. The
  argument itself, the word at \<open>esp\<close>, belongs to the function, which ends with the processor's \<open>esp\<close> where it
  was.
\<close>

fun sys_call_stub :: "compiled \<Rightarrow> cpu \<times> ram \<Rightarrow> 'a kern_scheme \<Rightarrow> (cpu \<times> ram \<times> 'a kern_scheme) checked option" where
  "sys_call_stub k (c, m) s =
     (let (c, m) = execs isr_save (c, m);
          a = get32 m (gpr c ESP)
      in run_then (sys_call a (s\<lparr>ctxs := context_at m\<rparr>)) (\<lambda>(r, t).
           let m = after_c k (gpr c ESP + 4) (put32 m (a + 20) (eax (ctxs t a)));
               (c, m) = iret (execs isr_restore (c_regs k r c, m))
           in Some (Inr (c, m, t))))"

text \<open>\<open>int $0x60\<close>\<close>

fun trap60 :: "compiled \<Rightarrow> cpu \<times> ram \<times> 'a kern_scheme \<Rightarrow> (cpu \<times> ram \<times> 'a kern_scheme) checked option" where
  "trap60 k (c, m, s) = sys_call_stub k (int_entry (idt_entries s ! 0x60) (c, m)) s"

text \<open>\<open>serial_isr\<close>, from the interrupt on line 4 (vector 0x24) to the interrupted instruction.\<close>

fun serial_stub :: "compiled \<Rightarrow> cpu \<times> ram \<times> 'a kern_scheme \<Rightarrow> (cpu \<times> ram \<times> 'a kern_scheme) checked option" where
  "serial_stub k (c, m, s) =
     (let (c, m) = int_entry (idt_entries s ! 0x24) (c, m)
      in run_then (serial_interrupt s) (\<lambda>t.
           let (c, m) = iret (c_regs k (eax_left k) c, after_c k (gpr c ESP) m)
           in Some (Inr (c, m, t))))"

section \<open>Lemmas\<close>

subsection \<open>Saving and restoring\<close>

text \<open>The processor that a saved context at \<open>a\<close> stands for.\<close>

definition decode :: "ram \<Rightarrow> u32 \<Rightarrow> cpu" where
  "decode m a =
     \<lparr>gpr = (\<lambda>r. case r of EAX \<Rightarrow> get32 m (a + 20) | EBX \<Rightarrow> get32 m (a + 24) | ECX \<Rightarrow> get32 m (a + 28)
        | EDX \<Rightarrow> get32 m (a + 32) | ESP \<Rightarrow> a + 64 | EBP \<Rightarrow> get32 m (a + 40) | ESI \<Rightarrow> get32 m (a + 44) | EDI \<Rightarrow> get32 m (a + 48)),
      seg = (\<lambda>r. case r of CS \<Rightarrow> ucast (get32 m (a + 56)) | DS \<Rightarrow> ucast (get32 m a) | ES \<Rightarrow> ucast (get32 m (a + 4))
        | FS \<Rightarrow> ucast (get32 m (a + 8)) | GS \<Rightarrow> ucast (get32 m (a + 12)) | SS \<Rightarrow> ucast (get32 m (a + 16))),
      pc = get32 m (a + 52), psw = get32 m (a + 60)\<rparr>"

lemma restore_decodes: "iret (execs isr_restore (c_regs k r c, m)) = (decode m r, m)"
proof -
  have "fst (iret (execs isr_restore (c_regs k r c, m))) = decode m r"
    by (rule cpu_eqI) (simp_all add: isr_restore_def c_regs_def decode_def Let_def fun_eq_iff add.commute split: reg.split sreg.split)
  moreover have "snd (iret (execs isr_restore (c_regs k r c, m))) = m"
    by (simp add: isr_restore_def Let_def)
  ultimately show ?thesis by (metis prod.collapse)
qed

text \<open>The words the trap and the stub push, the last one first.\<close>

definition saved_words :: "cpu \<Rightarrow> u32 list" where
  "saved_words c =
     (let e = gpr c ESP
      in [e - 64, ucast (seg c DS), ucast (seg c ES), ucast (seg c FS), ucast (seg c GS), ucast (seg c SS),
          gpr c EAX, gpr c EBX, gpr c ECX, gpr c EDX, e - 24, gpr c EBP, gpr c ESI, gpr c EDI,
          pc c, ucast (seg c CS), psw c])"

lemma save_pushes:
  "\<exists>c'. execs isr_save (int_entry g (c, m)) = (c', snd (push_all (rev (saved_words c)) (c, m))) \<and>
     gpr c' ESP = gpr c ESP - 68"
  by (simp add: isr_save_def saved_words_def set_reg_def set_seg_def Let_def)


lemma cpu_all_eqI:
  fixes c d :: cpu
  shows "gpr c EAX = gpr d EAX \<Longrightarrow> gpr c EBX = gpr d EBX \<Longrightarrow> gpr c ECX = gpr d ECX \<Longrightarrow> gpr c EDX = gpr d EDX \<Longrightarrow>
   gpr c ESP = gpr d ESP \<Longrightarrow> gpr c EBP = gpr d EBP \<Longrightarrow> gpr c ESI = gpr d ESI \<Longrightarrow> gpr c EDI = gpr d EDI \<Longrightarrow>
   seg c CS = seg d CS \<Longrightarrow> seg c DS = seg d DS \<Longrightarrow> seg c ES = seg d ES \<Longrightarrow> seg c FS = seg d FS \<Longrightarrow>
   seg c GS = seg d GS \<Longrightarrow> seg c SS = seg d SS \<Longrightarrow> pc c = pc d \<Longrightarrow> psw c = psw d \<Longrightarrow> c = d"
  using all_regs [of "\<lambda>r. gpr c r = gpr d r"] all_sregs [of "\<lambda>r. seg c r = seg d r"]
  by (intro cpu_eqI) (simp_all add: fun_eq_iff)

text \<open>What the trap and the first half of the stub leave on the stack: a context that stands for the processor.\<close>

lemma save_encodes:
  fixes c :: cpu
  defines "a \<equiv> gpr c ESP - 64"
  shows "\<exists>c' m'. execs isr_save (int_entry g (c, m)) = (c', m') \<and> gpr c' ESP = a - 4 \<and> get32 m' (a - 4) = a \<and>
    decode m' a = c \<and> agree_on (- span (a - 4) 68) m m'"
proof -
  let ?ws = "rev (saved_words c)"
  have n: "length ?ws = 17" by (simp add: saved_words_def Let_def)
  obtain m' where m': "push_all ?ws (c, m) = (set_reg ESP (gpr c ESP - of_nat (4 * length ?ws)) c, m')"
    "agree_on (- span (gpr c ESP - of_nat (4 * length ?ws)) (4 * length ?ws)) m m'"
    "words m' (gpr c ESP - of_nat (4 * length ?ws)) (length ?ws) = rev ?ws"
    using push_all_eq [of ?ws c m] unfolding n by auto
  have a: "gpr c ESP - 68 = a - 4" by (simp add: a_def)
  obtain c' where c': "execs isr_save (int_entry g (c, m)) = (c', m')" "gpr c' ESP = a - 4"
    using save_pushes [of g c m] m'(1) a by auto
  have w: "words m' (a - 4) 17 = saved_words c" using m'(3) a unfolding n by simp
  have at: "get32 m' (a - 4 + of_nat (4 * i)) = saved_words c ! i" if "i < 17" for i
    using arg_cong [OF w, of "\<lambda>l. l ! i"] that by (simp add: words_def)
  have sw: "saved_words c = [a, ucast (seg c DS), ucast (seg c ES), ucast (seg c FS), ucast (seg c GS), ucast (seg c SS),
          gpr c EAX, gpr c EBX, gpr c ECX, gpr c EDX, gpr c ESP - 24, gpr c EBP, gpr c ESI, gpr c EDI,
          pc c, ucast (seg c CS), psw c]" by (simp add: saved_words_def a_def Let_def)
  have "decode m' a = c"
    using at [of 1] at [of 2] at [of 3] at [of 4] at [of 5] at [of 6] at [of 7] at [of 8] at [of 9] at [of 11] at [of 12]
      at [of 13] at [of 14] at [of 15] at [of 16]
    by (intro cpu_all_eqI) (simp_all add: decode_def sw a_def)
  moreover have "get32 m' (a - 4) = a" using at [of 0] by (simp add: sw)
  moreover have "agree_on (- span (a - 4) 68) m m'" using m'(2) a unfolding n by simp
  ultimately show ?thesis using c' by blast
qed

subsection \<open>The trap\<close>

lemma decode_context:
  "eax (context_at m a) = gpr (decode m a) EAX" "ebx (context_at m a) = gpr (decode m a) EBX"
  "ecx (context_at m a) = gpr (decode m a) ECX" "edx (context_at m a) = gpr (decode m a) EDX"
  by (simp_all add: context_at_def decode_def)

text \<open>The memory after \<open>sys_call\<close> with argument \<open>a\<close>: its field \<open>eax\<close> is written, the stack below is used.\<close>

definition kernel_writes :: "compiled \<Rightarrow> u32 \<Rightarrow> u32 \<Rightarrow> ram \<Rightarrow> ram" where
  "kernel_writes k a v m = after_c k a (put32 m (a + 20) v)"

lemma trap60_eq:
  fixes c :: cpu and s :: "'a kern_scheme"
  defines "a \<equiv> gpr c ESP - 64"
  shows "\<exists>m1. decode m1 a = c \<and> agree_on (- span (a - 4) 68) m m1 \<and>
    trap60 k (c, m, s) = run_then (sys_call a (s\<lparr>ctxs := context_at m1\<rparr>)) (\<lambda>(r, t).
      let m2 = kernel_writes k a (eax (ctxs t a)) m1 in Some (Inr (decode m2 r, m2, t)))"
proof -
  obtain c' m1 where sv: "execs isr_save (int_entry (idt_entries s ! 0x60) (c, m)) = (c', m1)" "gpr c' ESP = a - 4"
    "get32 m1 (a - 4) = a" "decode m1 a = c" "agree_on (- span (a - 4) 68) m m1"
    using save_encodes [of "idt_entries s ! 0x60" c m] unfolding a_def by blast
  obtain c0 m0 where e: "int_entry (idt_entries s ! 0x60) (c, m) = (c0, m0)" by (metis prod.exhaust)
  have "sys_call_stub k (c0, m0) s = run_then (sys_call a (s\<lparr>ctxs := context_at m1\<rparr>)) (\<lambda>(r, t).
      let m2 = kernel_writes k a (eax (ctxs t a)) m1 in Some (Inr (decode m2 r, m2, t)))"
    using sv(1,2,3) unfolding e
    by (simp add: kernel_writes_def restore_decodes Let_def del: iret.simps)
  then have "trap60 k (c, m, s) = run_then (sys_call a (s\<lparr>ctxs := context_at m1\<rparr>)) (\<lambda>(r, t).
      let m2 = kernel_writes k a (eax (ctxs t a)) m1 in Some (Inr (decode m2 r, m2, t)))"
    by (simp add: e del: int_entry.simps sys_call_stub.simps)
  then show ?thesis using sv(4,5) by blast
qed

declare trap60.simps [simp del] sys_call_stub.simps [simp del]

text \<open>If the kernel does not change the field, memory changes only below the context.\<close>

lemma kernel_writes_same:
  assumes "v = get32 m (a + 20)"
  shows "kernel_writes k a v m = after_c k a m"
  by (simp add: kernel_writes_def assms put32_get32)

lemma after_c_agree: "agree_on (- span (a - of_nat (depth k)) (depth k)) m (after_c k a m)"
  by (simp add: agree_on_def after_c_def)

lemma decode_agree:
  assumes "agree_on (span a 64) m m'"
  shows "decode m' a = decode m a"
proof -
  have w: "get32 m' (a + of_nat i) = get32 m (a + of_nat i)" if "i + 4 \<le> 64" for i
    by (rule get32_agree [OF agree_on_subset [OF assms span_sub [OF that]]])
  show ?thesis
    using w [of 0] w [of 4] w [of 8] w [of 12] w [of 16] w [of 20] w [of 24] w [of 28] w [of 32] w [of 40] w [of 44] w [of 48]
      w [of 52] w [of 56] w [of 60]
    by (intro cpu_all_eqI) (simp_all add: decode_def)
qed

subsection \<open>The field \<open>eax\<close>\<close>

lemma get32_put32_other: "4 \<le> unat (b - a) \<Longrightarrow> 4 \<le> unat (a - b) \<Longrightarrow> get32 (put32 m a v) b = get32 m b"
  using span_disjoint [of 4 b a] put32_frame [of _ a m v] by (intro get32_agree) (auto simp: agree_on_def)

lemma decode_put_eax: "decode (put32 m (a + 20) v) a = set_reg EAX v (decode m a)"
  by (rule cpu_all_eqI) (simp_all add: decode_def get32_put32 get32_put32_other)

lemma agree_on_put32: "span a 4 \<subseteq> S \<Longrightarrow> agree_on (- S) m (put32 m a v)"
  by (auto simp: agree_on_def intro!: put32_frame)

text \<open>All that a trap writes lies in this region below the stack pointer.\<close>

lemma kernel_writes_agree:
  fixes e :: u32
  assumes "agree_on (- span (e - 68) 68) m m1"
  shows "agree_on (- span (e - of_nat (depth k + 68)) (depth k + 68)) m (kernel_writes k (e - 64) v m1)"
proof -
  let ?lo = "e - of_nat (depth k + 68)"
  let ?R = "span ?lo (depth k + 68)"
  have "span (e - 68) 68 \<subseteq> ?R" using span_sub [of "depth k" 68 "depth k + 68" ?lo] by (simp add: algebra_simps)
  then have a: "agree_on (- ?R) m m1" by (intro agree_on_subset [OF assms]) blast
  have "span (e - 64 + 20) 4 \<subseteq> ?R" using span_sub [of "depth k + 24" 4 "depth k + 68" ?lo] by (simp add: algebra_simps)
  then have b: "agree_on (- ?R) m1 (put32 m1 (e - 64 + 20) v)" by (rule agree_on_put32)
  have "span (e - 64 - of_nat (depth k)) (depth k) \<subseteq> ?R"
    using span_sub [of 4 "depth k" "depth k + 68" ?lo] by (simp add: algebra_simps)
  then have "agree_on (- ?R) (put32 m1 (e - 64 + 20) v) (kernel_writes k (e - 64) v m1)"
    unfolding kernel_writes_def by (intro agree_on_subset [OF after_c_agree]) blast
  then show ?thesis using a b agree_on_trans by blast
qed

section \<open>Properties\<close>

text \<open>
  C33. A request with an unknown number: the trap comes back to the process that made it, with -1 in \<open>eax\<close> and all
  other registers, the program counter and the flags as they were; memory changes only below its stack
  pointer, the kernel not at all. (\<open>sys_req\<close> takes the -1 as the sign to poll the device itself.)
\<close>

theorem unknown_request_returns:
  assumes "sint (gpr c EAX) \<notin> {0, 1, 2, 3}" "gpr c ESP \<noteq> 64" "depth k + 64 \<le> 2 ^ 32"
  shows "\<exists>m' f. trap60 k (c, m, s) = Some (Inr (set_reg EAX (-1) c, m', s\<lparr>ctxs := f\<rparr>)) \<and>
    agree_on (- span (gpr c ESP - of_nat (depth k + 68)) (depth k + 68)) m m'"
proof -
  let ?a = "gpr c ESP - 64"
  obtain m1 where m1: "decode m1 ?a = c" "agree_on (- span (?a - 4) 68) m m1"
    "trap60 k (c, m, s) = run_then (sys_call ?a (s\<lparr>ctxs := context_at m1\<rparr>)) (\<lambda>(r, t).
      let m2 = kernel_writes k ?a (eax (ctxs t ?a)) m1 in Some (Inr (decode m2 r, m2, t)))"
    using trap60_eq [of c m k s] by blast
  have e: "eax (context_at m1 ?a) = gpr c EAX" using m1(1) by (simp add: decode_context)
  let ?f = "(context_at m1)(?a := (context_at m1 ?a)\<lparr>eax := -1\<rparr>)"
  have "sys_call ?a (s\<lparr>ctxs := context_at m1\<rparr>) = Some (Inr (?a, s\<lparr>ctxs := ?f\<rparr>))"
    using assms(1,2) e by (simp add: sys_call_def Let_def)
  then have t: "trap60 k (c, m, s) = Some (Inr (decode (kernel_writes k ?a (-1) m1) ?a, kernel_writes k ?a (-1) m1, s\<lparr>ctxs := ?f\<rparr>))"
    using m1(3) by (simp add: Let_def)
  have "span (?a - of_nat (depth k)) (depth k) \<inter> span ?a 64 = {}" using assms(3) by (intro span_before) simp
  then have "agree_on (span ?a 64) (put32 m1 (?a + 20) (-1)) (kernel_writes k ?a (-1) m1)"
    unfolding kernel_writes_def by (intro agree_on_subset [OF after_c_agree]) blast
  then have "decode (kernel_writes k ?a (-1) m1) ?a = decode (put32 m1 (?a + 20) (-1)) ?a" by (rule decode_agree)
  also have "\<dots> = set_reg EAX (-1) c" by (simp only: decode_put_eax m1(1))
  finally have d: "decode (kernel_writes k ?a (-1) m1) ?a = set_reg EAX (-1) c" .
  have "agree_on (- span (gpr c ESP - of_nat (depth k + 68)) (depth k + 68)) m (kernel_writes k ?a (-1) m1)"
    using m1(2) by (intro kernel_writes_agree) simp
  then show ?thesis using t d by auto
qed

text \<open>Example: a process with 7 in \<open>eax\<close>.\<close>

definition some_compiled :: compiled where
  "some_compiled = \<lparr>depth = 256, leaves = (\<lambda>_. 0xCC), eax_left = 0xE1, ecx_left = 0xE2, edx_left = 0xE3\<rparr>"

definition some_cpu :: "u32 \<Rightarrow> cpu" where
  "some_cpu n = \<lparr>gpr = (\<lambda>r. if r = EAX then n else if r = ESP then 0x843C else 0x77), seg = (\<lambda>r. if r = CS then 8 else 16),
     pc = 0x105123, psw = 0x202\<rparr>"

theorem unknown_request_returns_witness:
  "\<exists>m' t. trap60 some_compiled (some_cpu 7, (\<lambda>_. 0), kern_demo 1) = Some (Inr (some_cpu (-1), m', t)) \<and> m' 0x843C = 0"
proof -
  have "set_reg EAX (-1) (some_cpu 7) = some_cpu (-1)" by (rule cpu_eqI) (auto simp: some_cpu_def)
  moreover have "gpr (some_cpu 7) ESP = 0x843C" "depth some_compiled = 256" by (simp_all add: some_cpu_def some_compiled_def)
  ultimately obtain m' f where t: "trap60 some_compiled (some_cpu 7, \<lambda>_. 0, kern_demo 1) = Some (Inr (some_cpu (-1), m', (kern_demo 1)\<lparr>ctxs := f\<rparr>))"
    "agree_on (- span 0x82f8 324) (\<lambda>_. 0) m'"
    using unknown_request_returns [of "some_cpu 7" some_compiled "\<lambda>_. 0" "kern_demo 1"] by (auto simp: some_cpu_def)
  have "(0x843C :: u32) \<notin> span 0x82f8 324" by (simp add: span_def)
  then have "m' 0x843C = 0" using t(2) by (auto simp: agree_on_def)
  then show ?thesis using t(1) by blast
qed

text \<open>
  C34. \<open>serial_isr\<close> saves no register. After an interrupt of the serial line the interrupted process goes on where
  it was, its stack intact, but with \<open>eax\<close>, \<open>ecx\<close> and \<open>edx\<close> as the compiled handler has left them, whatever the
  process had there.
\<close>

theorem serial_interrupt_clobbers:
  assumes "serial_interrupt s = Some (Inr t)" "depth k + 12 \<le> 2 ^ 32"
  shows "\<exists>m'. serial_stub k (c, m, s) =
      Some (Inr (c\<lparr>gpr := (gpr c)(EAX := eax_left k, ECX := ecx_left k, EDX := edx_left k)\<rparr>, m', t)) \<and>
    agree_on (- span (gpr c ESP - of_nat (depth k + 12)) (depth k + 12)) m m'"
proof -
  let ?e = "gpr c ESP" and ?g = "idt_entries s ! 0x24"
  let ?ws = "[psw c, ucast (seg c CS), pc c]"
  obtain m1 where m1: "push_all ?ws (c, m) = (set_reg ESP (?e - 12) c, m1)" "agree_on (- span (?e - 12) 12) m m1"
    "words m1 (?e - 12) 3 = [pc c, ucast (seg c CS), psw c]"
    using push_all_eq [of ?ws c m] by (auto simp: numeral_3_eq_3)
  obtain c1 where c1: "int_entry ?g (c, m) = (c1, m1)" "gpr c1 = (gpr c)(ESP := ?e - 12)"
    "\<And>r. r \<noteq> CS \<Longrightarrow> seg c1 r = seg c r"
    using m1(1) by (simp add: Let_def set_reg_def)
  let ?m2 = "after_c k (?e - 12) m1"
  have "span (?e - 12 - of_nat (depth k)) (depth k) \<inter> span (?e - 12) 12 = {}" using assms(2) by (intro span_before) simp
  then have "agree_on (span (?e - 12) (4 * 3)) m1 ?m2" by (intro agree_on_subset [OF after_c_agree]) auto
  then have w: "words ?m2 (?e - 12) 3 = [pc c, ucast (seg c CS), psw c]" using words_agree m1(3) by metis
  have p: "get32 ?m2 (?e - 12) = pc c" "get32 ?m2 (?e - 8) = ucast (seg c CS)" "get32 ?m2 (?e - 4) = psw c"
    using w by (simp_all add: words_def upt_rec)
  let ?c = "c\<lparr>gpr := (gpr c)(EAX := eax_left k, ECX := ecx_left k, EDX := edx_left k)\<rparr>"
  have "iret (c_regs k (eax_left k) c1, ?m2) = (?c, ?m2)"
  proof -
    have "fst (iret (c_regs k (eax_left k) c1, ?m2)) = ?c"
      by (rule cpu_all_eqI) (simp_all add: c_regs_def Let_def c1(2,3) p)
    moreover have "snd (iret (c_regs k (eax_left k) c1, ?m2)) = ?m2" by (simp add: Let_def)
    ultimately show ?thesis by (metis prod.collapse)
  qed
  then have "serial_stub k (c, m, s) = Some (Inr (?c, ?m2, t))"
    using c1(1,2) assms(1) by (simp add: Let_def del: int_entry.simps iret.simps)
  moreover have "agree_on (- span (?e - of_nat (depth k + 12)) (depth k + 12)) m ?m2"
  proof -
    let ?lo = "?e - of_nat (depth k + 12)"
    let ?R = "span ?lo (depth k + 12)"
    have "span (?e - 12) 12 \<subseteq> ?R" "span (?e - 12 - of_nat (depth k)) (depth k) \<subseteq> ?R"
      using span_sub [of "depth k" 12 "depth k + 12" ?lo] span_sub [of 0 "depth k" "depth k + 12" ?lo] by (simp_all add: algebra_simps)
    then have "agree_on (- ?R) m m1" "agree_on (- ?R) m1 ?m2"
      by (auto intro: agree_on_subset [OF m1(2)] agree_on_subset [OF after_c_agree])
    then show ?thesis by (rule agree_on_trans)
  qed
  ultimately show ?thesis by blast
qed

theorem serial_interrupt_clobbers_witness:
  "\<exists>c' m' t. serial_stub some_compiled (some_cpu 5, (\<lambda>_. 0), kern_demo 1) = Some (Inr (c', m', t)) \<and>
     gpr c' EAX = 0xE1 \<and> gpr c' EBX = 0x77 \<and> gpr c' ECX = 0xE2 \<and> pc c' = 0x105123"
proof -
  have "\<exists>t. serial_interrupt (kern_demo 1) = Some (Inr t)"
    by (simp add: serial_interrupt_def kern_demo_simps idle_dcb_def split_beta Let_def serial_output_interrupt_def)
  then obtain t where t: "serial_interrupt (kern_demo 1) = Some (Inr t)" by blast
  obtain m' where "serial_stub some_compiled (some_cpu 5, (\<lambda>_. 0), kern_demo 1) =
      Some (Inr ((some_cpu 5)\<lparr>gpr := (gpr (some_cpu 5))(EAX := 0xE1, ECX := 0xE2, EDX := 0xE3)\<rparr>, m', t))"
    using serial_interrupt_clobbers [OF t, of some_compiled "some_cpu 5" "\<lambda>_. 0"] by (auto simp: some_compiled_def)
  then show ?thesis
    by (intro exI [of _ "(some_cpu 5)\<lparr>gpr := (gpr (some_cpu 5))(EAX := 0xE1, ECX := 0xE2, EDX := 0xE3)\<rparr>"] exI [of _ m'] exI [of _ t])
       (simp add: some_cpu_def)
qed

end
