(* ===== verification/Virtual_Processors.thy ===== *)
theory Virtual_Processors
  imports Context_Switch
begin

text \<open>
  What the kernel makes of one processor: each process has a processor and a stack of its own, and the
  trap \<open>IDLE\<close> does nothing but pass the turn on. The abstract machine keeps, for each process that can run, its
  registers and the live part of its stack (its \<open>view\<close>); the concrete one is the processor, the memory and the kernel of
  \<open>Context_Switch\<close>, in which the views of the waiting processes are the contexts the stubs have saved.
\<close>

section \<open>The abstract machine\<close>

type_synonym view = "cpu \<times> u8 list"

text \<open>The running process, the waiting ones in order, and the view of each.\<close>

type_synonym virtual = "u32 \<times> u32 list \<times> (u32 \<rightharpoonup> view)"

text \<open>
  The running process changes its own view, or it gives the processor to the first of those that wait and
  queues up behind its equals; \<open>pr\<close> gives the priorities. A step is labelled with the process whose view it may change.
\<close>

inductive virtual_step :: "(u32 \<Rightarrow> int) \<Rightarrow> u32 option \<Rightarrow> virtual \<Rightarrow> virtual \<Rightarrow> bool" for pr where
  compute: "virtual_step pr (Some g) (g, xs, v) (g, xs, v(g \<mapsto> w))"
| pass_on: "virtual_step pr None (g, x # xs, v) (x, enqueue pr g xs, v)"
| go_on: "virtual_step pr None (g, [], v) (g, [], v)"

inductive_cases virtual_stepE: "virtual_step pr l A B"

inductive virtual_run :: "(u32 \<Rightarrow> int) \<Rightarrow> u32 option list \<Rightarrow> virtual \<Rightarrow> virtual \<Rightarrow> bool" for pr where
  v_stop: "virtual_run pr [] A A"
| v_step: "virtual_step pr l A B \<Longrightarrow> virtual_run pr L B C \<Longrightarrow> virtual_run pr (l # L) A C"

inductive_cases virtual_runE: "virtual_run pr L A B"

lemma virtual_step_other:
  "virtual_step pr l (g, xs, v) (g', xs', v') \<Longrightarrow> p \<in> insert g (set xs) \<Longrightarrow> l \<noteq> Some p \<Longrightarrow>
   v' p = v p \<and> p \<in> insert g' (set xs')"
  by (elim virtual_stepE) auto

lemma virtual_run_other:
  "virtual_run pr L A B \<Longrightarrow> p \<in> insert (fst A) (set (fst (snd A))) \<Longrightarrow> Some p \<notin> set L \<Longrightarrow>
   snd (snd B) p = snd (snd A) p \<and> p \<in> insert (fst B) (set (fst (snd B)))"
proof (induction rule: virtual_run.induct)
  case (v_step l A B L C)
  obtain g xs v where A: "A = (g, xs, v)" by (cases A)
  obtain g' xs' v' where B: "B = (g', xs', v')" by (cases B)
  show ?case using v_step virtual_step_other [of pr l g xs v g' xs' v' p] by (auto simp: A B)
qed simp

section \<open>The concrete machine\<close>

type_synonym 'a board = "cpu \<times> ram \<times> 'a kern_scheme"

definition stack_area :: "u32 \<Rightarrow> u32 set" where
  "stack_area p = span (p + stack_offset) 1024"

text \<open>The bytes from the stack pointer to the end of the stack.\<close>

definition live :: "ram \<Rightarrow> u32 \<Rightarrow> u32 \<Rightarrow> u8 list" where
  "live m p sp = map (\<lambda>i. m (sp + of_nat i)) [0..<unat (p + stack_offset + 1024 - sp)]"

fun view :: "'a board \<Rightarrow> u32 \<Rightarrow> view" where
  "view (c, m, s) p =
     (let v = (if p = global_pcb s then c else decode m (stack_top (pcbs s p))) in (v, live m p (gpr v ESP)))"

text \<open>
  A saved context, and a stack pointer from which a trap has room: it takes 64 bytes for the context, 4
  for the argument, and \<open>depth\<close> for \<open>sys_call\<close>.
\<close>

definition parked :: "compiled \<Rightarrow> u32 \<Rightarrow> u32 \<Rightarrow> bool" where
  "parked k p a \<longleftrightarrow> (\<exists>i. depth k + 4 \<le> i \<and> i \<le> 960 \<and> a = p + stack_offset + of_nat i)"

definition roomy :: "compiled \<Rightarrow> u32 \<Rightarrow> u32 \<Rightarrow> bool" where
  "roomy k p sp \<longleftrightarrow> parked k p (sp - 64)"

definition stacks_apart :: "u32 set \<Rightarrow> bool" where
  "stacks_apart P \<longleftrightarrow> (\<forall>p \<in> P. NULL \<notin> stack_area p \<and> (\<forall>q \<in> P. p \<noteq> q \<longrightarrow> stack_area p \<inter> stack_area q = {}))"

text \<open>The invariant: process \<open>g\<close> runs, \<open>xs\<close> wait.\<close>

fun runs :: "compiled \<Rightarrow> (u32 \<Rightarrow> int) \<Rightarrow> 'a board \<Rightarrow> u32 \<Rightarrow> u32 list \<Rightarrow> bool" where
  "runs k pr (c, m, s) g xs \<longleftrightarrow>
     (\<exists>Q. scheduling s g Q \<and> Q Ready = xs) \<and> prio_of s = pr \<and> stacks_apart (insert g (set xs)) \<and>
     roomy k g (gpr c ESP) \<and> (\<forall>p \<in> set xs. parked k p (stack_top (pcbs s p)))"

definition views :: "'a board \<Rightarrow> u32 \<Rightarrow> u32 list \<Rightarrow> u32 \<rightharpoonup> view" where
  "views X g xs = (\<lambda>p. if p \<in> insert g (set xs) then Some (view X p) else None)"

fun refines :: "compiled \<Rightarrow> (u32 \<Rightarrow> int) \<Rightarrow> 'a board \<Rightarrow> virtual \<Rightarrow> bool" where
  "refines k pr X (g, xs, v) \<longleftrightarrow> runs k pr X g xs \<and> v = views X g xs"

text \<open>
  Steps: the running process computes (any change of its registers and its own stack that leaves room for a
  trap, and of whatever else is in the state, but not of the process table), or traps with \<open>IDLE\<close>.
\<close>

definition same_scheduler :: "'a kern_scheme \<Rightarrow> 'a kern_scheme \<Rightarrow> bool" where
  "same_scheduler s t \<longleftrightarrow> pcbs t = pcbs s \<and> ready_head t = ready_head s \<and> blocked_head t = blocked_head s \<and>
     suspended_head t = suspended_head s \<and> global_pcb t = global_pcb s"

inductive cpu_step :: "compiled \<Rightarrow> u32 option \<Rightarrow> 'a board \<Rightarrow> 'a board \<Rightarrow> bool" for k where
  computes: "agree_on (- stack_area (global_pcb s)) m m' \<Longrightarrow> roomy k (global_pcb s) (gpr c' ESP) \<Longrightarrow>
    same_scheduler s s' \<Longrightarrow> cpu_step k (Some (global_pcb s)) (c, m, s) (c', m', s')"
| traps: "sint (gpr c EAX) = op_num IDLE \<Longrightarrow> trap60 k (c, m, s) = Some (Inr Y) \<Longrightarrow> cpu_step k None (c, m, s) Y"

inductive cpu_run :: "compiled \<Rightarrow> u32 option list \<Rightarrow> 'a board \<Rightarrow> 'a board \<Rightarrow> bool" for k where
  c_stop: "cpu_run k [] X X"
| c_step: "cpu_step k l X Y \<Longrightarrow> cpu_run k L Y Z \<Longrightarrow> cpu_run k (l # L) X Z"

section \<open>Lemmas\<close>

subsection \<open>Stacks\<close>

lemma live_agree: "agree_on (span sp (unat (p + stack_offset + 1024 - sp))) m m' \<Longrightarrow> live m' p sp = live m p sp"
  by (auto simp: live_def agree_on_def intro!: span_offsetI)

text \<open>The stack from a context on: the context itself, then what is live.\<close>

lemma parked_spans:
  assumes "parked k p a"
  shows "span a 64 \<subseteq> stack_area p" "span (a + 64) (unat (p + stack_offset + 1024 - (a + 64))) \<subseteq> stack_area p"
    "span (a - of_nat (depth k + 4)) (depth k + 68) \<subseteq> stack_area p"
    "span (a - of_nat (depth k + 4)) (depth k + 68) \<inter> span (a + 64) (unat (p + stack_offset + 1024 - (a + 64))) = {}"
    "a \<in> stack_area p"
proof -
  obtain i where i: "depth k + 4 \<le> i" "i \<le> 960" "a = p + stack_offset + of_nat i" using assms by (auto simp: parked_def)
  have "p + stack_offset + 1024 - (a + 64) = of_nat (960 - i)" using i(2,3) by (simp add: of_nat_diff)
  then have u: "unat (p + stack_offset + 1024 - (a + 64)) = 960 - i" using unat_of_nat32 [of "960 - i"] by simp
  show "span a 64 \<subseteq> stack_area p" unfolding stack_area_def i(3) using i(2) by (intro span_sub) simp
  show "a \<in> stack_area p" unfolding stack_area_def i(3) using i(2) by (intro span_offsetI) simp
  have a: "a + 64 = p + stack_offset + of_nat (i + 64)" by (simp add: i(3))
  show "span (a + 64) (unat (p + stack_offset + 1024 - (a + 64))) \<subseteq> stack_area p"
    unfolding u unfolding stack_area_def a using i(2) by (intro span_sub) simp
  have l: "a - of_nat (depth k + 4) = p + stack_offset + of_nat (i - (depth k + 4))" using i(1,3) by (simp add: of_nat_diff)
  show "span (a - of_nat (depth k + 4)) (depth k + 68) \<subseteq> stack_area p"
    unfolding l stack_area_def using i(1,2) by (intro span_sub) simp
  have e: "a - of_nat (depth k + 4) = a + 64 - of_nat (depth k + 68)" by simp
  show "span (a - of_nat (depth k + 4)) (depth k + 68) \<inter> span (a + 64) (unat (p + stack_offset + 1024 - (a + 64))) = {}"
    unfolding u e using i(1,2) by (intro span_before) simp
qed

lemma decode_ESP [simp]: "gpr (decode m a) ESP = a + 64"
  by (simp add: decode_def)

lemma view_waiting:
  assumes "parked k p (stack_top (pcbs s p))" "p \<noteq> global_pcb s" "agree_on (stack_area p) m m'"
    "stack_top (pcbs t p) = stack_top (pcbs s p)" "p = global_pcb t \<Longrightarrow> c' = decode m' (stack_top (pcbs s p))"
  shows "view (c', m', t) p = view (c, m, s) p"
proof -
  let ?a = "stack_top (pcbs s p)"
  note sp = parked_spans [OF assms(1)]
  have "decode m' ?a = decode m ?a" by (rule decode_agree [OF agree_on_subset [OF assms(3) sp(1)]])
  moreover have "live m' p (?a + 64) = live m p (?a + 64)" by (rule live_agree [OF agree_on_subset [OF assms(3) sp(2)]])
  ultimately show ?thesis using assms(2,4,5) by (cases "p = global_pcb t") (simp_all add: Let_def)
qed

text \<open>The memory after a trap by process \<open>g\<close>: other stacks are as before, and so is what is live on its own.\<close>

lemma trap_memory:
  fixes c :: cpu
  defines "a \<equiv> gpr c ESP - 64"
  assumes room: "roomy k g (gpr c ESP)" and m1: "decode m1 a = c" "agree_on (- span (a - 4) 68) m m1"
  shows "decode (after_c k a m1) a = c" "agree_on (- stack_area g) m (after_c k a m1)"
    "live (after_c k a m1) g (gpr c ESP) = live m g (gpr c ESP)"
proof -
  let ?m2 = "after_c k a m1"
  let ?R = "span (a - of_nat (depth k + 4)) (depth k + 68)"
  have pk: "parked k g a" using room by (simp add: roomy_def a_def)
  then have d: "depth k + 68 \<le> 1024" by (auto simp: parked_def)
  note sp = parked_spans [OF pk]
  have "span (a - of_nat (depth k)) (depth k) \<inter> span a 64 = {}" using d by (intro span_before) simp
  then have "agree_on (span a 64) m1 ?m2" by (intro agree_on_subset [OF after_c_agree]) blast
  then show "decode ?m2 a = c" using decode_agree m1(1) by metis
  have "span (a - 4) 68 \<subseteq> ?R"
    using span_sub [of "depth k" 68 "depth k + 68" "a - of_nat (depth k + 4)"] by (simp add: algebra_simps)
  moreover have "span (a - of_nat (depth k)) (depth k) \<subseteq> ?R"
    using span_sub [of 4 "depth k" "depth k + 68" "a - of_nat (depth k + 4)"] by (simp add: algebra_simps)
  ultimately have "agree_on (- ?R) m m1" "agree_on (- ?R) m1 ?m2"
    by (auto intro: agree_on_subset [OF m1(2)] agree_on_subset [OF after_c_agree])
  then have R: "agree_on (- ?R) m ?m2" by (rule agree_on_trans)
  then show "agree_on (- stack_area g) m ?m2" using sp(3) by (elim agree_on_subset) blast
  have "a + 64 = gpr c ESP" by (simp add: a_def)
  then show "live ?m2 g (gpr c ESP) = live m g (gpr c ESP)"
    using sp(4) by (intro live_agree agree_on_subset [OF R]) auto
qed

subsection \<open>The trap \<open>IDLE\<close>\<close>

text \<open>The kernel's part: \<open>sys_call\<close> on the saved context, whatever the contexts hold.\<close>

lemma sys_call_turns:
  assumes sch: "scheduling s g Q" and cc: "cc \<noteq> NULL" "sint (eax (f cc)) = op_num IDLE"
  shows "\<exists>r t. sys_call cc (s\<lparr>ctxs := f\<rparr>) = Some (Inr (r, t)) \<and> ctxs t = f \<and> prio_of t = prio_of s \<and>
    (\<forall>p. p \<noteq> g \<longrightarrow> stack_top (pcbs t p) = stack_top (pcbs s p)) \<and>
    (case Q Ready of [] \<Rightarrow> r = cc \<and> (\<exists>Q'. scheduling t g Q' \<and> Q' Ready = [])
     | x # xs \<Rightarrow> r = stack_top (pcbs s x) \<and> stack_top (pcbs t g) = cc \<and>
         (\<exists>Q'. scheduling t x Q' \<and> Q' Ready = enqueue (prio_of s) g xs))"
proof -
  let ?s = "s\<lparr>ctxs := f\<rparr>"
  have s: "scheduling ?s g Q" using scheduling_ctxs(1) [OF sch] .
  have idle: "sys_call cc ?s = idle_case cc (ready_head ?s) ?s" using cc by (intro sys_call_idle) simp_all
  show ?thesis
  proof (cases "Q Ready")
    case Nil
    let ?i = "if initial_context s = NULL then cc else initial_context s"
    let ?t = "?s\<lparr>initial_context := ?i\<rparr>"
    have "sys_call cc ?s = Some (Inr (cc, ?t))"
      using idle scheduling_ready_empty [OF s Nil] by (simp add: idle_case_def Let_def)
    moreover have "scheduling ?t g Q" using scheduling_ctxs(2) [OF s] .
    ultimately show ?thesis using Nil by (intro exI [of _ cc] exI [of _ ?t]) auto
  next
    case (Cons x xs)
    obtain t where "idle_case cc x ?s = Some (Inr (stack_top (pcbs ?s x), t))"
      "scheduling t x (Q(Ready := enqueue (prio_of ?s) g xs))" "prio_of t = prio_of ?s" "ctxs t = ctxs ?s"
      "stack_top (pcbs t g) = cc" "\<forall>p. p \<noteq> g \<longrightarrow> stack_top (pcbs t p) = stack_top (pcbs ?s p)"
      using idle_case_dispatches [OF s Cons, of cc] by blast
    then show ?thesis using idle scheduling_ready_head [OF s Cons] Cons
      by (intro exI [of _ "stack_top (pcbs s x)"] exI [of _ t]) (auto intro!: exI [of _ "Q(Ready := enqueue (prio_of s) g xs)"])
  qed
qed

lemma trap_turns:
  assumes X: "runs k pr (c, m, s) g xs" and idle: "sint (gpr c EAX) = op_num IDLE"
  shows "\<exists>Y. trap60 k (c, m, s) = Some (Inr Y) \<and> (\<forall>p \<in> insert g (set xs). view Y p = view (c, m, s) p) \<and>
    (case xs of [] \<Rightarrow> runs k pr Y g [] | x # ys \<Rightarrow> runs k pr Y x (enqueue pr g ys))"
proof -
  let ?a = "gpr c ESP - 64"
  obtain Q where Q: "scheduling s g Q" "Q Ready = xs" using X by auto
  have pr: "prio_of s = pr" and ap: "stacks_apart (insert g (set xs))" and room: "roomy k g (gpr c ESP)"
    and pk: "\<And>p. p \<in> set xs \<Longrightarrow> parked k p (stack_top (pcbs s p))" using X by auto
  have g: "global_pcb s = g" "g \<notin> set xs" using Q by (auto simp: scheduling_def queued_def)
  have ga: "parked k g ?a" using room by (simp add: roomy_def)
  have a: "?a \<noteq> NULL" using parked_spans(5) [OF ga] ap by (auto simp: stacks_apart_def)
  obtain m1 where m1: "decode m1 ?a = c" "agree_on (- span (?a - 4) 68) m m1"
    "trap60 k (c, m, s) = run_then (sys_call ?a (s\<lparr>ctxs := context_at m1\<rparr>)) (\<lambda>(r, t).
      let m2 = kernel_writes k ?a (eax (ctxs t ?a)) m1 in Some (Inr (decode m2 r, m2, t)))"
    using trap60_eq [of c m k s] by blast
  have ea: "sint (eax (context_at m1 ?a)) = op_num IDLE" using idle m1(1) by (simp add: decode_context)
  obtain r t where t: "sys_call ?a (s\<lparr>ctxs := context_at m1\<rparr>) = Some (Inr (r, t))" "ctxs t = context_at m1"
    "prio_of t = pr" "\<And>p. p \<noteq> g \<Longrightarrow> stack_top (pcbs t p) = stack_top (pcbs s p)"
    "case xs of [] \<Rightarrow> r = ?a \<and> (\<exists>Q'. scheduling t g Q' \<and> Q' Ready = [])
     | x # ys \<Rightarrow> r = stack_top (pcbs s x) \<and> stack_top (pcbs t g) = ?a \<and>
         (\<exists>Q'. scheduling t x Q' \<and> Q' Ready = enqueue pr g ys)"
    using sys_call_turns [where f = "context_at m1", OF Q(1) a ea] Q(2) pr by auto
  let ?m2 = "after_c k ?a m1"
  let ?Y = "(decode ?m2 r, ?m2, t)"
  have "kernel_writes k ?a (eax (ctxs t ?a)) m1 = ?m2"
    unfolding t(2) by (rule kernel_writes_same) (simp add: context_at_def)
  then have Y: "trap60 k (c, m, s) = Some (Inr ?Y)" using m1(3) t(1) by (simp add: Let_def)
  note mem = trap_memory [OF room m1(1,2)]
  have other: "agree_on (stack_area p) m ?m2" if "p \<in> set xs" for p
    using mem(2) ap that g(2) by (elim agree_on_subset) (auto simp: stacks_apart_def)
  have view_other: "view ?Y p = view (c, m, s) p" if p: "p \<in> set xs" "p = global_pcb t \<Longrightarrow> r = stack_top (pcbs s p)" for p
  proof -
    have pg: "p \<noteq> g" using p(1) g(2) by blast
    show ?thesis using pk [OF p(1)] p(2) g(1) pg other [OF p(1)] t(4) [OF pg] by (intro view_waiting) auto
  qed
  show ?thesis
  proof (cases xs)
    case Nil
    then obtain Q' where Q': "r = ?a" "scheduling t g Q'" "Q' Ready = []" using t(5) by auto
    have "runs k pr ?Y g []" using Q' t(3) ap room mem(1) Nil by auto
    moreover have "view ?Y g = view (c, m, s) g"
      using Q'(1,2) g mem by (simp add: scheduling_def Let_def)
    ultimately show ?thesis using Y Nil by auto
  next
    case (Cons x ys)
    then obtain Q' where Q': "r = stack_top (pcbs s x)" "stack_top (pcbs t g) = ?a" "scheduling t x Q'" "Q' Ready = enqueue pr g ys"
      using t(5) by auto
    have x: "global_pcb t = x" "x \<noteq> g" "x \<notin> set ys"
    proof -
      have "x \<notin> set (Q' Ready)" "global_pcb t = x" using Q'(3) unfolding scheduling_def queued_def by blast+
      then show "global_pcb t = x" "x \<noteq> g" "x \<notin> set ys" using Q'(4) by simp_all
    qed
    have "runs k pr ?Y x (enqueue pr g ys)"
    proof -
      have "parked k p (stack_top (pcbs t p))" if "p \<in> set (enqueue pr g ys)" for p
        using that Q'(2) ga t(4) [of p] pk [of p] Cons by (cases "p = g") auto
      moreover have "roomy k x (gpr (decode ?m2 r) ESP)" using Q'(1) pk [of x] Cons by (simp add: roomy_def)
      ultimately show ?thesis using Q'(3,4) t(3) ap Cons by (auto simp: insert_commute)
    qed
    moreover have "view ?Y g = view (c, m, s) g"
      using Q'(2) x(1,2) g mem by (simp add: Let_def)
    moreover have "view ?Y p = view (c, m, s) p" if "p \<in> set xs" for p
      using that x(1) Q'(1) by (intro view_other) auto
    ultimately show ?thesis using Y Cons by auto
  qed
qed

subsection \<open>Simulation\<close>

lemma runs_global: "runs k pr (c, m, s) g xs \<Longrightarrow> global_pcb s = g"
  by (auto simp: scheduling_def)

lemma same_scheduler_scheduling:
  assumes "scheduling s g Q" "same_scheduler s t"
  shows "scheduling t g Q" "prio_of t = prio_of s"
proof -
  have f: "prio_of t = prio_of s" "slot_of t = slot_of s"
    using assms(2) by (simp_all add: same_scheduler_def prio_of_def slot_of_def fun_eq_iff)
  have "pcb_queues t Q" by (rule pcb_queues_same [of s]) (use assms in \<open>simp_all add: scheduling_def same_scheduler_def\<close>)
  then show "scheduling t g Q" using assms by (simp add: scheduling_def same_scheduler_def f)
  show "prio_of t = prio_of s" by (rule f(1))
qed

lemma compute_simulated:
  assumes X: "runs k pr (c, m, s) g xs" and "agree_on (- stack_area g) m m'" "roomy k g (gpr c' ESP)" "same_scheduler s s'"
  shows "runs k pr (c', m', s') g xs" "\<And>p. p \<in> set xs \<Longrightarrow> view (c', m', s') p = view (c, m, s) p"
proof -
  obtain Q where Q: "scheduling s g Q" "Q Ready = xs" using X by auto
  note t = same_scheduler_scheduling [OF Q(1) assms(4)]
  have st: "pcbs s' = pcbs s" "global_pcb s' = g" "global_pcb s = g"
    using assms(4) Q by (auto simp: same_scheduler_def scheduling_def)
  show "runs k pr (c', m', s') g xs" using X t Q(2) assms(3) st by auto
  show "view (c', m', s') p = view (c, m, s) p" if p: "p \<in> set xs" for p
  proof -
    have pg: "p \<noteq> g" using p Q by (auto simp: scheduling_def queued_def)
    then have "stack_area p \<subseteq> - stack_area g" using X p by (fastforce simp: stacks_apart_def)
    then show ?thesis using X p pg st agree_on_subset [OF assms(2)] by (intro view_waiting) auto
  qed
qed

lemma views_cong: "(\<And>p. p \<in> insert g (set xs) \<Longrightarrow> view Y p = view X p) \<Longrightarrow> insert h (set ys) = insert g (set xs) \<Longrightarrow>
    views Y h ys = views X g xs"
  by (auto simp: views_def fun_eq_iff)

lemma step_simulated:
  assumes "refines k pr X A" "cpu_step k l X Y"
  shows "\<exists>B. refines k pr Y B \<and> virtual_step pr l A B"
proof -
  obtain g xs v where A: "A = (g, xs, v)" by (cases A)
  have X: "runs k pr X g xs" and v: "v = views X g xs" using assms(1) by (simp_all add: A)
  show ?thesis using assms(2)
  proof (cases rule: cpu_step.cases)
    case (computes s m m' c' s' c)
    have g: "global_pcb s = g" using X computes(2) runs_global by blast
    note cs = compute_simulated [OF X [unfolded computes(2)] computes(4) [unfolded g] computes(5) [unfolded g] computes(6)]
    have "views Y g xs = v(g \<mapsto> view Y g)"
      using cs(2) unfolding v computes(2,3) by (auto simp: views_def fun_eq_iff simp del: view.simps)
    then have "virtual_step pr l A (g, xs, views Y g xs)"
      unfolding A computes(1) g using virtual_step.compute by simp
    moreover have "refines k pr Y (g, xs, views Y g xs)" using cs(1) computes(3) by simp
    ultimately show ?thesis by blast
  next
    case (traps c m s)
    from trap_turns [OF X [unfolded traps(2)] traps(3)] traps(4)
    have Y: "\<And>p. p \<in> insert g (set xs) \<Longrightarrow> view Y p = view X p"
      "case xs of [] \<Rightarrow> runs k pr Y g [] | x # ys \<Rightarrow> runs k pr Y x (enqueue pr g ys)" unfolding traps(2) by auto
    show ?thesis
    proof (cases xs)
      case Nil
      then have "refines k pr Y (g, [], v)" using Y views_cong [of g xs Y X g "[]"] by (simp add: v)
      moreover have "virtual_step pr l A (g, [], v)" unfolding A Nil traps(1) by (rule virtual_step.go_on)
      ultimately show ?thesis by blast
    next
      case (Cons x ys)
      then have "refines k pr Y (x, enqueue pr g ys, v)"
        using Y views_cong [of g xs Y X x "enqueue pr g ys"] by (simp add: v insert_commute)
      moreover have "virtual_step pr l A (x, enqueue pr g ys, v)" unfolding A Cons traps(1) by (rule virtual_step.pass_on)
      ultimately show ?thesis by blast
    qed
  qed
qed

lemma run_simulated:
  "cpu_run k L X Y \<Longrightarrow> refines k pr X A \<Longrightarrow> \<exists>B. refines k pr Y B \<and> virtual_run pr L A B"
proof (induction arbitrary: A rule: cpu_run.induct)
  case (c_stop X)
  then show ?case using virtual_run.v_stop by blast
next
  case (c_step l X Y L Z)
  then show ?case using step_simulated virtual_run.v_step by metis
qed

lemma refines_view:
  "refines k pr X A \<Longrightarrow> p \<in> insert (fst A) (set (fst (snd A))) \<Longrightarrow> snd (snd A) p = Some (view X p)"
  by (cases A) (auto simp: views_def)

text \<open>
  An example: \<open>aa\<close> at 0x8000 of \<open>kern_demo\<close> runs with four bytes on its stack and is about to yield.
\<close>

definition demo_board :: "unit board" where
  "demo_board = ((some_cpu 1), (\<lambda>a. ucast (a XOR drop_bit 8 a)), kern_demo 1)"

definition demo_virtual :: virtual where
  "demo_virtual = (0x8000, [0x9000, 0xa000], views demo_board 0x8000 [0x9000, 0xa000])"

lemma stacks_apartI:
  assumes "\<And>p. p \<in> P \<Longrightarrow> 1024 \<le> unat (- (p + stack_offset))"
    "\<And>p q. p \<in> P \<Longrightarrow> q \<in> P \<Longrightarrow> p \<noteq> q \<Longrightarrow> 1024 \<le> unat (q - p)"
  shows "stacks_apart P"
proof -
  have "NULL \<notin> stack_area p" if "p \<in> P" for p using assms(1) [OF that] by (simp add: stack_area_def span_def)
  moreover have "stack_area p \<inter> stack_area q = {}" if "p \<in> P" "q \<in> P" "p \<noteq> q" for p q
    unfolding stack_area_def using assms(2) [of p q] assms(2) [of q p] that by (intro span_disjoint) simp_all
  ultimately show ?thesis by (simp add: stacks_apart_def)
qed

lemma demo_refines: "refines some_compiled (prio_of (kern_demo 1)) demo_board demo_virtual"
proof -
  have "stacks_apart {0x8000, 0x9000, 0xa000}" by (rule stacks_apartI) auto
  moreover have "roomy some_compiled 0x8000 (gpr (some_cpu 1) ESP)"
    unfolding roomy_def parked_def by (rule exI [of _ 956]) (simp add: some_compiled_def some_cpu_def)
  moreover have "parked some_compiled p (p + 1024)" for p
    unfolding parked_def by (rule exI [of _ 960]) (simp add: some_compiled_def)
  from this [of "0x9000"] this [of "0xa000"]
  have "parked some_compiled 0x9000 0x9400" "parked some_compiled 0xa000 0xa400" by simp_all
  ultimately show ?thesis
    using kern_demo_scheduling [of 1] by (auto simp: demo_virtual_def demo_board_def kern_demo_simps demo_Q_def intro!: exI [of _ demo_Q])
qed

lemma demo_trap: "\<exists>Z. trap60 some_compiled demo_board = Some (Inr Z) \<and> cpu_run some_compiled [None] demo_board Z"
proof -
  let ?m = "\<lambda>a. ucast (a XOR drop_bit 8 a)"
  have e: "sint (gpr (some_cpu 1) EAX) = op_num IDLE" by (simp add: some_cpu_def)
  have "runs some_compiled (prio_of (kern_demo 1)) ((some_cpu 1), ?m, kern_demo 1) 0x8000 [0x9000, 0xa000]"
    using demo_refines unfolding demo_board_def demo_virtual_def refines.simps by blast
  from trap_turns [OF this e]
  obtain Z where Z: "trap60 some_compiled demo_board = Some (Inr Z)" unfolding demo_board_def by blast
  have "cpu_step some_compiled None demo_board Z" using Z e unfolding demo_board_def by (intro cpu_step.traps)
  then show ?thesis using Z cpu_run.c_step cpu_run.c_stop by metis
qed

section \<open>Properties\<close>

text \<open>
  C3. The kernel gives each process a processor of its own, as long as the only request the processes make is \<open>IDLE\<close>.
  Any run of the machine in which the running process computes (in its own registers and its own stack, leaving the process table
  alone) or traps with \<open>IDLE\<close>, through the trap, the stub and \<open>sys_call\<close>, is a run of the abstract machine: an
  \<open>IDLE\<close> trap changes nobody's registers and live stack, and passes the processor on by priority. After any such run the next
  \<open>IDLE\<close> trap succeeds. Nothing of the sort is claimed for the other requests: \<open>EXIT\<close> faults, \<open>READ\<close> and \<open>WRITE\<close>
  tangle the queues (\<open>Sys_Call\<close>), an unknown number changes \<open>eax\<close> (\<open>Context_Switch\<close>).
\<close>

theorem traps_refine_virtual_processors:
  assumes "refines k pr X A" "cpu_run k L X Y"
  shows "(\<exists>B. refines k pr Y B \<and> virtual_run pr L A B) \<and>
    (\<forall>c m s. Y = (c, m, s) \<and> sint (gpr c EAX) = op_num IDLE \<longrightarrow> (\<exists>Z. trap60 k Y = Some (Inr Z)))"
proof -
  obtain B where B: "refines k pr Y B" "virtual_run pr L A B" using run_simulated [OF assms(2,1)] by blast
  obtain g xs v where "B = (g, xs, v)" by (cases B)
  then have "\<exists>Z. trap60 k Y = Some (Inr Z)" if "Y = (c, m, s)" "sint (gpr c EAX) = op_num IDLE" for c m s
    using B(1) trap_turns [of k pr c m s g xs] that by auto
  then show ?thesis using B by blast
qed

theorem traps_refine_virtual_processors_witness:
  "\<exists>Z. trap60 some_compiled demo_board = Some (Inr Z) \<and>
     (\<exists>v. refines some_compiled (prio_of (kern_demo 1)) Z (0x9000, [0xa000, 0x8000], v))"
proof -
  let ?pr = "prio_of (kern_demo 1)"
  obtain Z where Z: "trap60 some_compiled demo_board = Some (Inr Z)" "cpu_run some_compiled [None] demo_board Z"
    using demo_trap by blast
  obtain B where B: "refines some_compiled ?pr Z B" "virtual_run ?pr [None] demo_virtual B"
    using traps_refine_virtual_processors [OF demo_refines Z(2)] by blast
  have "?pr 0x8000 = ?pr 0xa000" by (simp add: prio_of_def kern_demo_simps some_pcb_def)
  then have "enqueue ?pr 0x8000 [0xa000] = [0xa000, 0x8000]" by (simp add: enqueue_Cons)
  then have "\<exists>v. B = (0x9000, [0xa000, 0x8000], v)"
    using B(2) unfolding demo_virtual_def
    by (auto elim!: virtual_runE virtual_stepE)
  then show ?thesis using Z(1) B(1) by blast
qed

text \<open>
  C10. What a process finds when it runs again. If in the meantime the other processes only compute in their own registers and their own
  stacks, leave the process table alone, and trap with \<open>IDLE\<close>, however often they take turns, then its registers, program
  counter, flags and live stack are those it trapped with. (A \<open>READ\<close>, \<open>WRITE\<close> or \<open>EXIT\<close> of another process, or
  a write outside its stack, is no step of these runs: nothing protects the stacks from each other.)
\<close>

theorem processor_returned_intact:
  assumes "refines k pr X (g, xs, v)" "cpu_run k L X Y" "p \<in> insert g (set xs)" "Some p \<notin> set L"
  shows "view Y p = view X p"
proof -
  obtain B where B: "refines k pr Y B" "virtual_run pr L (g, xs, v) B" using run_simulated [OF assms(2,1)] by blast
  have "snd (snd B) p = v p" "p \<in> insert (fst B) (set (fst (snd B)))"
    using virtual_run_other [OF B(2), of p] assms(3,4) by simp_all
  then show ?thesis using refines_view [OF B(1)] refines_view [OF assms(1)] assms(3) by simp
qed

theorem processor_returned_intact_witness:
  "\<exists>Z. trap60 some_compiled demo_board = Some (Inr Z) \<and> view Z 0x8000 = ((some_cpu 1), [0xB8, 0xB9, 0xBA, 0xBB])"
proof -
  obtain Z where Z: "trap60 some_compiled demo_board = Some (Inr Z)" "cpu_run some_compiled [None] demo_board Z"
    using demo_trap by blast
  have "view Z 0x8000 = view demo_board 0x8000"
    using processor_returned_intact [OF demo_refines [unfolded demo_virtual_def] Z(2), of "0x8000"] by simp
  moreover have "view demo_board 0x8000 = ((some_cpu 1), [0xB8, 0xB9, 0xBA, 0xBB])"
    by (simp add: demo_board_def kern_demo_simps some_cpu_def live_def upt_rec)
  ultimately show ?thesis using Z(1) by simp
qed

end
