(* ===== verification/Boot_Switch.thy ===== *)
theory Boot_Switch
  imports Kernel_Main Virtual_Processors
begin

text \<open>
  The end of \<open>kmain\<close> on the machine: its trap enters the command handler, and from there on each of the two
  processes has a processor of its own in the sense of \<open>Virtual_Processors\<close>. The stacks of the
  processes do not overlap because they lie in different blocks of the heap.
\<close>

section \<open>Lemmas\<close>

text \<open>The processor with which a process set up by \<open>kmain\<close> starts.\<close>

definition start_cpu :: "u32 \<Rightarrow> u32 \<Rightarrow> cpu" where
  "start_cpu p entry =
     \<lparr>gpr = (\<lambda>r. if r = ESP then p + stack_offset + 1024 else if r = EBP then p + stack_offset else 0),
      seg = (\<lambda>r. if r = CS then 0x08 else 0x10), pc = entry, psw = 0x0202\<rparr>"

lemma decode_first:
  assumes "context_at m (p + 1024) = first_context p entry"
  shows "decode m (p + 1024) = start_cpu p entry"
proof -
  note f = assms [unfolded context_at_def first_context_def zero_context_def]
  show ?thesis using f by (intro cpu_all_eqI) (simp_all add: decode_def start_cpu_def)
qed

lemma parked_top: "depth k \<le> 956 \<Longrightarrow> parked k p (p + 1024)"
  unfolding parked_def by (rule exI [of _ 960]) simp

lemma live_heap_range:
  assumes "heap_ok s" "(p, n) \<in> heap_live s"
  shows "unat (memlist s) < p \<and> p + n < 2 ^ 32"
proof -
  obtain bs where h: "heap_blocks s bs" using assms(1) by (auto simp: heap_ok_def)
  then show ?thesis using assms(2) allocated_range [of p n "unat (memlist s)" bs]
    by (auto simp: heap_live_eq [OF h] heap_blocks_def)
qed

lemma apart_words:
  fixes p q :: u32
  assumes "unat p + n < 2 ^ 32" "unat q + m < 2 ^ 32" "1100 \<le> n" "1100 \<le> m" "unat p + n < unat q \<or> unat q + m < unat p"
  shows "1024 \<le> unat (q - p)"
proof (cases "unat p \<le> unat q")
  case True
  then have "unat (q - p) = unat q - unat p" by (simp add: unat_sub word_le_nat_alt)
  then show ?thesis using assms(3,5) True by auto
next
  case False
  then have "unat (q - p) = unat q + 2 ^ 32 - unat p" by (simp add: unat_sub_if_size word_size)
  then show ?thesis using assms(1,3) by auto
qed

text \<open>PCBs in different heap blocks have different stacks.\<close>

lemma heap_stacks_apart:
  assumes "heap_ok s" "\<And>p. p \<in> P \<Longrightarrow> \<exists>n. 1100 \<le> n \<and> (unat p, n) \<in> heap_live s"
  shows "stacks_apart P"
proof (rule stacks_apartI)
  fix p assume "p \<in> P"
  then obtain n where n: "1100 \<le> n" "(unat p, n) \<in> heap_live s" using assms(2) by blast
  have r: "unat p + n < 2 ^ 32" using live_heap_range [OF assms(1) n(2)] by simp
  then have "unat (p + 64) = unat p + 64" using n(1) by (subst unat_add_lem [THEN iffD1]) simp_all
  moreover have "unat (- (p + 64)) = 2 ^ 32 - unat (p + 64)" if "p + 64 \<noteq> 0"
    using unat_sub_if_size [of 0 "p + 64"] that by (simp add: word_size unat_gt_0)
  moreover have "p + 64 \<noteq> 0" using \<open>unat (p + 64) = unat p + 64\<close> by auto
  ultimately show "1024 \<le> unat (- (p + 64))" using r n(1) by simp
next
  fix p q assume pq: "p \<in> P" "q \<in> P" "p \<noteq> q"
  then obtain n m where n: "1100 \<le> n" "(unat p, n) \<in> heap_live s" and m: "1100 \<le> m" "(unat q, m) \<in> heap_live s"
    using assms(2) by meson
  have "(unat p, n) \<noteq> (unat q, m)" using pq(3) by (simp add: word_unat_eq_iff)
  then show "1024 \<le> unat (q - p)"
    using heap_live_disjoint [OF assms(1) n(2) m(2)] live_heap_range [OF assms(1) n(2)] live_heap_range [OF assms(1) m(2)] n(1) m(1)
    by (intro apart_words [of p n q m]) auto
qed

text \<open>Stacks in the kernel heap, and the stack of \<open>kmain\<close> below it.\<close>

lemma stack_area_above:
  assumes "heap_ok s" "(unat p, n) \<in> heap_live s" "1100 \<le> n" "KHEAP_BASE \<le> memlist s" "b \<in> stack_area p"
  shows "KHEAP_BASE \<le> b"
proof -
  obtain j where j: "j < 1024" "b = p + 64 + of_nat j" using assms(5) unfolding stack_area_def by (rule spanE)
  have r: "unat (memlist s) < unat p" "unat p + n < 2 ^ 32" using live_heap_range [OF assms(1,2)] by simp_all
  have "b = of_nat (unat p + 64 + j)" using j(2) by simp
  then have "unat b = unat p + 64 + j" using unat_of_nat32 [of "unat p + 64 + j"] r(2) assms(3) j(1) by simp
  then show ?thesis using r(1) assms(4) by (simp add: word_le_nat_alt)
qed

lemma span_below:
  assumes "n \<le> unat e" "unat e \<le> unat KHEAP_BASE" "b \<in> span (e - of_nat n) n"
  shows "b < KHEAP_BASE"
proof -
  obtain j where j: "j < n" "b = e - of_nat n + of_nat j" using assms(3) by (rule spanE)
  have "b = of_nat (unat e - n + j)" using j(2) assms(1) by (simp add: of_nat_diff)
  moreover have "unat e - n + j < unat KHEAP_BASE" using assms(1,2) j(1) by linarith
  ultimately show ?thesis using unat_of_nat32 [of "unat e - n + j"] by (simp add: word_less_nat_alt)
qed

section \<open>Property\<close>

text \<open>
  C8. From the loaded image to the first instruction of the command handler. \<open>kmain\<close> leaves vector 0x60 leading to
  \<open>sys_call_isr\<close> and two processes set up, \<open>c\<close> and \<open>i\<close>. If the memory holds the contexts it has written, and its own
  stack lies below the kernel heap, then its trap puts the processor at the entry of the command handler with an empty
  stack, flat segments, interrupts on and cleared registers; the idle process waits to start in the same way;
  and all that is proved of the virtual processors holds from there.
\<close>

theorem boot_enters_commhand:
  assumes "loaded_image s"
  shows "\<exists>h t c i. kmain_hardware addr s = Some (Inr h) \<and> kmain_modules addr entry_commhand entry_idle h = Some (Inr t) \<and>
    c \<noteq> i \<and> stacks_apart {c, i} \<and> idt_handler (idt_entries t ! 0x60) = addr sys_call_isr \<and>
    (\<forall>k cpu m. depth k \<le> 956 \<and> (\<forall>p \<in> {c, i}. context_at m (p + 1024) = ctxs t (p + 1024)) \<and>
       depth k + 68 \<le> unat (gpr cpu ESP) \<and> gpr cpu ESP \<le> KHEAP_BASE \<and> sint (gpr cpu EAX) = op_num IDLE \<longrightarrow>
       (\<exists>m' u v. trap60 k (cpu, m, t) = Some (Inr (start_cpu c entry_commhand, m', u)) \<and>
          refines k (prio_of t) (start_cpu c entry_commhand, m', u) (c, [i], v) \<and>
          v c = Some (start_cpu c entry_commhand, []) \<and> v i = Some (start_cpu i entry_idle, [])))"
proof -
  obtain h t0 t1 where h: "kmain_hardware addr s = Some (Inr h)" "booted h" "calls (idt_entries h ! 0x60) (addr sys_call_isr)"
    using kmain_hardware_ok [OF assms, of addr] by blast
  obtain t c i where t: "kmain_modules addr entry_commhand entry_idle h = Some (Inr t)" "procs_ok t ((\<lambda>_. [])(Ready := [c, i]))"
    "c \<noteq> i" "prio_of t c = 1" "prio_of t i = 9" "stack_top (pcbs t c) = c + 1024" "stack_top (pcbs t i) = i + 1024"
    "slot_of t c = Some Ready" "slot_of t i = Some Ready" "global_pcb t = NULL" "initial_context t = NULL"
    "ctxs t (c + 1024) = first_context c entry_commhand" "ctxs t (i + 1024) = first_context i entry_idle"
    "\<exists>n m. 1100 \<le> n \<and> 1100 \<le> m \<and> (unat c, n) \<in> heap_live t \<and> (unat i, m) \<in> heap_live t"
    "idt_entries t ! 0x60 = idt_entries h ! 0x60" "memlist t = heap_addr h"
    using kmain_modules_ok [OF h(2), of addr entry_commhand entry_idle] by blast
  have hb: "KHEAP_BASE \<le> heap_addr h" using h(2) by (simp add: booted_def kheap_ok_def)
  have ap: "stacks_apart {c, i}"
    using t(2,14) by (intro heap_stacks_apart [of t]) (auto simp: procs_ok_def)
  have gate: "idt_handler (idt_entries t ! 0x60) = addr sys_call_isr" using h(3) t(15) by (simp add: calls_def)
  have run: "\<exists>m' u v. trap60 k (cpu, m, t) = Some (Inr (start_cpu c entry_commhand, m', u)) \<and>
      refines k (prio_of t) (start_cpu c entry_commhand, m', u) (c, [i], v) \<and>
      v c = Some (start_cpu c entry_commhand, []) \<and> v i = Some (start_cpu i entry_idle, [])"
    if d: "depth k \<le> 956" and mem: "\<And>p. p \<in> {c, i} \<Longrightarrow> context_at m (p + 1024) = ctxs t (p + 1024)"
      and low: "depth k + 68 \<le> unat (gpr cpu ESP)" "gpr cpu ESP \<le> KHEAP_BASE" and e: "sint (gpr cpu EAX) = op_num IDLE" for k cpu m
  proof -
    have a: "gpr cpu ESP \<noteq> 64" using low(1) by auto
    have sep: "span (gpr cpu ESP - of_nat (depth k + 68)) (depth k + 68) \<inter> stack_area p = {}" if "p \<in> {c, i}" for p
    proof -
      obtain n where "1100 \<le> n" "(unat p, n) \<in> heap_live t" using t(14) \<open>p \<in> {c, i}\<close> by blast
      then have "KHEAP_BASE \<le> b" if "b \<in> stack_area p" for b
        using stack_area_above [of t p n b] t(2,16) hb that by (simp add: procs_ok_def)
      moreover have "b < KHEAP_BASE" if "b \<in> span (gpr cpu ESP - of_nat (depth k + 68)) (depth k + 68)" for b
        using span_below [OF low(1) _ that] low(2) by (simp add: word_le_nat_alt)
      ultimately show ?thesis by (meson disjoint_iff not_le)
    qed
    let ?a = "gpr cpu ESP - 64" and ?Q = "(\<lambda>_. [])(Ready := [c, i])"
    obtain m1 where m1: "decode m1 ?a = cpu" "agree_on (- span (?a - 4) 68) m m1"
      "trap60 k (cpu, m, t) = run_then (sys_call ?a (t\<lparr>ctxs := context_at m1\<rparr>)) (\<lambda>(r, t).
        let m2 = kernel_writes k ?a (eax (ctxs t ?a)) m1 in Some (Inr (decode m2 r, m2, t)))"
      using trap60_eq [of cpu m k t] by blast
    let ?t = "t\<lparr>ctxs := context_at m1\<rparr>"
    have q: "pcb_queues ?t ?Q" by (rule pcb_queues_same [of t]) (use t(2) in \<open>simp_all add: procs_ok_def\<close>)
    have so: "sorted_queue (prio_of ?t) (?Q Ready)" using t(4,5) by (simp add: sorted_queue_def)
    have sl: "\<forall>p \<in> set (?Q Ready). slot_of ?t p = Some Ready" using t(8,9) by simp
    have cc: "?a \<noteq> NULL" "sint (eax (ctxs ?t ?a)) = op_num IDLE" using a e m1(1) by (simp_all add: decode_context)
    have hd: "?Q Ready = c # [i]" "global_pcb ?t = NULL" "initial_context ?t = NULL" using t(10,11) by simp_all
    obtain u where u0: "sys_call ?a ?t = Some (Inr (stack_top (pcbs ?t c), u))" "scheduling u c (?Q(Ready := [i]))"
      "ctxs u = ctxs ?t" "prio_of u = prio_of ?t" "\<forall>p. stack_top (pcbs u p) = stack_top (pcbs ?t p)"
      using first_dispatch [OF q hd so sl cc] by blast
    then have u: "sys_call ?a ?t = Some (Inr (c + 1024, u))" "scheduling u c (?Q(Ready := [i]))" "ctxs u = context_at m1"
      "prio_of u = prio_of t" "stack_top (pcbs u i) = i + 1024"
      using t(6,7) by simp_all
    let ?m2 = "after_c k ?a m1"
    have kw: "kernel_writes k ?a (eax (ctxs u ?a)) m1 = ?m2"
      unfolding u(3) by (rule kernel_writes_same) (simp add: context_at_def)
    have "agree_on (- span (gpr cpu ESP - of_nat (depth k + 68)) (depth k + 68)) m ?m2"
      using kernel_writes_agree [of "gpr cpu ESP" m m1 k "eax (ctxs u ?a)"] m1(2) kw by simp
    then have st: "agree_on (stack_area p) m ?m2" if "p \<in> {c, i}" for p
      using sep [OF that] by (elim agree_on_subset) blast
    have dec: "decode ?m2 (p + 1024) = decode m (p + 1024)" if "p \<in> {c, i}" for p
      using st [OF that] parked_spans(1) [OF parked_top [OF d]] by (intro decode_agree) (rule agree_on_subset)
    have cpus: "decode ?m2 (c + 1024) = start_cpu c entry_commhand" "decode ?m2 (i + 1024) = start_cpu i entry_idle"
      using dec mem t(12,13) by (simp_all add: decode_first)
    let ?X = "(start_cpu c entry_commhand, ?m2, u)"
    have tr: "trap60 k (cpu, m, t) = Some (Inr ?X)" using m1(3) u(1) kw cpus(1) by (simp add: Let_def)
    have g: "global_pcb u = c" using u(2) by (simp add: scheduling_def)
    have "roomy k c (gpr (start_cpu c entry_commhand) ESP)" using parked_top [OF d, of c] by (simp add: roomy_def start_cpu_def add.commute)
    then have "runs k (prio_of t) ?X c [i]"
      using u(2,4,5) ap parked_top [OF d] by auto
    moreover have "view ?X c = (start_cpu c entry_commhand, [])" "view ?X i = (start_cpu i entry_idle, [])"
      using g t(3) u(5) cpus(2) by (simp_all add: start_cpu_def live_def Let_def)
    ultimately show ?thesis using tr
      by (intro exI [of _ ?m2] exI [of _ u] exI [of _ "views ?X c [i]"]) (simp add: views_def del: runs.simps view.simps)
  qed
  show ?thesis
    by (intro exI [of _ h] exI [of _ t] exI [of _ c] exI [of _ i] conjI h(1) t(1) t(3) ap gate allI impI, rule run) auto
qed

text \<open>An example: memory with the two contexts in place, and the processor at the end of \<open>kmain\<close>.\<close>

definition context_words :: "cpu_context \<Rightarrow> u32 list" where
  "context_words x = [ds_reg x, es_reg x, fs_reg x, gs_reg x, ss_reg x, eax x, ebx x, ecx x, edx x, esp x, ebp x, esi x, edi x,
     eip x, cs_reg x, eflags x]"

lemma context_at_words:
  assumes "words m a 16 = context_words x"
  shows "context_at m a = x"
proof -
  have w: "get32 m (a + of_nat (4 * i)) = context_words x ! i" if "i < 16" for i
    using arg_cong [OF assms, of "\<lambda>l. l ! i"] that by (simp add: words_def)
  show ?thesis
    using w [of 0] w [of 1] w [of 2] w [of 3] w [of 4] w [of 5] w [of 6] w [of 7] w [of 8] w [of 9] w [of 10] w [of 11]
      w [of 12] w [of 13] w [of 14] w [of 15]
    by (cases x) (simp add: context_at_def context_words_def)
qed

lemma contexts_exist:
  assumes "stacks_apart {p, q}" "p \<noteq> q"
  shows "\<exists>m. context_at m (p + 1024) = x \<and> context_at m (q + 1024) = y"
proof -
  have l: "length (context_words z) = 16" for z by (simp add: context_words_def)
  obtain m1 where m1: "words m1 (p + 1024) 16 = context_words x"
    using words_exist [of "context_words x" "p + 1024"] l by auto
  obtain m2 where m2: "words m2 (q + 1024) 16 = context_words y" "agree_on (- span (q + 1024) 64) m1 m2"
    using words_exist [of "context_words y" "q + 1024" m1] l by auto
  have s: "span (r + 1024) 64 \<subseteq> stack_area r" for r
    unfolding stack_area_def using span_sub [of 960 64 1024 "r + 64"] by (simp add: add.commute)
  then have "span (p + 1024) 64 \<inter> span (q + 1024) 64 = {}"
  proof -
    have "stack_area p \<inter> stack_area q = {}" using assms by (simp add: stacks_apart_def)
    then show ?thesis using s [of p] s [of q] by blast
  qed
  then have "agree_on (span (p + 1024) (4 * 16)) m1 m2" by (intro agree_on_subset [OF m2(2)]) auto
  then have "words m2 (p + 1024) 16 = context_words x" using words_agree m1 by metis
  then show ?thesis using m2(1) context_at_words by blast
qed

theorem boot_enters_commhand_witness:
  "\<exists>h t c m m' u. kmain_hardware (\<lambda>_. 0x105000) demo_image = Some (Inr h) \<and>
     kmain_modules (\<lambda>_. 0x105000) 0x106000 0x107000 h = Some (Inr t) \<and>
     trap60 some_compiled (some_cpu 1, m, t) = Some (Inr (start_cpu c 0x106000, m', u))"
proof -
  from boot_enters_commhand [OF demo_loaded, of "\<lambda>_. 0x105000" "0x106000" "0x107000"]
  obtain h t c i where b: "kmain_hardware (\<lambda>_. 0x105000) demo_image = Some (Inr h)"
    "kmain_modules (\<lambda>_. 0x105000) 0x106000 0x107000 h = Some (Inr t)" "c \<noteq> i" "stacks_apart {c, i}"
    and run: "\<forall>k cpu m. depth k \<le> 956 \<and> (\<forall>p \<in> {c, i}. context_at m (p + 1024) = ctxs t (p + 1024)) \<and>
       depth k + 68 \<le> unat (gpr cpu ESP) \<and> gpr cpu ESP \<le> KHEAP_BASE \<and> sint (gpr cpu EAX) = op_num IDLE \<longrightarrow>
       (\<exists>m' u v. trap60 k (cpu, m, t) = Some (Inr (start_cpu c 0x106000, m', u)) \<and>
          refines k (prio_of t) (start_cpu c 0x106000, m', u) (c, [i], v) \<and>
          v c = Some (start_cpu c 0x106000, []) \<and> v i = Some (start_cpu i 0x107000, []))"
    by (elim exE conjE) (rule that)
  obtain m where "context_at m (c + 1024) = ctxs t (c + 1024)" "context_at m (i + 1024) = ctxs t (i + 1024)"
    using contexts_exist [OF b(4,3)] by blast
  then have "\<exists>m' u. trap60 some_compiled (some_cpu 1, m, t) = Some (Inr (start_cpu c 0x106000, m', u))"
    using run [rule_format, of some_compiled m "some_cpu 1"] by (auto simp: some_compiled_def some_cpu_def)
  then show ?thesis using b(1,2) by blast
qed

end
