(* ===== verification/Device_Runs.thy ===== *)
theory Device_Runs
  imports Sys_Call
begin

text \<open>
  Runs of the serial device: any sequence of system calls and of interrupts of the line, in any order
  and with any answers of the hardware. The operations are those of \<open>src/kernel/serial.c\<close> and
  \<open>src/kernel/sys_call.c\<close>; this theory adds the step relation and what holds of every run.

  \<open>serial_read\<close> takes a line from the ring buffer (the first property). A read that does not find a
  complete line leaves the device in the state \<open>READ\<close>; as no handler stores input or completes a read, the
  device stays in that state for ever, and no request that comes later is carried out (the second).
\<close>

section \<open>Steps of the device\<close>

inductive dev_step :: "'a kern_scheme \<Rightarrow> 'a kern_scheme \<Rightarrow> bool" where
  call: "sys_call cc s = Some (Inr (r, t)) \<Longrightarrow> dev_step s t"
| line_interrupt: "serial_interrupt s = Some (Inr t) \<Longrightarrow> dev_step s t"
| registers: "dev_step s (s\<lparr>ctxs := c\<rparr>)"
| process_writes: "dev_step s (s\<lparr>bufs := b\<rparr>)"

inductive dev_run :: "'a kern_scheme \<Rightarrow> 'a kern_scheme \<Rightarrow> bool" where
  stop: "dev_run s s"
| step: "dev_run s t \<Longrightarrow> dev_step t u \<Longrightarrow> dev_run s u"

inductive_cases dev_stepE: "dev_step s t"

section \<open>Lemmas\<close>

subsection \<open>Quiet operations\<close>

text \<open>Events that carry no data of a request: reads, the constant 0x02, the end-of-interrupt.\<close>

fun no_data :: "event \<Rightarrow> bool" where
  "no_data (Out p c) \<longleftrightarrow> p = 0x3f8 \<and> c = 2 \<or> p = 0x20 \<and> c = 0x20"
| "no_data (In _ _) \<longleftrightarrow> True"
| "no_data _ \<longleftrightarrow> False"

definition quiet :: "'a driver_scheme \<Rightarrow> 'a driver_scheme \<Rightarrow> bool" where
  "quiet s t \<longleftrightarrow> serial_port t = serial_port s \<and> (\<forall>d. operation (dcbs t d) = operation (dcbs s d)) \<and>
     (\<exists>es. trace t = trace s @ es \<and> list_all no_data es)"

lemma quietI: "serial_port t = serial_port s \<Longrightarrow> (\<And>d. operation (dcbs t d) = operation (dcbs s d)) \<Longrightarrow>
    trace t = trace s @ es \<Longrightarrow> list_all no_data es \<Longrightarrow> quiet s t"
  unfolding quiet_def by blast

lemma quiet_same: "serial_port t = serial_port s \<Longrightarrow> dcbs t = dcbs s \<Longrightarrow> trace t = trace s \<Longrightarrow> quiet s t"
  by (rule quietI [of _ _ "[]"]) simp_all

lemma quiet_trans:
  assumes "quiet s t" "quiet t u" shows "quiet s u"
proof -
  obtain es es' where "trace t = trace s @ es" "list_all no_data es" "trace u = trace t @ es'" "list_all no_data es'"
    using assms unfolding quiet_def by blast
  then show ?thesis using assms by (intro quietI [of _ _ "es @ es'"]) (simp_all add: quiet_def)
qed

lemma quiet_refl [simp]: "quiet s s" by (rule quiet_same) simp_all

lemma quiet_io: "quiet s (snd (inb p s))" "quiet s (outb COM1 0x02 s)" "quiet s (outb 0x20 0x20 s)"
proof -
  show "quiet s (snd (inb p s))" by (rule quietI [of _ _ "[In (ucast p) (env s (ucast p) (reads s))]"]) simp_all
  show "quiet s (outb COM1 0x02 s)" by (rule quietI [of _ _ "[Out 0x3f8 2]"]) (simp_all add: COM1_def)
  show "quiet s (outb 0x20 0x20 s)" by (rule quietI [of _ _ "[Out 0x20 0x20]"]) simp_all
qed

text \<open>An operation that touches neither the port, the control block's operation nor the trace does not matter.\<close>

lemma quiet_right:
  "serial_port u = serial_port t \<Longrightarrow> (\<And>d. operation (dcbs u d) = operation (dcbs t d)) \<Longrightarrow> trace u = trace t \<Longrightarrow>
   quiet s u = quiet s t"
  unfolding quiet_def by simp

lemma quiet_data [simp]:
  "quiet s (upd_iocb r f t) = quiet s t" "quiet s (set_next_iocb r q t) = quiet s t"
  "quiet s (upd_pcb p g t) = quiet s t" "quiet s (set_next_pcb p q t) = quiet s t"
  by (rule quiet_right; simp add: upd_iocb_def set_next_iocb_def upd_pcb_def set_next_pcb_def)+

lemma quiet_head [simp]: "quiet s (set_head Q p t) = quiet s t"
  by (cases Q; rule quiet_right) simp_all

lemma quiet_io_head [simp]: "quiet s (upd_dcb d (\<lambda>b. b\<lparr>io_head := h\<rparr>) t) = quiet s t"
  by (rule quiet_right) simp_all

lemma quiet_fields [simp]:
  "quiet s (t\<lparr>mcbs := m\<rparr>) = quiet s t" "quiet s (t\<lparr>global_pcb := g\<rparr>) = quiet s t" "quiet s (t\<lparr>heap_addr := a\<rparr>) = quiet s t"
  "quiet s (t\<lparr>phys_alloc_addr := a\<rparr>) = quiet s t" "quiet s (t\<lparr>bufs := b\<rparr>) = quiet s t"
  by (rule quiet_right; simp)+

lemma quiet_kern [simp]: "quiet s (t\<lparr>ctxs := c\<rparr>) = quiet s t" "quiet s (t\<lparr>initial_context := i\<rparr>) = quiet s t"
  for s :: "'a kern_scheme"
  by (rule quiet_right; simp)+

subsection \<open>The heap\<close>

lemma quiet_alloc: "sys_alloc_mem n s = Some (Inr (p, t)) \<Longrightarrow> quiet s t" for s :: "'a driver_scheme"
  using allocate_loop_frame [of "roundup n" "memlist s" s]
  by (auto simp: sys_alloc_mem_def allocate_memory_def kmalloc_def alloc_def Let_def split: option.splits alloc_fn.splits
      if_splits)

lemma release_block_frame: "(release_block p b n s)\<lparr>mcbs := x\<rparr> = s\<lparr>mcbs := x\<rparr>"
proof -
  have "(put_mcb a v t)\<lparr>mcbs := x\<rparr> = t\<lparr>mcbs := x\<rparr>" for a v and t :: "'a heap_scheme" by (simp add: put_mcb_def)
  then show ?thesis by (simp add: release_block_def Let_def)
qed

lemma free_loop_frame:
  "free_loop ptr p b n s = Some r \<Longrightarrow> (\<forall>k s'. r = Inr (k, s') \<longrightarrow> s'\<lparr>mcbs := x\<rparr> = s\<lparr>mcbs := x\<rparr>)"
proof (rule free_loop.raw_induct [rotated], assumption)
  fix f ptr p b n r and s :: "'a heap_scheme"
  assume "\<And>ptr p b n s r. f ptr p b n s = Some r \<Longrightarrow> \<forall>k s'. r = Inr (k, s') \<longrightarrow> s'\<lparr>mcbs := x\<rparr> = s\<lparr>mcbs := x\<rparr>"
    and "(if b = NULL then Some (Inr (-1, s))
          else if mcb_start b = ptr \<and> \<not> mcb_isfree (mcbs s b) then Some (Inr (0, release_block p b n s))
          else case mcb_next n s of Inl e \<Rightarrow> Some (Inl e) | Inr n' \<Rightarrow> f ptr b n n' s) = Some r"
  then show "\<forall>k s'. r = Inr (k, s') \<longrightarrow> s'\<lparr>mcbs := x\<rparr> = s\<lparr>mcbs := x\<rparr>"
    using release_block_frame [of x p b n s] by (auto split: if_splits sum.splits)
qed

lemma sys_free_mem_frame:
  assumes a: "sys_free_mem p s = Some (Inr (r, t))" shows "t\<lparr>mcbs := x\<rparr> = s\<lparr>mcbs := x\<rparr>"
proof (cases "free_function s")
  case (Some f)
  then obtain n where "free_loop p NULL (memlist s) n s = Some (Inr (r, t))"
    using a by (cases f) (auto simp: sys_free_mem_def free_memory_def checked_simps)
  then show ?thesis using free_loop_frame [where x = x] by blast
qed (use a in \<open>simp add: sys_free_mem_def\<close>)

lemma quiet_free: "sys_free_mem p s = Some (Inr (r, t)) \<Longrightarrow> quiet s t" for s :: "'a driver_scheme"
proof -
  assume "sys_free_mem p s = Some (Inr (r, t))"
  then have "t\<lparr>mcbs := mcbs s\<rparr> = s" using sys_free_mem_frame [of p s r t "mcbs s"] by simp
  then have "quiet s (t\<lparr>mcbs := mcbs s\<rparr>)" by simp
  then show ?thesis by (simp only: quiet_fields)
qed

subsection \<open>Processes\<close>

lemma quiet_insert:
  assumes "pcb_insert p s = Some (Inr t)" shows "quiet s t"
proof (cases "queue_of (state (pcbs s p))")
  case (Some q)
  then show ?thesis using assms
    by (auto simp: pcb_insert_def Let_def simp del: queue_of.simps set_head.simps split: if_splits option.splits)
qed (use assms in \<open>simp add: pcb_insert_def del: queue_of.simps split: if_splits\<close>)

lemma quiet_remove: "pcb_remove p s = Some (Inr (r, t)) \<Longrightarrow> quiet s t"
  by (auto simp: pcb_remove_def remove_from_def Let_def simp del: set_head.simps split: if_splits option.splits)

lemma quiet_pcb_free:
  assumes "pcb_free p s = Some (Inr (r, t))" "p \<noteq> NULL" shows "quiet s t"
proof -
  obtain k u j where "u = s \<or> sys_free_mem p s = Some (Inr (k, u))" "sys_free_mem p u = Some (Inr (j, t))"
    using assms by (auto simp: pcb_free_def checked_simps split: if_splits)
  then show ?thesis using quiet_free quiet_trans by blast
qed

subsection \<open>The driver while a read is pending\<close>

lemma quiet_scheduler:
  assumes "io_scheduler dev buf len oper s = Some (Inr t)" "operation (dcbs s (serial_port s)) \<noteq> IDLE"
  shows "quiet s t"
proof (cases "dev \<noteq> COM1 \<or> buf = NULL")
  case True
  then show ?thesis using assms by (simp add: io_scheduler_def)
next
  case False
  obtain a s1 where a: "sys_alloc_mem sizeof_iocb s = Some (Inr (a, s1))"
    using assms(1) False by (auto simp: io_scheduler_def checked_simps)
  have q: "quiet s s1" using quiet_alloc [OF a] .
  then have o: "operation (dcbs s1 (serial_port s1)) \<noteq> IDLE" using assms(2) by (simp add: quiet_def)
  let ?f = "\<lambda>b. b\<lparr>buffer := buf, buf_size := sint len, io_device := dev, curr_op := oper,
      curr_proc := global_pcb s1, next_iocb := NULL\<rparr>"
  have "t = upd_dcb (serial_port s1) (\<lambda>b. b\<lparr>io_head := a\<rparr>) (upd_iocb a ?f s1) \<or>
      (\<exists>i. t = set_next_iocb a NULL (set_next_iocb i a (upd_iocb a ?f s1)))"
    using assms(1) False a o
    by (auto simp: io_scheduler_def checked_simps Let_def set_next_iocb_def split: if_splits option.splits)
  then show ?thesis using q by auto
qed

lemma quiet_interrupt:
  assumes "serial_interrupt s = Some (Inr t)" "operation (dcbs s (serial_port s)) = READ"
  shows "quiet s t"
proof -
  let ?d = "serial_port s" let ?s1 = "snd (inb (curr_dev (dcbs s ?d) + IIR) s)"
  have "t = outb 0x20 0x20 (outb COM1 0x02 ?s1) \<or> (\<exists>p. t = outb 0x20 0x20 (snd (inb p ?s1))) \<or> t = outb 0x20 0x20 ?s1"
    using assms by (auto simp: serial_interrupt_def serial_output_interrupt_def serial_input_interrupt_def Let_def
        split_beta checked_simps split: if_splits)
  then show ?thesis using quiet_io(1) [of s] by (blast intro: quiet_trans quiet_io)
qed

subsection \<open>System calls while a read is pending\<close>

definition pending_read :: "'a driver_scheme \<Rightarrow> bool" where
  "pending_read s \<longleftrightarrow> operation (dcbs s (serial_port s)) = READ"

lemma quiet_pending: "quiet s t \<Longrightarrow> pending_read t = pending_read s"
  by (simp add: quiet_def pending_read_def)

lemma quiet_block:
  assumes "block_caller cc oper s = Some (Inr t)" "pending_read s"
  shows "quiet s t"
proof -
  let ?s1 = "upd_pcb (global_pcb s) (\<lambda>b. b\<lparr>stack_top := cc, state := BLOCKED_STATE\<rparr>) s"
  obtain u where u: "io_scheduler (ebx (ctxs ?s1 cc)) (ecx (ctxs ?s1 cc)) (edx (ctxs ?s1 cc)) oper ?s1 = Some (Inr u)"
    "pcb_insert (global_pcb u) u = Some (Inr t)"
    using assms(1) by (auto simp: block_caller_def Let_def checked_simps split: if_splits)
  have q: "quiet s ?s1" by simp
  then have p: "pending_read ?s1" using assms(2) quiet_pending by blast
  have "quiet ?s1 u" by (rule quiet_scheduler [OF u(1)]) (use p in \<open>simp add: pending_read_def\<close>)
  then show ?thesis using quiet_trans [OF q] quiet_trans quiet_insert [OF u(2)] by blast
qed

lemma quiet_dispatch: "dispatch n s = Some (Inr (r, t)) \<Longrightarrow> quiet s t"
proof (cases "n = NULL")
  case False
  assume "dispatch n s = Some (Inr (r, t))"
  then obtain k u where u: "pcb_remove n (s\<lparr>global_pcb := n\<rparr>) = Some (Inr (k, u))"
    "t = upd_pcb (global_pcb (set_next_pcb n NULL u)) (\<lambda>b. b\<lparr>state := READY_STATE\<rparr>) (set_next_pcb n NULL u)"
    using False by (auto simp: dispatch_def Let_def checked_simps)
  have "quiet s (s\<lparr>global_pcb := n\<rparr>)" by simp
  then have "quiet s u" using quiet_trans quiet_remove [OF u(1)] by blast
  then show ?thesis unfolding u(2) by simp
qed (simp add: dispatch_def)

lemma quiet_idle: "idle_case cc n s = Some (Inr (r, t)) \<Longrightarrow> quiet s t"
proof -
  assume a: "idle_case cc n s = Some (Inr (r, t))"
  let ?s1 = "if initial_context s = NULL then s\<lparr>initial_context := cc\<rparr> else s"
  have q1: "quiet s ?s1" by simp
  consider "t = ?s1" | "dispatch n ?s1 = Some (Inr (r, t))" |
    u f where "pcb_insert (global_pcb ?s1) (upd_pcb (global_pcb ?s1) f ?s1) = Some (Inr u)" "dispatch n u = Some (Inr (r, t))"
    using a unfolding idle_case_def Let_def by (auto simp: checked_simps split: if_splits)
  then show ?thesis
  proof cases
    case 3
    have "quiet s (upd_pcb (global_pcb ?s1) f ?s1)" using q1 by simp
    then show ?thesis using quiet_trans quiet_insert [OF 3(1)] quiet_dispatch [OF 3(2)] by blast
  qed (use q1 quiet_trans quiet_dispatch in blast)+
qed

lemma quiet_exit: "exit_case n s = Some (Inr (r, t)) \<Longrightarrow> quiet s t"
proof (cases "global_pcb s = NULL")
  case True
  then show "exit_case n s = Some (Inr (r, t)) \<Longrightarrow> quiet s t" using quiet_dispatch by (simp add: exit_case_def)
next
  case False
  assume "exit_case n s = Some (Inr (r, t))"
  then obtain k u j v where u: "pcb_remove (global_pcb s) s = Some (Inr (k, u))"
    "pcb_free (global_pcb (set_next_pcb n NULL u)) (set_next_pcb n NULL u) = Some (Inr (j, v))" "t = v\<lparr>global_pcb := NULL\<rparr>"
    using False by (auto simp: exit_case_def Let_def checked_simps split: if_splits)
  have "global_pcb u = global_pcb s" using u(1)
    by (auto simp: pcb_remove_def remove_from_def Let_def set_next_pcb_def upd_pcb_def split: if_splits option.splits)
  then have "global_pcb (set_next_pcb n NULL u) \<noteq> NULL" using False by (simp add: set_next_pcb_def upd_pcb_def)
  then have "quiet (set_next_pcb n NULL u) v" by (rule quiet_pcb_free [OF u(2)])
  moreover have "quiet s (set_next_pcb n NULL u)" using quiet_remove [OF u(1)] by simp
  ultimately have "quiet s v" using quiet_trans by blast
  then show ?thesis unfolding u(3) by simp
qed

lemma quiet_call:
  assumes "sys_call cc s = Some (Inr (r, t))" "pending_read s"
  shows "quiet s t"
proof -
  note b = quiet_block and i = quiet_idle
  consider u v where "block_caller cc WRITE s = Some (Inr u)" "block_caller cc WRITE u = Some (Inr v)"
      "idle_case cc (ready_head s) v = Some (Inr (r, t))"
    | v where "block_caller cc READ s = Some (Inr v)" "idle_case cc (ready_head s) v = Some (Inr (r, t))"
    | "idle_case cc (ready_head s) s = Some (Inr (r, t))" | "exit_case (ready_head s) s = Some (Inr (r, t))"
    | c where "t = s\<lparr>ctxs := c\<rparr>"
    using assms(1) by (auto simp: sys_call_def Let_def checked_simps split: if_splits)
  then show ?thesis
  proof cases
    case 1
    have su: "quiet s u" using b [OF 1(1) assms(2)] .
    then have "quiet u v" using b [OF 1(2)] quiet_pending assms(2) by blast
    then show ?thesis using quiet_trans [OF su] quiet_trans i [OF 1(3)] by blast
  next
    case 2
    show ?thesis using quiet_trans [OF b [OF 2(1) assms(2)] i [OF 2(2)]] .
  qed (auto simp: i quiet_exit)
qed

lemma quiet_step: "dev_step s t \<Longrightarrow> pending_read s \<Longrightarrow> quiet s t"
  by (erule dev_stepE) (auto simp: quiet_call quiet_interrupt pending_read_def)

lemma quiet_run: "dev_run s t \<Longrightarrow> pending_read s \<Longrightarrow> quiet s t"
proof (induction rule: dev_run.induct)
  case (step s t u)
  have "quiet s t" using step.IH step.prems .
  moreover have "quiet t u" using quiet_step [OF step.hyps(2)] quiet_pending [OF \<open>quiet s t\<close>] step.prems by blast
  ultimately show ?case by (rule quiet_trans)
qed simp

subsection \<open>Taking a line from the ring buffer\<close>

lemma read_loop_line:
  assumes "0 \<notin> set xs" "10 \<notin> set xs" "i + length xs \<le> len" "len \<le> length buf"
  shows "read_loop (replicate i 0 @ xs @ ys) buf len i i =
    read_loop (replicate (i + length xs) 0 @ ys) (take i buf @ xs @ drop (i + length xs) buf) len (i + length xs) (i + length xs)"
  using assms
proof (induction xs arbitrary: i buf)
  case (Cons x xs)
  let ?ring = "replicate i 0 @ (x # xs) @ ys" and ?buf = "buf[i := x]"
  have i: "i < len" "i < length buf" using Cons.prems(3,4) by simp_all
  have r: "?ring[i := 0] = replicate (Suc i) 0 @ xs @ ys" "?ring ! i = x" "i < length ?ring"
    by (simp_all add: nth_append list_update_append replicate_app_Cons_same)
  have b: "take (Suc i) ?buf = take i buf @ [x]" "drop (Suc i + length xs) ?buf = drop (i + length (x # xs)) buf"
    using i by (simp_all add: take_Suc_conv_app_nth)
  have "read_loop ?ring buf len i i = read_loop (replicate (Suc i) 0 @ xs @ ys) ?buf len (Suc i) (Suc i)"
    using i r Cons.prems(1,2) by (subst read_loop.simps) (simp add: arr_get_def arr_set_def)
  also have "\<dots> = read_loop (replicate (Suc i + length xs) 0 @ ys) (take (Suc i) ?buf @ xs @ drop (Suc i + length xs) ?buf) len
      (Suc i + length xs) (Suc i + length xs)"
    by (rule Cons.IH) (use Cons.prems in simp_all)
  finally show ?case unfolding b by simp
qed simp

text \<open>What is taken: the string up to a new-line, at most \<open>len\<close> bytes of it.\<close>

definition taken_line :: "nat \<Rightarrow> bytes \<Rightarrow> bytes" where
  "taken_line len ring = take len (takeWhile (\<lambda>c. c \<noteq> 10) (cstring ring))"

definition newline_next :: "nat \<Rightarrow> bytes \<Rightarrow> bool" where
  "newline_next len ring \<longleftrightarrow> length (taken_line len ring) < len \<and> length (taken_line len ring) < length (cstring ring)"

lemma taken_line_split:
  assumes "0 \<in> set ring"
  shows "ring = taken_line len ring @ drop (length (taken_line len ring)) ring"
    "0 \<notin> set (taken_line len ring)" "10 \<notin> set (taken_line len ring)" "length (taken_line len ring) < length ring"
    "length (taken_line len ring) < len \<Longrightarrow>
       ring ! length (taken_line len ring) = (if newline_next len ring then 10 else 0)"
proof -
  let ?xs = "cstring ring" and ?t = "taken_line len ring"
  let ?line = "takeWhile (\<lambda>c. c \<noteq> 10) ?xs"
  have l: "length ?xs < length ring" using cstring_length_less [OF assms] .
  have x: "?xs = take (length ?xs) ring" unfolding cstring_def by (metis takeWhile_eq_take)
  have le: "length ?t \<le> length ?line" "length ?line \<le> length ?xs" by (simp_all add: taken_line_def length_takeWhile_le)
  then show "length ?t < length ring" using l by simp
  have "?t = take (length ?t) ?line" unfolding taken_line_def by (metis append_eq_conv_conj append_take_drop_id)
  also have "\<dots> = take (length ?t) ?xs" using le by (metis min_absorb1 takeWhile_eq_take take_take)
  also have "\<dots> = take (length ?t) ring" using le l by (subst x) (simp add: min_absorb1)
  finally show "ring = ?t @ drop (length ?t) ring" by (metis append_take_drop_id)
  show "0 \<notin> set ?t" "10 \<notin> set ?t"
    by (auto simp: taken_line_def cstring_def dest!: in_set_takeD set_takeWhileD)
  show "ring ! length ?t = (if newline_next len ring then 10 else 0)" if "length ?t < len"
  proof -
    have tl: "?t = ?line" using that by (simp add: taken_line_def)
    show ?thesis
    proof (cases "length ?line < length ?xs")
      case True
      then have "?xs ! length ?line = 10" using nth_length_takeWhile [of "\<lambda>c. c \<noteq> 10" ?xs] by simp
      moreover have "?xs ! length ?line = ring ! length ?line" using True by (subst x) simp
      ultimately show ?thesis using True that tl by (simp add: newline_next_def)
    next
      case False
      then have "length ?t = length ?xs" using le tl by simp
      then show ?thesis using nth_after_cstring [OF assms] by (simp add: newline_next_def)
    qed
  qed
qed

lemma read_loop_eq:
  assumes "0 \<in> set ring" "len \<le> length buf"
  shows "read_loop ring buf len 0 0 =
    (let t = taken_line len ring; n = length t; nl = newline_next len ring
     in Inr (nl, replicate n 0 @ (drop n ring)[0 := if nl then 0 else ring ! n], t @ drop n buf, n))"
proof -
  let ?t = "taken_line len ring" let ?n = "length ?t"
  note t = taken_line_split [OF assms(1), of len]
  have n: "?n \<le> len" by (simp add: taken_line_def)
  have "read_loop ring buf len 0 0 = read_loop (replicate ?n 0 @ drop ?n ring) (?t @ drop ?n buf) len ?n ?n"
    using read_loop_line [of ?t 0 len buf "drop ?n ring"] t(1-3) n assms(2) by simp
  moreover have "drop ?n ring = ring ! ?n # drop (Suc ?n) ring" using t(4) by (rule Cons_nth_drop_Suc [symmetric])
  moreover have "\<not> newline_next len ring" if "\<not> ?n < len" using that by (simp add: newline_next_def)
  ultimately show ?thesis using t(4,5)
    by (subst (asm) read_loop.simps) (auto simp: Let_def arr_get_def nth_append list_update_append split: if_splits)
qed

section \<open>Properties\<close>

text \<open>
  C21. \<open>serial_read\<close> on an open, idle port copies the string in the ring buffer up to a new-line, but at
  most \<open>len\<close> bytes, to the start of the caller's buffer and removes from the ring what it copied, and the
  new-line if it reached one. It completes (device idle, event flag set) exactly when it reached a
  new-line or has all \<open>len\<close> bytes; otherwise the device is left in the state \<open>READ\<close>. It returns 0 in every one
  of these cases, also when it has copied bytes and is complete: \<open>serial.h\<close> promises the number of bytes read, and a
  comment in the code says that the actual count is returned to the requestor.
\<close>

theorem serial_read_takes_line:
  assumes "serial_port s = d" "d \<noteq> NULL" "status (dcbs s d) = AVAILABLE" "operation (dcbs s d) = IDLE"
    "buf \<noteq> NULL" "len \<noteq> 0" "0 \<in> set (ring_buffer (dcbs s d))" "unat len \<le> length (bufs s buf)"
  shows "\<exists>t. serial_read dev buf len s = Inr (0, t) \<and>
    (let ring = ring_buffer (dcbs s d); line = taken_line (unat len) ring; n = length line; nl = newline_next (unat len) ring
     in bufs t = (bufs s)(buf := line @ drop n (bufs s buf)) \<and>
        ring_buffer (dcbs t d) = replicate n 0 @ (drop n ring)[0 := if nl then 0 else ring ! n] \<and>
        operation (dcbs t d) = (if nl \<or> n = unat len then IDLE else READ) \<and>
        event_flag (dcbs t d) = (if nl \<or> n = unat len then 1 else 0) \<and> serial_port t = d \<and> trace t = trace s)"
proof -
  let ?ring = "ring_buffer (dcbs s d)"
  have n: "length (taken_line (unat len) ?ring) \<le> unat len" by (simp add: taken_line_def)
  have r: "read_loop ?ring (bufs s buf) (unat len) 0 0 =
    (let t = taken_line (unat len) ?ring; n = length t; nl = newline_next (unat len) ?ring
     in Inr (nl, replicate n 0 @ (drop n ?ring)[0 := if nl then 0 else ?ring ! n], t @ drop n (bufs s buf), n))"
    by (rule read_loop_eq [OF assms(7,8)])
  show ?thesis using assms(1-6) r n by (auto simp: serial_read_def Let_def)
qed

theorem serial_read_takes_line_witness:
  "\<exists>t. serial_read COM1 0x7200 3 (write_demo\<lparr>dcbs := (\<lambda>_. (idle_dcb NULL)\<lparr>ring_buffer := [72, 10, 65, 0]\<rparr>)\<rparr>) = Inr (0, t) \<and>
     bufs t 0x7200 = [72, 105, 33] \<and> ring_buffer (dcbs t 0x7000) = [0, 0, 65, 0] \<and> operation (dcbs t 0x7000) = IDLE"
proof -
  let ?s = "write_demo\<lparr>dcbs := (\<lambda>_. (idle_dcb NULL)\<lparr>ring_buffer := [72, 10, 65, 0]\<rparr>)\<rparr>"
  have f: "serial_port ?s = 0x7000" "bufs ?s = (\<lambda>_. [104, 105, 33])" by (simp_all add: write_demo_simps)
  have "\<exists>t. serial_read COM1 0x7200 3 ?s = Inr (0, t) \<and>
    (let ring = [72, 10, 65, 0]; line = taken_line 3 ring; n = length line; nl = newline_next 3 ring
     in bufs t = (bufs ?s)(0x7200 := line @ drop n (bufs ?s 0x7200)) \<and>
        ring_buffer (dcbs t 0x7000) = replicate n 0 @ (drop n ring)[0 := if nl then 0 else ring ! n] \<and>
        operation (dcbs t 0x7000) = (if nl \<or> n = 3 then IDLE else READ))"
    using serial_read_takes_line [of ?s "0x7000" "0x7200" 3 COM1] f by (auto simp: idle_dcb_def Let_def)
  then show ?thesis by (auto simp: f taken_line_def newline_next_def Let_def)
qed

text \<open>
  C15. A read that does not find a complete line blocks the device for ever. Once \<open>serial_read\<close> has left the
  device in the state \<open>READ\<close>, then whatever system calls the processes make, whatever interrupts the line
  raises and whatever the hardware answers, the device is still in that state, and nothing was
  written to any port but the constant 0x02 and end-of-interrupt commands: no byte of any later \<open>WRITE\<close> is
  ever sent. (What a process writes to the ports itself, when it polls, is not a step of the device.)
\<close>

theorem unfinished_read_blocks_device:
  assumes "serial_port s = d" "d \<noteq> NULL" "status (dcbs s d) = AVAILABLE" "operation (dcbs s d) = IDLE"
    "buf \<noteq> NULL" "len \<noteq> 0" "0 \<in> set (ring_buffer (dcbs s d))" "unat len \<le> length (bufs s buf)"
    and "\<not> newline_next (unat len) (ring_buffer (dcbs s d))" "length (taken_line (unat len) (ring_buffer (dcbs s d))) < unat len"
  shows "\<exists>t. serial_read dev buf len s = Inr (0, t) \<and>
    (\<forall>u. dev_run t u \<longrightarrow> operation (dcbs u (serial_port u)) = READ \<and> (\<exists>es. trace u = trace t @ es \<and> list_all no_data es))"
proof -
  obtain t where t: "serial_read dev buf len s = Inr (0, t)" "operation (dcbs t d) = READ" "serial_port t = d"
    using read_loop_eq [OF assms(7,8)] assms(1-6,9,10) by (auto simp: serial_read_def Let_def)
  have "pending_read t" using t by (simp add: pending_read_def)
  then have "operation (dcbs u (serial_port u)) = READ \<and> (\<exists>es. trace u = trace t @ es \<and> list_all no_data es)" if "dev_run t u" for u
    using quiet_run [OF that] quiet_pending [of t u] by (auto simp: quiet_def pending_read_def)
  then show ?thesis using t(1) by blast
qed

theorem unfinished_read_blocks_device_witness:
  "\<exists>t. serial_read COM1 0x7200 3 (kern_demo 1) = Inr (0, t) \<and>
     (\<forall>u. serial_interrupt t = Some (Inr u) \<longrightarrow> operation (dcbs u (serial_port u)) = READ)"
proof -
  have f: "serial_port (kern_demo 1) = 0x7000" "dcbs (kern_demo 1) = (\<lambda>_. idle_dcb 0x7100)"
    "bufs (kern_demo 1) = (\<lambda>_. [104, 105, 33])" by (simp_all add: kern_demo_def driver.extend_def write_demo_def driver_at_def)
  from unfinished_read_blocks_device [of "kern_demo 1" "0x7000" "0x7200" 3 COM1]
  obtain t where t: "serial_read COM1 0x7200 3 (kern_demo 1) = Inr (0, t)"
    "\<And>u. dev_run t u \<Longrightarrow> operation (dcbs u (serial_port u)) = READ"
    by (auto simp: f idle_dcb_def taken_line_def newline_next_def)
  have "dev_run t u" if "serial_interrupt t = Some (Inr u)" for u
    using dev_run.step [OF dev_run.stop dev_step.line_interrupt [OF that]] .
  then show ?thesis using t by blast
qed

end
