(* ===== verification/Process_Types.thy ===== *)
theory Process_Types
  imports Process_Commands Device_Runs
begin

text \<open>
  The types of the fields of a PCB: class, priority and state are C \<open>int\<close>s of which only a few values
  make sense. This theory shows that every operation that writes them keeps them in range: the
  system call handler, the process commands of \<open>src/user/commhand.c\<close> and the creation of processes.

  The operations are long sequences of requests and queue operations. \<open>valid m R\<close> says that \<open>R\<close> holds of
  the result if the computation \<open>m\<close> gives one; the rules for sequencing reduce a whole command to
  one lemma per call.
\<close>

section \<open>Results of sequences\<close>

definition valid :: "'b checked option \<Rightarrow> ('b \<Rightarrow> bool) \<Rightarrow> bool" where
  "valid m R \<longleftrightarrow> (\<forall>x. m = Some (Inr x) \<longrightarrow> R x)"

lemma validI: "(\<And>x. m = Some (Inr x) \<Longrightarrow> R x) \<Longrightarrow> valid m R"
  by (simp add: valid_def)

lemma validD: "valid m R \<Longrightarrow> m = Some (Inr x) \<Longrightarrow> R x"
  by (simp add: valid_def)

lemma valid_simps [simp]: "valid (Some (Inr x)) R \<longleftrightarrow> R x" "valid (Some (Inl e)) R" "valid None R"
  by (simp_all add: valid_def)

lemma valid_call: "valid m Q \<Longrightarrow> (\<And>x. Q x \<Longrightarrow> valid (f x) R) \<Longrightarrow> valid (run_then m f) R"
  by (auto simp: valid_def run_then_Some_Inr_iff)

lemma valid_pure: "(\<And>x. m = Inr x \<Longrightarrow> valid (f x) R) \<Longrightarrow> valid (run_then (Some m) f) R"
  by (auto simp: valid_def run_then_Some_Inr_iff)

lemma valid_mono: "valid m Q \<Longrightarrow> (\<And>x. Q x \<Longrightarrow> R x) \<Longrightarrow> valid m R"
  by (simp add: valid_def)

section \<open>Types\<close>

definition pcb_typed :: "pcb \<Rightarrow> bool" where
  "pcb_typed b \<longleftrightarrow> proc_class b \<in> {USER_PROC, SYSTEM_PROC} \<and> 0 \<le> priority b \<and> priority b \<le> 9 \<and>
     state b \<in> {READY_STATE, BLOCKED_STATE, SUSPEND_STATE, RESUME_STATE}"

definition well_typed :: "u32 set \<Rightarrow> 'a procs_scheme \<Rightarrow> bool" where
  "well_typed P s \<longleftrightarrow> (\<forall>p \<in> P. pcb_typed (pcbs s p))"

text \<open>What the rest of the system does while the caller waits for a request keeps the types.\<close>

definition trap_typed :: "'a kern_scheme trap \<Rightarrow> bool" where
  "trap_typed trap \<longleftrightarrow> (\<forall>P oper dev b n s. well_typed P s \<longrightarrow> valid (trap oper dev b n s) (\<lambda>(_, _, t). well_typed P t))"

lemma well_typed_cong: "pcbs t = pcbs s \<Longrightarrow> well_typed P t = well_typed P s"
  by (simp add: well_typed_def)

lemma well_typed_upd:
  "well_typed P s \<Longrightarrow> (pcb_typed (pcbs s p) \<Longrightarrow> pcb_typed (f (pcbs s p))) \<Longrightarrow> well_typed P (upd_pcb p f s)"
  by (auto simp: well_typed_def upd_pcb_def)

lemma well_typed_next [simp]: "well_typed P (set_next_pcb p q s) = well_typed P s"
proof -
  have "pcb_typed (b\<lparr>next_pcb := q\<rparr>) = pcb_typed b" for b by (simp add: pcb_typed_def)
  then show ?thesis by (auto simp: well_typed_def set_next_pcb_def upd_pcb_def)
qed

lemma well_typed_head [simp]: "well_typed P (set_head q p s) = well_typed P s"
  by (cases q) (simp_all add: well_typed_def)

lemma well_typed_io [simp]:
  "well_typed P (emit e s) = well_typed P s" "well_typed P (outb p c s) = well_typed P s"
  "well_typed P (snd (inb p s)) = well_typed P s" "well_typed P (print_lit_nul m s) = well_typed P s"
  "well_typed P (s\<lparr>mcbs := m'\<rparr>) = well_typed P s"
  by (simp_all add: well_typed_def outb_def inb_def emit_def print_lit_nul_def write_req_def Let_def)

lemma well_typed_fields [simp]:
  "well_typed P (s\<lparr>bufs := b\<rparr>) = well_typed P s" "well_typed P (s\<lparr>global_pcb := g\<rparr>) = well_typed P s"
  "well_typed P (u\<lparr>ctxs := c\<rparr>) = well_typed P u" "well_typed P (u\<lparr>initial_context := i\<rparr>) = well_typed P u"
  by (simp_all add: well_typed_def)

section \<open>Operations keep the types\<close>

subsection \<open>Queues and heap\<close>

lemma alloc_typed: "well_typed P s \<Longrightarrow> valid (sys_alloc_mem n s) (\<lambda>(_, t). well_typed P t)" for s :: "'a kern_scheme"
proof (rule validI)
  fix x assume w: "well_typed P s" and a: "sys_alloc_mem n s = Some (Inr x)"
  obtain p t where x: "x = (p, t)" by (cases x)
  have "pcbs t = pcbs s" using sys_alloc_mem_procs [of n s p t] a x by (simp add: proc_part_def)
  then show "case x of (_, t) \<Rightarrow> well_typed P t" using w x well_typed_cong by auto
qed

lemma free_typed: "well_typed P s \<Longrightarrow> valid (sys_free_mem p s) (\<lambda>(_, t). well_typed P t)" for s :: "'a procs_scheme"
proof (rule validI)
  fix x assume w: "well_typed P s" and a: "sys_free_mem p s = Some (Inr x)"
  obtain r t where x: "x = (r, t)" by (cases x)
  have "t\<lparr>mcbs := mcbs s\<rparr> = s\<lparr>mcbs := mcbs s\<rparr>" using sys_free_mem_frame a x by blast
  from arg_cong [OF this, of pcbs] have "pcbs t = pcbs s" by simp
  then show "case x of (_, t) \<Rightarrow> well_typed P t" using w x well_typed_cong by auto
qed

lemma insert_typed: "well_typed P s \<Longrightarrow> valid (pcb_insert p s) (well_typed P)"
  by (auto simp: pcb_insert_def Let_def simp del: queue_of.simps set_head.simps split: option.splits)

lemma remove_typed: "well_typed P s \<Longrightarrow> valid (pcb_remove p s) (\<lambda>(_, t). well_typed P t)"
  by (auto simp: pcb_remove_def remove_from_def Let_def simp del: set_head.simps split: option.splits)

lemma find_suspended_pcbs: "valid (find_suspended nm h s) (\<lambda>(_, t). pcbs t = pcbs s)"
proof (rule validI)
  fix x assume "find_suspended nm h s = Some (Inr x)"
  then have "\<forall>p t. Inr x = (Inr (p, t) :: (u32 \<times> 'a procs_scheme) checked) \<longrightarrow> pcbs t = pcbs s"
  proof (rule find_suspended.raw_induct [rotated])
    fix f nm h r and s :: "'a procs_scheme"
    assume "\<And>nm h s r. f nm h s = Some r \<Longrightarrow> \<forall>p t. r = Inr (p, t) \<longrightarrow> pcbs t = pcbs s"
      and "(if h = NULL then Some (Inr (h, s))
            else case strcmp nm (name (pcbs s h)) of Inl e \<Rightarrow> Some (Inl e)
               | Inr d \<Rightarrow> if d = 0 then Some (Inr (h, s))
                   else if next_pcb (pcbs s h) = NULL then Some (Inr (NULL, print_lit_nul not_found_msg s))
                   else f nm (next_pcb (pcbs s h)) s) = Some r"
    then show "\<forall>p t. r = Inr (p, t) \<longrightarrow> pcbs t = pcbs s" by (auto split: if_splits sum.splits)
  qed
  then show "case x of (_, t) \<Rightarrow> pcbs t = pcbs s" by (cases x) simp
qed

lemma find_typed: "well_typed P s \<Longrightarrow> valid (pcb_find nm s) (\<lambda>(_, t). well_typed P t)"
proof -
  assume w: "well_typed P s"
  have "valid (find_suspended nm (suspended_head s) s) (\<lambda>(_, t). well_typed P t)"
    by (rule valid_mono [OF find_suspended_pcbs]) (use w well_typed_cong in auto)
  then show ?thesis unfolding pcb_find_def using w by (intro valid_call [of _ "\<lambda>_. True"]) (auto simp: valid_def)
qed

lemma find_ptr_typed: "well_typed P s \<Longrightarrow> valid (pcb_find_ptr o_nm s) (\<lambda>(_, t). well_typed P t)"
  by (simp add: pcb_find_ptr_def find_typed split: option.split)

subsection \<open>The system call handler\<close>

lemma scheduler_typed: "well_typed P s \<Longrightarrow> valid (io_scheduler dev buf len oper s) (well_typed P)" for s :: "'a kern_scheme"
proof (rule validI)
  fix t assume "well_typed P s" "io_scheduler dev buf len oper s = Some (Inr t)"
  then show "well_typed P t" using io_scheduler_procs [of dev buf len oper s t] well_typed_cong [of t s P]
    by (simp add: proc_part_def)
qed

lemma pcb_free_typed: "well_typed P s \<Longrightarrow> valid (pcb_free p s) (\<lambda>(_, t). well_typed P t)"
  unfolding pcb_free_def by (auto intro!: valid_pure valid_call [OF free_typed])

lemma dispatch_typed: "well_typed P s \<Longrightarrow> valid (dispatch n s) (\<lambda>(_, t). well_typed P t)"
  unfolding dispatch_def Let_def
  by (auto intro!: valid_call [OF remove_typed] well_typed_upd simp: pcb_typed_def)

lemma block_typed: "well_typed P s \<Longrightarrow> valid (block_caller cc oper s) (well_typed P)"
  unfolding block_caller_def Let_def
  by (auto intro!: valid_call [OF scheduler_typed] insert_typed well_typed_upd simp: pcb_typed_def)

lemma idle_case_typed: "well_typed P s \<Longrightarrow> valid (idle_case cc n s) (\<lambda>(_, t). well_typed P t)"
  unfolding idle_case_def Let_def
  by (auto intro!: valid_call [OF insert_typed] dispatch_typed well_typed_upd simp: pcb_typed_def)

lemma exit_case_typed: "well_typed P s \<Longrightarrow> valid (exit_case n s) (\<lambda>(_, t). well_typed P t)"
  unfolding exit_case_def Let_def
  by (auto intro!: valid_call [OF remove_typed] valid_call [OF pcb_free_typed] dispatch_typed)

lemma sys_call_typed: "well_typed P s \<Longrightarrow> valid (sys_call cc s) (\<lambda>(_, t). well_typed P t)"
  unfolding sys_call_def Let_def
  by (auto intro!: valid_call [OF block_typed] idle_case_typed exit_case_typed)

subsection \<open>Requests and commands\<close>

lemma poll_typed: "well_typed P s \<Longrightarrow> valid (serial_poll dev b n s) (\<lambda>(_, _, t). well_typed P t)" for s :: "'a procs_scheme"
proof (rule validI)
  fix x assume w: "well_typed P s" and a: "serial_poll dev b n s = Some (Inr x)"
  obtain r b' t where x: "x = (r, b', t)" by (cases x)
  have "pcbs t = pcbs s" using serial_poll_line_only [of dev b n s r b' t] a x by (auto simp: line_only_def)
  then show "case x of (_, _, t) \<Rightarrow> well_typed P t" using w x well_typed_cong by auto
qed

lemma serial_out_loop_pcbs: "serial_out_loop dev b n s = Inr t \<Longrightarrow> pcbs (t :: 'a procs_scheme) = pcbs s"
  by (induction dev b n s rule: serial_out_loop.induct) (auto simp: outb_def emit_def)

lemma serial_out_pcbs: "serial_out dev b n s = Inr (r, t) \<Longrightarrow> pcbs (t :: 'a procs_scheme) = pcbs s"
  by (auto simp: serial_out_def Let_def checked_simps serial_out_loop_pcbs split: if_splits)

lemma sys_req_typed:
  assumes "trap_typed trap" "well_typed P s"
  shows "valid (sys_req trap oper dev b n s) (\<lambda>(_, _, t). well_typed P t)"
proof -
  have t: "valid (trap op d c m s) (\<lambda>(_, _, t). well_typed P t)" for op d c m using assms unfolding trap_typed_def by blast
  have o: "valid (run_then (Some (serial_out d c k u)) (\<lambda>(r, s). Some (Inr (r, c, s)))) (\<lambda>(_, _, t). well_typed P t)"
    if "well_typed P u" for d c k u
    using that by (auto intro!: valid_pure simp: well_typed_def serial_out_pcbs)
  show ?thesis unfolding sys_req_def Let_def by (auto intro!: valid_call [OF t] poll_typed o split: prod.splits)
qed

lemma write_typed: "trap_typed trap \<Longrightarrow> well_typed P s \<Longrightarrow> valid (write_bytes trap b n s) (well_typed P)"
  unfolding write_bytes_def by (auto intro!: valid_call [OF sys_req_typed])

lemma say_typed:
  "trap_typed trap \<Longrightarrow> well_typed P s \<Longrightarrow> valid (say trap m s) (well_typed P)"
  "trap_typed trap \<Longrightarrow> well_typed P s \<Longrightarrow> valid (say_nul trap m s) (well_typed P)"
  unfolding say_def say_nul_def by (erule (1) write_typed)+

lemma ask_typed: "trap_typed trap \<Longrightarrow> well_typed P s \<Longrightarrow> valid (ask_token trap m s) (\<lambda>(_, _, t). well_typed P t)"
  unfolding ask_token_def by (auto intro!: valid_call [OF say_typed(2)] valid_call [OF poll_typed] valid_pure)

lemma find_user_typed:
  "trap_typed trap \<Longrightarrow> well_typed P s \<Longrightarrow> valid (find_user_pcb trap a b c s) (\<lambda>(_, t). well_typed P t)"
  unfolding find_user_pcb_def
  by (auto intro!: valid_call [OF ask_typed] valid_call [OF find_ptr_typed] valid_call [OF say_typed(1)] valid_pure)

lemma delete_typed: "trap_typed trap \<Longrightarrow> well_typed P s \<Longrightarrow> valid (delete_pcb trap s) (well_typed P)"
  unfolding delete_pcb_def by (auto intro!: valid_call [OF find_user_typed] valid_call [OF remove_typed] say_typed(1))

lemma suspend_typed: "trap_typed trap \<Longrightarrow> well_typed P s \<Longrightarrow> valid (suspend_pcb trap s) (well_typed P)"
  unfolding suspend_pcb_def
  by (auto intro!: valid_call [OF find_user_typed] valid_call [OF insert_typed] say_typed(1) well_typed_upd simp: pcb_typed_def)

lemma resume_typed: "trap_typed trap \<Longrightarrow> well_typed P s \<Longrightarrow> valid (resume_pcb trap s) (well_typed P)"
  unfolding resume_pcb_def
  by (auto intro!: valid_call [OF find_user_typed] valid_call [OF insert_typed] say_typed(1) well_typed_upd simp: pcb_typed_def)

lemma set_priority_typed: "trap_typed trap \<Longrightarrow> well_typed P s \<Longrightarrow> valid (set_pcb_priority trap s) (well_typed P)"
  unfolding set_pcb_priority_def Let_def
  by (auto intro!: valid_call [OF ask_typed] valid_call [OF alloc_typed] valid_call [OF say_typed(2)] valid_call [OF poll_typed]
      valid_call [OF find_typed] say_typed(1) well_typed_upd valid_pure simp: pcb_typed_def split: option.splits)

subsection \<open>New processes\<close>

lemma allocate_typed: "well_typed P s \<Longrightarrow> valid (pcb_allocate s) (\<lambda>(p, t). well_typed (P - {p}) t)" for s :: "'a kern_scheme"
  unfolding pcb_allocate_def by (auto intro!: valid_call [OF alloc_typed] simp: well_typed_def upd_pcb_def print_lit_nul_def write_req_def emit_def)

lemma setup_fail_null: "valid (setup_fail p s) (\<lambda>(q, t). q = NULL)"
  unfolding setup_fail_def by (rule validI) (auto simp: checked_simps)

lemma setup_typed: "well_typed P s \<Longrightarrow> valid (pcb_setup nm cls prio s) (\<lambda>(p, t). p = NULL \<or> well_typed (insert p P) t)"
  for s :: "'a kern_scheme"
proof -
  have f: "valid (setup_fail p u) (\<lambda>(q, t). q = NULL \<or> well_typed (insert q P) t)" for p and u :: "'a kern_scheme"
    by (rule valid_mono [OF setup_fail_null]) auto
  have u: "well_typed (insert p P) (upd_pcb p (\<lambda>b. b\<lparr>name := nm', priority := prio, proc_class := c, state := READY_STATE,
      stack_top := a\<rparr>) u)"
    if "well_typed (P - {p}) u" "0 \<le> prio" "prio \<le> 9" "c = USER_PROC \<or> c = SYSTEM_PROC" for p nm' a c and u :: "'a kern_scheme"
    using that by (auto simp: well_typed_def pcb_typed_def upd_pcb_def)
  assume "well_typed P s"
  then show ?thesis unfolding pcb_setup_def Let_def
    by (auto intro!: valid_call [OF allocate_typed] valid_call [OF find_typed [OF u]] valid_pure f split: option.splits)
qed

lemma spawn_typed: "well_typed P s \<Longrightarrow> valid (spawn full nm cls prio entry s) (\<lambda>t. \<exists>p. well_typed (insert p P) t)"
  for s :: "'a kern_scheme"
proof -
  assume w: "well_typed P s"
  have i: "valid (pcb_insert p (start_context full p entry t)) (\<lambda>t. \<exists>p. well_typed (insert p P) t)"
    if "well_typed (insert p P) t" for p and t :: "'a kern_scheme"
  proof -
    have "well_typed (insert p P) (start_context full p entry t)" using that by (simp add: start_context_def Let_def)
    then show ?thesis by (rule valid_mono [OF insert_typed]) (rule exI)
  qed
  show ?thesis unfolding spawn_def by (auto intro!: valid_call [OF setup_typed [OF w]] i)
qed

section \<open>Property\<close>

text \<open>
  C14. Types of the process table: if class, priority and state of the PCBs at the addresses \<open>P\<close> are in
  range, then they still are after a system call, after each of the commands that change a process
  (provided the rest of the system keeps the types while the command waits), and after the
  creation of a process, whose own fields are in range too. The state is never the
  \<open>SUSPENDED_STATE\<close> (-1) of \<open>pcb.c\<close>, for which alone \<open>pcb_insert\<close> uses the suspended queue.
\<close>

theorem pcb_fields_typed:
  assumes "well_typed P s"
  shows "(\<forall>cc r t. sys_call cc s = Some (Inr (r, t)) \<longrightarrow> well_typed P t) \<and>
    (\<forall>trap t. trap_typed trap \<longrightarrow>
       delete_pcb trap s = Some (Inr t) \<or> suspend_pcb trap s = Some (Inr t) \<or> resume_pcb trap s = Some (Inr t) \<or>
       set_pcb_priority trap s = Some (Inr t) \<longrightarrow> well_typed P t) \<and>
    (\<forall>full nm cls prio entry t. spawn full nm cls prio entry s = Some (Inr t) \<longrightarrow> (\<exists>p. well_typed (insert p P) t)) \<and>
    (\<forall>p \<in> P. queue_of (state (pcbs s p)) \<noteq> Some Suspended)"
proof (intro conjI allI impI ballI)
  show "well_typed P t" if "sys_call cc s = Some (Inr (r, t))" for cc r t
    using validD [OF sys_call_typed [OF assms] that] by simp
  show "well_typed P t" if "trap_typed trap" "delete_pcb trap s = Some (Inr t) \<or> suspend_pcb trap s = Some (Inr t) \<or>
      resume_pcb trap s = Some (Inr t) \<or> set_pcb_priority trap s = Some (Inr t)" for trap t
    using that(2) validD [OF delete_typed [OF that(1) assms]] validD [OF suspend_typed [OF that(1) assms]]
      validD [OF resume_typed [OF that(1) assms]] validD [OF set_priority_typed [OF that(1) assms]] by blast
  show "\<exists>p. well_typed (insert p P) t" if "spawn full nm cls prio entry s = Some (Inr t)" for full nm cls prio entry t
    using validD [OF spawn_typed [OF assms] that] .
  show "queue_of (state (pcbs s p)) \<noteq> Some Suspended" if "p \<in> P" for p
    using assms that by (auto simp: well_typed_def pcb_typed_def)
qed

lemma console_typed: "trap_typed console"
  by (simp add: trap_typed_def console_def)

theorem pcb_fields_typed_witness:
  "\<exists>t. suspend_pcb console (keyboard [98, 98, 13]) = Some (Inr t) \<and> well_typed {0x9000, 0xa000} t"
proof -
  let ?s = "keyboard [98, 98, 13]"
  have w: "well_typed {0x9000, 0xa000} ?s"
    by (simp add: well_typed_def pcb_typed_def keyboard_fields kern_demo_simps some_pcb_def)
  have f: "feeds ?s ([98, 98] @ [13])" using keyboard_feeds [of "[98, 98, 13]"] by simp
  obtain s1 where s1: "find_user_pcb console (''Invalid process name. '' @ [NL]) (''Process not found. '' @ [NL])
      (NL # ''System processes cannot be deleted. '' @ [NL]) ?s = Some (Inr (0x9000, s1))"
    using find_user_pcb_console [OF keyboard_table typed_bb(1,2) f typed_bb(3,4)] by blast
  then have "\<exists>t. suspend_pcb console ?s = Some (Inr t)" by (simp add: suspend_pcb_def pcb_insert_def)
  then show ?thesis using pcb_fields_typed [OF w] console_typed by blast
qed

end
