(* ===== verification/Memory_Command.thy ===== *)
theory Memory_Command
  imports Heap_Memory C_Stdlib
begin

text \<open>
  \<open>src/user/mem.c\<close>, the memory test command: it lists the blocks of the heap, allocates and frees.

  The file calls \<open>printf\<close> and \<open>htoi\<close>, which the repository does not contain. They are parameters: \<open>printf\<close>
  takes what is to be printed (the format and its arguments, as a value of \<open>printed\<close>) and the state,
  \<open>htoi\<close> the string. The theorem about listings relies on one thing only, that printing does not change
  the heap. \<open>argv\<close> is the list of the argument strings, \<open>argc\<close> its length.
\<close>

section \<open>Model\<close>

datatype show_kind = Show_All | Show_Allocated | Show_Free

text \<open>The calls of \<open>printf\<close>: \<open>%s\<close>, \<open>%p: %zd\<close>, the three messages with their arguments, a usage line.\<close>

datatype printed =
    Status string
  | Block u32 u32
  | Alloc_Failed u32
  | Allocated u32 u32
  | Free_Failed u32
  | Usage string

type_synonym 's printf = "printed \<Rightarrow> 's \<Rightarrow> 's"

subsection \<open>mem_show\<close>

partial_function (option) show_blocks ::
  "'a heap_scheme printf \<Rightarrow> show_kind \<Rightarrow> u32 \<Rightarrow> 'a heap_scheme \<Rightarrow> 'a heap_scheme checked option" where
  "show_blocks printf which mcb s =
     (if mcb = NULL then Some (Inr s)
      else
        let s = (if which = Show_All then printf (Status (if mcb_isfree (mcbs s mcb) then ''FREE '' else ''ALLOC'')) s else s);
            s = (if which = Show_All \<or> (which = Show_Allocated \<and> \<not> mcb_isfree (mcbs s mcb)) \<or> (which = Show_Free \<and> mcb_isfree (mcbs s mcb))
                 then printf (Block (mcb_start mcb) (mcb_size (mcbs s mcb))) s else s)
        in case mcb_next mcb s of Inl e \<Rightarrow> Some (Inl e) | Inr mcb' \<Rightarrow> show_blocks printf which mcb' s)"

definition mem_show :: "'a heap_scheme printf \<Rightarrow> show_kind \<Rightarrow> 'a heap_scheme \<Rightarrow> (int \<times> 'a heap_scheme) checked option" where
  "mem_show printf which s = run_then (show_blocks printf which (memlist s) s) (\<lambda>s. Some (Inr (0, s)))"

subsection \<open>mem_alloc and mem_free\<close>

fun alloc_each :: "'a heap_scheme printf \<Rightarrow> bytes list \<Rightarrow> 'a heap_scheme \<Rightarrow> (int \<times> 'a heap_scheme) checked option" where
  "alloc_each printf [] s = Some (Inr (0, s))"
| "alloc_each printf (arg # args) s =
     run_then (Some (atoi arg)) (\<lambda>n.
       let sz = word_of_int n
       in run_then (allocate_memory sz s) (\<lambda>(ptr, s).
            if ptr = NULL then Some (Inr (1, printf (Alloc_Failed sz) s))
            else alloc_each printf args (printf (Allocated sz ptr) s)))"

definition mem_alloc :: "'a heap_scheme printf \<Rightarrow> bytes list \<Rightarrow> 'a heap_scheme \<Rightarrow> (int \<times> 'a heap_scheme) checked option" where
  "mem_alloc printf argv s = alloc_each printf (drop 2 argv) s"

fun free_each ::
  "'a heap_scheme printf \<Rightarrow> (bytes \<Rightarrow> u32) \<Rightarrow> bytes list \<Rightarrow> 'a heap_scheme \<Rightarrow> (int \<times> 'a heap_scheme) checked option" where
  "free_each printf htoi [] s = Some (Inr (0, s))"
| "free_each printf htoi (arg # args) s =
     (let ptr = htoi arg
      in run_then (free_memory ptr s) (\<lambda>(ret, s).
           if ret = -1 then Some (Inr (1, printf (Free_Failed ptr) s)) else free_each printf htoi args s))"

definition mem_free ::
  "'a heap_scheme printf \<Rightarrow> (bytes \<Rightarrow> u32) \<Rightarrow> bytes list \<Rightarrow> 'a heap_scheme \<Rightarrow> (int \<times> 'a heap_scheme) checked option" where
  "mem_free printf htoi argv s = free_each printf htoi (drop 2 argv) s"

subsection \<open>mem\<close>

definition usage :: "string list" where
  "usage =
     [CHR 0x09 # ''mem               Show all memory blocks'' @ [CHR 0x0A],
      CHR 0x09 # ''mem -a            Show allocated memory'' @ [CHR 0x0A],
      CHR 0x09 # ''mem -f            Show free memory'' @ [CHR 0x0A],
      CHR 0x09 # ''mem -A size...    Allocate size bytes of memory'' @ [CHR 0x0A],
      CHR 0x09 # ''mem -F address... Free memory at address'' @ [CHR 0x0A]]"

definition mem ::
  "'a heap_scheme printf \<Rightarrow> (bytes \<Rightarrow> u32) \<Rightarrow> bytes list \<Rightarrow> 'a heap_scheme \<Rightarrow> (int \<times> 'a heap_scheme) checked option" where
  "mem printf htoi argv s =
     (if length argv < 2 then mem_show printf Show_All s
      else run_then (Some (strcmp (argv ! 1) (c_str ''-a''))) (\<lambda>d.
        if d = 0 \<and> length argv = 2 then mem_show printf Show_Allocated s
        else run_then (Some (strcmp (argv ! 1) (c_str ''-f''))) (\<lambda>d.
          if d = 0 \<and> length argv = 2 then mem_show printf Show_Free s
          else run_then (Some (strcmp (argv ! 1) (c_str ''-A''))) (\<lambda>d.
            if d = 0 then mem_alloc printf argv s
            else run_then (Some (strcmp (argv ! 1) (c_str ''-F''))) (\<lambda>d.
              if d = 0 then mem_free printf htoi argv s
              else Some (Inr (1, fold (\<lambda>l. printf (Usage l)) usage s)))))))"

section \<open>Lemmas\<close>

text \<open>The listing of a block list whose first header is at address \<open>a\<close>.\<close>

fun block_lines :: "show_kind \<Rightarrow> nat \<Rightarrow> block list \<Rightarrow> printed list" where
  "block_lines which a [] = []"
| "block_lines which a ((n, f) # bs) =
     (if which = Show_All then [Status (if f then ''FREE '' else ''ALLOC'')] else []) @
     (if which = Show_All \<or> (which = Show_Allocated \<and> \<not> f) \<or> (which = Show_Free \<and> f) then [Block (of_nat (a + 4)) (of_nat n)] else []) @
     block_lines which (a + 4 + n) bs"

text \<open>Printing does not change the heap.\<close>

definition keeps_heap :: "'a heap_scheme printf \<Rightarrow> bool" where
  "keeps_heap printf \<longleftrightarrow> (\<forall>x s. mcbs (printf x s) = mcbs s \<and> memlist (printf x s) = memlist s)"

lemma show_blocks_lines:
  assumes p: "keeps_heap printf"
  shows "chain (mcbs s) a bs \<Longrightarrow> 0 < a \<Longrightarrow> a + extent bs < 2 ^ 32 \<Longrightarrow> sizes_ok bs \<Longrightarrow>
    show_blocks printf which (of_nat a) s = Some (Inr (fold printf (block_lines which a bs) s))"
proof (induction bs arbitrary: a s)
  case (Cons b bs)
  obtain n f where b: "b = (n, f)" by (cases b)
  have m: "n mod 4 = 0" "sizes_ok bs" using Cons.prems(4) b by simp_all
  have h: "mcbs s (of_nat a) = hdr n f (bs = [])" using Cons.prems(1) b by simp
  have a0: "(of_nat a :: u32) \<noteq> NULL" using Cons.prems(2,3) by (intro of_nat_addr_zero) simp_all
  have k: "mcbs (printf x u) = mcbs u" for x u using p by (simp add: keeps_heap_def)
  define u where "u = fold printf ((if which = Show_All then [Status (if f then ''FREE '' else ''ALLOC'')] else []) @
     (if which = Show_All \<or> (which = Show_Allocated \<and> \<not> f) \<or> (which = Show_Free \<and> f) then [Block (of_nat (a + 4)) (of_nat n)] else [])) s"
  have u: "mcbs u = mcbs s" by (simp add: u_def k)
  have start: "mcb_start (of_nat a) = of_nat (a + 4)" by (simp add: mcb_start_def)
  have nx: "mcb_next (of_nat a) u = Inr (if bs = [] then NULL else of_nat (a + 4 + n))"
    using a0 h u m(1) by (simp add: mcb_next_def mcb_start_def)
  have "show_blocks printf which (of_nat a) s =
      (case mcb_next (of_nat a) u of Inl e \<Rightarrow> Some (Inl e) | Inr mcb' \<Rightarrow> show_blocks printf which mcb' u)"
    using a0 h m(1) by (subst show_blocks.simps) (cases which; cases f; simp add: Let_def k u_def start cong: sum.case_cong)
  also have "\<dots> = Some (Inr (fold printf (block_lines which (a + 4 + n) bs) u))"
  proof (cases "bs = []")
    case True
    then show ?thesis unfolding nx by (simp add: show_blocks.simps)
  next
    case False
    have "show_blocks printf which (of_nat (a + 4 + n)) u = Some (Inr (fold printf (block_lines which (a + 4 + n) bs) u))"
      using Cons.prems False b u m(2) by (intro Cons.IH) simp_all
    then show ?thesis unfolding nx using False by simp
  qed
  also have "fold printf (block_lines which (a + 4 + n) bs) u = fold printf (block_lines which a (b # bs)) s"
    by (simp add: u_def b)
  finally show ?case .
qed simp

lemma mem_show_lines:
  assumes "heap_blocks s bs" "keeps_heap printf"
  shows "mem_show printf which s = Some (Inr (0, fold printf (block_lines which (unat (memlist s)) bs) s))"
  using show_blocks_lines [OF assms(2), of s "unat (memlist s)" bs which] assms(1)
  by (simp add: heap_blocks_def mem_show_def)

section \<open>Properties\<close>

text \<open>
  C22. The command without arguments, with \<open>-a\<close> and with \<open>-f\<close> ends on every well-formed heap and prints
  exactly its blocks, its allocated blocks, or its free blocks, in the order of their addresses and with their start
  and size; it prints nothing else and does nothing else.
\<close>

theorem mem_lists_blocks:
  assumes "heap_blocks s bs" "keeps_heap printf"
  shows "mem printf htoi [cmd] s = Some (Inr (0, fold printf (block_lines Show_All (unat (memlist s)) bs) s)) \<and>
    mem printf htoi [cmd, c_str ''-a''] s = Some (Inr (0, fold printf (block_lines Show_Allocated (unat (memlist s)) bs) s)) \<and>
    mem printf htoi [cmd, c_str ''-f''] s = Some (Inr (0, fold printf (block_lines Show_Free (unat (memlist s)) bs) s))"
proof -
  have c: "strcmp (c_str ''-a'') (c_str ''-a'') = Inr 0" "strcmp (c_str ''-f'') (c_str ''-f'') = Inr 0"
    "\<exists>d. strcmp (c_str ''-f'') (c_str ''-a'') = Inr d \<and> d \<noteq> 0" by (simp_all add: c_str_def)
  then show ?thesis by (auto simp: mem_def mem_show_lines [OF assms])
qed

definition log_printf :: "heap printf" where
  "log_printf x s = s\<lparr>trace := trace s @ (case x of Block p n \<Rightarrow> [Request WRITE COM1 [ucast p, ucast n]] | _ \<Rightarrow> [])\<rparr>"

theorem mem_lists_blocks_witness:
  "\<exists>t. mem log_printf (\<lambda>_. 0) [c_str ''mem'', c_str ''-a''] two_used = Some (Inr (0, t)) \<and>
     trace t = trace two_used @ [Request WRITE COM1 [0x04, 8], Request WRITE COM1 [0x10, 4]]"
proof -
  have "keeps_heap log_printf" by (simp add: keeps_heap_def log_printf_def)
  with mem_lists_blocks [OF two_used_blocks, of log_printf "\<lambda>_. 0" "c_str ''mem''"]
  have "mem log_printf (\<lambda>_. 0) [c_str ''mem'', c_str ''-a''] two_used =
      Some (Inr (0, fold log_printf (block_lines Show_Allocated (unat (memlist two_used)) [(8, False), (4, False), (100, True)]) two_used))"
    by blast
  then show ?thesis by (simp add: two_used_memlist log_printf_def)
qed

end
