(* ===== verification/Spec2Isabelle.thy ===== *)
theory Spec2Isabelle
  imports Boot_Switch Process_Types Memory_Command
begin

text \<open>
  Verification of MPX, a small teaching kernel for the i386 (\<open>src/\<close>).

  The program. \<open>kmain\<close> (\<open>src/kernel/kmain.c\<close>) brings the machine up: serial line, descriptor tables,
  interrupt controllers, paging, heap, serial driver; it then creates two processes, the command handler and the
  idle process, and gives the processor away with a trap. From there on the kernel runs only in
  \<open>sys_call\<close> (\<open>src/kernel/sys_call.c\<close>), which the trap \<open>int $0x60\<close> reaches through an assembly stub, and in
  the interrupt handlers. Processes ask for service with \<open>sys_req\<close> (\<open>src/user/core.c\<close>); scheduling is
  cooperative. The command handler (\<open>src/user/commhand.c\<close>) reads command words from the line; its commands
  work on the clock, on the process table, or print.

  Theories, in the order of their imports, and what they model:

    \<^item> \<open>Mpx_Prelude\<close>: faults, the result types \<open>checked\<close> (a value or a fault) and \<open>checked option\<close>
      (\<^const>\<open>None\<close>: the code runs forever), their sequencing, bounds-checked arrays, C division.
    \<^item> \<open>C_Strings\<close>, \<open>C_Stdlib\<close>: \<open>src/lib/string.c\<close>, \<open>ctype.c\<close>, \<open>stdlib.c\<close>, and \<open>memcpy\<close>, \<open>memset\<close> of
      \<open>core.c\<close>, on byte arrays.
    \<^item> \<open>Port_IO\<close>: \<open>include/mpx/io.h\<close>, \<open>interrupts.h\<close>, \<open>device.h\<close>, \<open>sys_req.h\<close>. The state records a trace of
      port accesses; what a read of a port gives is an arbitrary function of the port and the
      number of reads before.
    \<^item> \<open>Serial_Port\<close>: the polling half of \<open>src/kernel/serial.c\<close>, and \<open>kpanic\<close>.
    \<^item> \<open>Descriptor_Tables\<close>, \<open>Virtual_Memory\<close>: \<open>src/kernel/core-c.c\<close>; \<open>Paging_Init\<close>: the address space
      that \<open>vm_init\<close> builds, in the processor's walk from \<open>cr3\<close> through the directory entries and the tables.
    \<^item> \<open>Heap_Memory\<close>: \<open>src/lib/mem.c\<close>, \<open>include/memory.h\<close> and the function pointers of \<open>src/lib/core.c\<close>; the
      headers of the blocks are kept by address, so overlap and reuse are visible.
    \<^item> \<open>Linked_Lists\<close>, \<open>Process_Queues\<close>: \<open>src/kernel/pcb.c\<close> over a store of PCBs by address.
    \<^item> \<open>Serial_Driver\<close>: the interrupt-driven half of \<open>serial.c\<close>: device control block, request queue, handlers.
    \<^item> \<open>Sys_Call\<close>: \<open>sys_call\<close> with the fall-through of its cases, over saved contexts by address.
    \<^item> \<open>Machine_Stack\<close>, \<open>Context_Switch\<close>: the processor, a byte memory for the stacks, and on them the trap and the
      stubs \<open>src/kernel/sys_call_isr.s\<close> and \<open>serial_isr.s\<close>, instruction by instruction, around the handlers in C.
      \<open>Virtual_Processors\<close>: the abstract machine in which each process has a processor of its own.
    \<^item> \<open>Device_Runs\<close>: runs of the serial device, in which interrupts and requests alternate in any order.
    \<^item> \<open>Sys_Req\<close>: \<open>sys_req\<close>, the R3 processes, the idle process.
    \<^item> \<open>Clock_Commands\<close>, \<open>Process_Commands\<close>, \<open>Command_Handler\<close>: \<open>commhand.c\<close>.
    \<^item> \<open>Process_Types\<close>: the types of the fields of a PCB, kept by every operation on processes.
    \<^item> \<open>Memory_Command\<close>: \<open>src/user/mem.c\<close>, the command that lists, allocates and frees heap blocks; \<open>printf\<close> and
      \<open>htoi\<close>, which the repository does not have, are arguments.
    \<^item> \<open>Kernel_Main\<close>: \<open>kmain.c\<close>; \<open>Boot_Switch\<close>: its trap on the machine.

  State. One record per layer, each extending the one below with the global variables of its file:
  \<open>machine\<close> (trace and environment), \<open>serial_line\<close>, \<open>tables\<close>, \<open>vm\<close>, \<open>heap\<close>, \<open>procs\<close>, \<open>driver\<close>, \<open>kern\<close>. An
  operation is a function from the state to a result and the next state; it is polymorphic in the rest
  of the record, so that the layers above use it as it is. Global names are those of the source.

  Results. A branch that dereferences \<open>NULL\<close>, leaves an array, divides by zero or stops in \<open>kpanic\<close> is a value
  of the type \<open>fault\<close>, so that \<open>Inr\<close> says that nothing of this kind has happened. Machine integers are
  words of their width; \<open>int\<close> of the source is an integer where the code cannot overflow it, otherwise the
  wrap-around is written out.

  Loops. A loop bounded by its data is a recursive function with a measure. A walk over pointers and
  polling of the line may run forever: these are partial functions into an option, and the theorems
  that say they return say it under the condition that the pointers form a list, or that the line
  delivers a return key. No fuel is used anywhere.

  Traps. What happens between \<open>int $0x60\<close> and the moment the caller runs again is the parameter \<open>trap\<close> of every
  function that makes a request. Theorems about a command say which kernel they mean: \<open>console\<close>
  serves and records each request at once, \<open>no_service\<close> answers -1. Theorems of \<open>Sys_Call\<close> are about
  \<open>sys_call\<close> itself, those of \<open>Context_Switch\<close> and the theories after it about the trap instruction (\<open>trap60\<close>) with the
  stub around \<open>sys_call\<close>; there the contexts the handler works on are the bytes on the stacks. What the compiler makes of
  a C function (stack used, registers not preserved) is the parameter \<open>compiled\<close>. Addresses of functions and the contents of uninitialised local arrays are arguments too.

  What the lemmas show.

    \<^item> Heap: the blocks tile the heap (\<open>heap_blocks\<close>); \<open>allocate_memory\<close> refines first fit with splitting,
      \<open>free_memory\<close> refines marking and coalescing; a client that frees only what it holds keeps the heap
      well-formed in every reachable state. \<open>room\<close> states that enough memory is left for what follows.
      The memory command prints exactly the blocks of the heap.
    \<^item> Paging: from a cleared memory and an image that ends below 3 MB (\<open>fresh_vm\<close>), \<open>vm_init\<close> maps the low
      memory to itself and the kernel heap to frames of its own, and nothing else.
    \<^item> Queues: \<open>qlist\<close> relates pointers and lists; the locale of \<open>Linked_Lists\<close> derives the laws of
      linked lists, and the locale of process queues states what insertion and removal promise;
      \<open>Process_Queues\<close> interprets them on \<open>pcb_insert\<close> and \<open>pcb_remove\<close>, and the dispatcher rests on
      these laws only. Insertion is stable and by priority; every walk over a well-formed table ends.
    \<^item> Scheduling: \<open>scheduling s r Q\<close> is the invariant of the dispatcher while processes yield; processes are
      conserved and equal priorities take turns.
    \<^item> Context switch: any run in which the processes only compute on their own stacks and yield refines a run of the abstract machine
      (\<open>refines\<close>), in which a trap changes no registers and no live stack; so a process gets back exactly what it
      trapped with. The interrupt of the serial line, whose stub saves no register, does not have this property.
    \<^item> Driver: a write goes out byte by byte, requests queue up in order; a read takes the line that the ring
      buffer holds, and a read that finds no end of line keeps the device busy through every run.
    \<^item> Types: class, priority and state of every PCB stay in range, by composition of the operations' \<open>valid\<close> rules.
    \<^item> Commands: what a command writes and does to clock or process table, on every branch that the
      theorem names; round trip of the date on a clock that answers from the register selected; the command chain is
      a lookup in a table, and one round of \<open>commhand\<close> never reaches it; the listing follows the queues.
    \<^item> Boot: from the loaded image through \<open>kmain\<close> to the first dispatch, which starts the command handler
      at its entry with the registers \<open>kmain\<close> has chosen, and with it the refinement above.

  Several theorems show what the code does where this is not what it means to do: double release of a PCB, the
  fall-through of \<open>READ\<close> to \<open>IDLE\<close>, the state 2 of suspended processes, queues that lose processes, the hour that
  wraps, the kernel heap that ignores alignment and wraps, the single byte the command handler reads. Each text says so.

  Not modelled: \<open>core-asm.s\<close> (the multiboot header, the stack of \<open>kmain\<close> and the power-off after it); what is commented out (\<open>block_pcb\<close>, \<open>create_pcb\<close>, \<open>show_blocked\<close>).
  Preemption inside a C function by an interrupt is not modelled: each function runs as a whole. The memory of
  \<open>Machine_Stack\<close> holds the stacks only; the other data of the kernel are in the records of the C model.
\<close>

end
